(* ===== verification/Prelude.thy ===== *)
theory Prelude
  imports Main "HOL-Library.Word"
begin

text \<open>
  The vocabulary every component of the Casquinha model shares: bytes and C strings, the
  integer widths of the target (a 32-bit PowerPC: \<open>int\<close> and \<open>long\<close> are 32 bits,
  \<open>long long\<close> 64 bits, \<open>unsigned long\<close> tick counts and ring cursors 32-bit words),
  decimal rendering as \<open>printf\<close> does it, bounded string copies, and the growth rule of the
  program's dynamic arrays. Allocation is taken to succeed throughout the pure modules.
\<close>

unbundle bit_operations_syntax

named_theorems c_defs \<open>definitions of the C vocabulary, for unfolding on concrete values\<close>
named_theorems c_bounds \<open>ranges of the fixed-width integer operations\<close>

subsection \<open>Bytes and C strings\<close>

type_synonym byte = char
type_synonym bytes = "byte list"
type_synonym cstr = string

abbreviation NUL :: byte where "NUL \<equiv> CHR 0x00"
abbreviation TAB :: byte where "TAB \<equiv> CHR 0x09"
abbreviation LF :: byte where "LF \<equiv> CHR 0x0A"
abbreviation VTAB :: byte where "VTAB \<equiv> CHR 0x0B"
abbreviation FF :: byte where "FF \<equiv> CHR 0x0C"
abbreviation CR :: byte where "CR \<equiv> CHR 0x0D"

text \<open>An \<open>unsigned char\<close> promoted to \<open>int\<close>.\<close>

definition u8 :: "byte \<Rightarrow> int" where
  [c_defs]: "u8 c = of_char c"

lemma u8_nat: "u8 c = int (of_char c)"
  by (simp add: u8_def of_nat_of_char)

lemma u8_bounds [c_bounds]: "0 \<le> u8 c" "u8 c < 256"
  using nat_of_char_less_256 [of c] by (simp_all add: u8_nat)

lemma u8_inj: "u8 c = u8 d \<longleftrightarrow> c = d"
  by (simp add: u8_def)

text \<open>What a C string function sees of a byte range that was NUL-terminated behind it.\<close>

definition cview :: "bytes \<Rightarrow> cstr" where
  [c_defs]: "cview bs = takeWhile (\<lambda>c. c \<noteq> NUL) bs"

lemma cview_id: "NUL \<notin> set bs \<Longrightarrow> cview bs = bs"
  unfolding cview_def by auto

lemma NUL_notin_cview [simp]: "NUL \<notin> set (cview bs)"
  unfolding cview_def by (auto dest: set_takeWhileD)

lemma length_cview_le: "length (cview bs) \<le> length bs"
  unfolding cview_def by (rule length_takeWhile_le)

text \<open>
  \<open>snprintf\<close> into a buffer of \<open>n\<close> bytes and \<open>strncpy\<close> followed by the write of the
  final NUL both leave the first \<open>n - 1\<close> bytes.
\<close>

definition fits :: "nat \<Rightarrow> cstr \<Rightarrow> cstr" where
  [c_defs]: "fits n s = take (n - 1) s"

lemma length_fits: "length (fits n s) \<le> n - 1"
  by (simp add: fits_def)

lemma length_fits_less: "0 < n \<Longrightarrow> length (fits n s) < n"
  using length_fits [of n s] by simp

lemma fits_id: "length s < n \<Longrightarrow> fits n s = s"
  by (simp add: fits_def)

lemma fits_idem [simp]: "fits n (fits n s) = fits n s"
  by (simp add: fits_def)

lemma set_fits_subset: "set (fits n s) \<subseteq> set s"
  by (simp add: fits_def set_take_subset)

lemma dropWhile_Cons_length [termination_simp]:
  "dropWhile P xs = y # ys \<Longrightarrow> length ys < length xs"
  using length_dropWhile_le [of P xs] by simp

subsection \<open>Characters\<close>

definition is_digit :: "char \<Rightarrow> bool" where
  [c_defs]: "is_digit c \<longleftrightarrow> 48 \<le> u8 c \<and> u8 c \<le> 57"

definition is_ws :: "char \<Rightarrow> bool" where
  [c_defs]: "is_ws c \<longleftrightarrow>
     c = CHR '' '' \<or> c = TAB \<or> c = CR \<or> c = LF \<or> c = VTAB \<or> c = FF"

definition digit_char :: "nat \<Rightarrow> char" where
  [c_defs]: "digit_char d = char_of (48 + d)"

lemma u8_digit_char: "d < 10 \<Longrightarrow> u8 (digit_char d) = 48 + int d"
  by (simp add: u8_nat digit_char_def)

lemma is_digit_digit_char: "d < 10 \<Longrightarrow> is_digit (digit_char d)"
  by (simp add: is_digit_def u8_digit_char)

lemma digit_char_inj:
  assumes "d < 10" "e < 10" shows "digit_char d = digit_char e \<longleftrightarrow> d = e"
  using assms u8_digit_char [of d] u8_digit_char [of e] by (metis add_left_cancel of_nat_eq_iff)

lemma digit_not_ws: "is_digit c \<Longrightarrow> \<not> is_ws c"
  by (auto simp: is_digit_def is_ws_def u8_def)

subsection \<open>Decimal rendering: \<open>%lu\<close>, \<open>%d\<close>, \<open>%ld\<close>\<close>

fun nat_str :: "nat \<Rightarrow> string" where
  "nat_str n = (if n < 10 then [digit_char n]
                else nat_str (n div 10) @ [digit_char (n mod 10)])"

declare nat_str.simps [simp del]

definition int_str :: "int \<Rightarrow> string" where
  [c_defs]: "int_str i = (if i < 0 then CHR ''-'' # nat_str (nat (- i)) else nat_str (nat i))"

lemma nat_str_nonempty [simp]: "nat_str n \<noteq> []"
  by (subst nat_str.simps) simp

lemma nat_str_digits: "c \<in> set (nat_str n) \<Longrightarrow> is_digit c"
proof (induction n rule: nat_str.induct)
  case (1 n)
  show ?case
  proof (cases "n < 10")
    case True
    with "1.prems" show ?thesis by (simp add: nat_str.simps [of n] is_digit_digit_char)
  next
    case False
    with "1.prems" consider "c \<in> set (nat_str (n div 10))" | "c = digit_char (n mod 10)"
      by (auto simp: nat_str.simps [of n])
    then show ?thesis using False "1.IH" by cases (simp_all add: is_digit_digit_char)
  qed
qed

text \<open>Reading the digits back: the value a decimal digit string denotes.\<close>

definition dec_val :: "string \<Rightarrow> nat" where
  [c_defs]: "dec_val s = foldl (\<lambda>v c. v * 10 + nat (u8 c - 48)) 0 s"

lemma dec_val_snoc: "dec_val (s @ [c]) = dec_val s * 10 + nat (u8 c - 48)"
  by (simp add: dec_val_def)

lemma dec_val_nat_str [simp]: "dec_val (nat_str n) = n"
proof (induction n rule: nat_str.induct)
  case (1 n)
  show ?case
  proof (cases "n < 10")
    case True
    then show ?thesis by (simp add: nat_str.simps [of n] dec_val_def u8_digit_char)
  next
    case False
    with "1.IH" show ?thesis
      by (simp add: nat_str.simps [of n] dec_val_snoc u8_digit_char)
  qed
qed

lemma nat_str_inj [simp]: "nat_str m = nat_str n \<longleftrightarrow> m = n"
  using dec_val_nat_str by metis

lemma length_nat_str_le: "n < 10 ^ k \<Longrightarrow> 0 < k \<Longrightarrow> length (nat_str n) \<le> k"
proof (induction k arbitrary: n)
  case 0
  then show ?case by simp
next
  case (Suc k)
  show ?case
  proof (cases "n < 10")
    case True
    then show ?thesis by (simp add: nat_str.simps [of n])
  next
    case False
    then have "0 < k" using Suc.prems by (cases k) auto
    moreover have "n div 10 < 10 ^ k" using Suc.prems by (simp add: div_less_iff_less_mult)
    ultimately have "length (nat_str (n div 10)) \<le> k" by (rule Suc.IH [rotated])
    with False show ?thesis by (simp add: nat_str.simps [of n])
  qed
qed

lemma digits_before:
  assumes "rest = [] \<or> \<not> is_digit (hd rest)"
  shows "takeWhile is_digit (nat_str n @ rest) = nat_str n" "dropWhile is_digit (nat_str n @ rest) = rest"
  using assms nat_str_digits [of _ n] by (cases rest; simp add: takeWhile_append2 dropWhile_append2)+

subsection \<open>Fixed-width integers\<close>

text \<open>
  Signed results are integers reduced to their width in two's complement, as the target's
  registers hold them; unsigned ones are words.
\<close>

definition wrap32 :: "int \<Rightarrow> int" where
  [c_defs]: "wrap32 x = signed_take_bit 31 x"

definition wrap64 :: "int \<Rightarrow> int" where
  [c_defs]: "wrap64 x = signed_take_bit 63 x"

lemma wrap32_id: "- (2 ^ 31) \<le> x \<Longrightarrow> x < 2 ^ 31 \<Longrightarrow> wrap32 x = x"
  by (simp add: wrap32_def signed_take_bit_int_eq_self)

lemma wrap64_id: "- (2 ^ 63) \<le> x \<Longrightarrow> x < 2 ^ 63 \<Longrightarrow> wrap64 x = x"
  by (simp add: wrap64_def signed_take_bit_int_eq_self)

lemma wrap32_range [c_bounds]: "- (2 ^ 31) \<le> wrap32 x" "wrap32 x < 2 ^ 31"
  unfolding wrap32_def
  by (rule signed_take_bit_int_greater_eq_minus_exp, rule signed_take_bit_int_less_exp)

lemma wrap64_range [c_bounds]: "- (2 ^ 63) \<le> wrap64 x" "wrap64 x < 2 ^ 63"
  unfolding wrap64_def
  by (rule signed_take_bit_int_greater_eq_minus_exp, rule signed_take_bit_int_less_exp)

lemma wrap64_idem [simp]: "wrap64 (wrap64 x) = wrap64 x"
  by (rule wrap64_id) (rule wrap64_range)+

lemma wrap32_idem [simp]: "wrap32 (wrap32 x) = wrap32 x"
  by (rule wrap32_id) (rule wrap32_range)+

lemma wrap64_add_left [simp]: "wrap64 (wrap64 a + b) = wrap64 (a + b)"
  and wrap64_add_right [simp]: "wrap64 (a + wrap64 b) = wrap64 (a + b)"
  and wrap64_mult_left [simp]: "wrap64 (wrap64 a * b) = wrap64 (a * b)"
  and wrap64_minus [simp]: "wrap64 (- wrap64 a) = wrap64 (- a)"
  unfolding wrap64_def
  by (metis signed_take_bit_add signed_take_bit_signed_take_bit min.idem)
    (metis signed_take_bit_add signed_take_bit_signed_take_bit min.idem,
     metis signed_take_bit_mult signed_take_bit_signed_take_bit min.idem,
     metis signed_take_bit_minus)

text \<open>C's division truncates towards zero.\<close>

definition tdiv :: "int \<Rightarrow> int \<Rightarrow> int" where
  [c_defs]: "tdiv a b = sgn a * sgn b * (\<bar>a\<bar> div \<bar>b\<bar>)"

lemma tdiv_pos: "0 \<le> a \<Longrightarrow> 0 < b \<Longrightarrow> tdiv a b = a div b"
  by (cases "a = 0") (simp_all add: tdiv_def)

type_synonym u32 = "32 word"

text \<open>
  \<open>(long)(a - b)\<close> for two tick counts: the signed distance, which is right across one
  wrap of the 32-bit counter.
\<close>

definition tick_diff :: "u32 \<Rightarrow> u32 \<Rightarrow> int" where
  [c_defs]: "tick_diff a b = sint (a - b)"

lemma tick_diff_range [c_bounds]: "- (2 ^ 31) \<le> tick_diff a b" "tick_diff a b < 2 ^ 31"
  using sint_ge [of "a - b"] sint_lt [of "a - b"] by (simp_all add: tick_diff_def)

lemma sint_of_nat: "d < 2 ^ 31 \<Longrightarrow> sint (of_nat d :: u32) = int d"
  by (simp add: signed_of_nat signed_take_bit_int_eq_self)

lemma sint_small:
  assumes "unat (w :: u32) < 2 ^ 31" shows "sint w = int (unat w)"
  using sint_of_nat [OF assms] by simp

lemma tick_diff_later: "d < 2 ^ 31 \<Longrightarrow> tick_diff (t + of_nat d) t = int d"
  using sint_of_nat [of d] by (simp add: tick_diff_def)

lemma wrap32_add_left [simp]: "wrap32 (wrap32 a + b) = wrap32 (a + b)"
  and wrap32_add_right [simp]: "wrap32 (a + wrap32 b) = wrap32 (a + b)"
  unfolding wrap32_def
  by (metis signed_take_bit_add signed_take_bit_signed_take_bit min.idem)+

subsection \<open>Growth of a dynamic array\<close>

text \<open>
  The capacity after making room for one more element: eight at first, doubled after.
\<close>

definition grow :: "nat \<Rightarrow> nat \<Rightarrow> nat" where
  [c_defs]: "grow count cap =
     (if count = cap then (if cap \<noteq> 0 then cap * 2 else 8) else cap)"

lemma grow_room: "count \<le> cap \<Longrightarrow> count < grow count cap"
  by (auto simp: grow_def)

subsection \<open>Association lists of optional values\<close>

lemma map_of_functional:
  assumes "\<And>v'. (k, v') \<in> set xs \<longleftrightarrow> vo = Some v'"
  shows "map_of xs k = vo"
proof (cases vo)
  case None
  then have "k \<notin> fst ` set xs" using assms by force
  with None show ?thesis by (simp add: map_of_eq_None_iff)
next
  case (Some v)
  then have "(k, v) \<in> set xs" using assms by blast
  then obtain v' where "map_of xs k = Some v'" by (meson weak_map_of_SomeI)
  moreover from this have "vo = Some v'" using assms map_of_SomeD by metis
  ultimately show ?thesis by simp
qed

text \<open>The present values of a list of keys, in order.\<close>

definition present :: "('k \<times> 'v option) list \<Rightarrow> ('k \<times> 'v) list" where
  "present fs = List.map_filter (\<lambda>(k, vo). map_option (Pair k) vo) fs"

lemma present_mem: "(k, v) \<in> set (present fs) \<longleftrightarrow> (k, Some v) \<in> set fs"
  by (force simp: present_def List.map_filter_def)

lemma map_of_present:
  assumes "distinct (map fst fs)"
  shows "map_of (rev (present fs)) k = Option.bind (map_of fs k) id"
proof (rule map_of_functional)
  fix v
  show "(k, v) \<in> set (rev (present fs)) \<longleftrightarrow> Option.bind (map_of fs k) id = Some v"
    using assms by (simp add: present_mem bind_eq_Some_conv)
qed

end
