(* ===== verification/Codec.thy ===== *)
theory Codec
  imports Prelude
begin

text \<open>
  The Codec layer, \<open>src/cq_codec.c\<close>: raw response bytes to a field set of
  \<open>key<TAB>value\<close> lines, the JPEG sniff and the hand-rolled integer parser. The field
  array keeps the code's order, its in-place replacement and its capacity.
\<close>

subsection \<open>The field set\<close>

record cq_field =
  fkey :: cstr
  fvalue :: cstr

record cq_fields =
  items :: "cq_field list"
  fcap :: nat

definition cq_fields_init :: cq_fields where
  "cq_fields_init = \<lparr>items = [], fcap = 0\<rparr>"

text \<open>
  The first stored key of the length of the new one whose bytes agree gets its value
  replaced; \<open>None\<close> when no stored key does.
\<close>

fun put_hit :: "cq_field list \<Rightarrow> bytes \<Rightarrow> bytes \<Rightarrow> cq_field list option" where
  "put_hit [] k v = None"
| "put_hit (e # es) k v =
     (if length (fkey e) = length k \<and> take (length k) (fkey e) = k
      then Some (e\<lparr>fvalue := cview v\<rparr> # es)
      else map_option ((#) e) (put_hit es k v))"

definition fields_put :: "cq_fields \<Rightarrow> bytes \<Rightarrow> bytes \<Rightarrow> cq_fields" where
  "fields_put f k v =
     (case put_hit (items f) k v of
        Some es \<Rightarrow> f\<lparr>items := es\<rparr>
      | None \<Rightarrow> f\<lparr>fcap := grow (length (items f)) (fcap f),
                  items := items f @ [\<lparr>fkey = cview k, fvalue = cview v\<rparr>]\<rparr>)"

text \<open>One line: strip one trailing CR, split at the first TAB, drop an empty key.\<close>

definition strip_cr :: "bytes \<Rightarrow> bytes" where
  "strip_cr line = (if line \<noteq> [] \<and> last line = CR then butlast line else line)"

definition parse_line :: "cq_fields \<Rightarrow> bytes \<Rightarrow> cq_fields" where
  "parse_line f line =
     (let l = strip_cr line; k = takeWhile (\<lambda>c. c \<noteq> TAB) l
      in if TAB \<in> set l \<and> 0 < length k
         then fields_put f k (drop (length k + 1) l) else f)"

fun parse_lines :: "cq_fields \<Rightarrow> bytes \<Rightarrow> cq_fields" where
  "parse_lines f d =
     (let f' = parse_line f (takeWhile (\<lambda>c. c \<noteq> LF) d)
      in case dropWhile (\<lambda>c. c \<noteq> LF) d of
           [] \<Rightarrow> f'
         | _ # rest \<Rightarrow> parse_lines f' rest)"

declare parse_lines.simps [simp del]

definition cq_fields_parse :: "cq_fields \<Rightarrow> bytes \<Rightarrow> cq_fields" where
  "cq_fields_parse f d = (if d = [] then f else parse_lines f d)"

fun find_value :: "cq_field list \<Rightarrow> cstr \<Rightarrow> cstr option" where
  "find_value [] k = None"
| "find_value (e # es) k = (if fkey e = k then Some (fvalue e) else find_value es k)"

definition cq_fields_get :: "cq_fields \<Rightarrow> cstr \<Rightarrow> cstr option" where
  "cq_fields_get f k = find_value (items f) k"

definition cq_data_is_jpeg :: "bytes \<Rightarrow> bool" where
  "cq_data_is_jpeg d \<longleftrightarrow> 2 \<le> length d \<and> u8 (d ! 0) = 0xFF \<and> u8 (d ! 1) = 0xD8"

subsection \<open>The integer parser\<close>

text \<open>
  The accumulator is a 64-bit two's complement register: \<open>v * 10 + digit\<close> wraps. The
  argument is \<open>None\<close> for a NULL pointer.
\<close>

fun ll_digits :: "int \<Rightarrow> cstr \<Rightarrow> int" where
  "ll_digits v [] = v"
| "ll_digits v (c # cs) =
     (if is_digit c then ll_digits (wrap64 (wrap64 (v * 10) + (u8 c - 48))) cs else v)"

definition cq_parse_ll :: "cstr option \<Rightarrow> int" where
  "cq_parse_ll so =
     (case so of
        None \<Rightarrow> 0
      | Some s0 \<Rightarrow>
          (let s = dropWhile is_ws s0;
               neg = (s \<noteq> [] \<and> hd s = CHR ''-'');
               s' = (if s \<noteq> [] \<and> (hd s = CHR ''+'' \<or> hd s = CHR ''-'') then tl s else s);
               v = ll_digits 0 s'
           in if neg then wrap64 (- v) else v))"

subsection \<open>A store of fields: last value wins\<close>

locale field_store =
  fixes empty :: 's
    and put :: "'s \<Rightarrow> bytes \<Rightarrow> bytes \<Rightarrow> 's"
    and get :: "'s \<Rightarrow> cstr \<Rightarrow> cstr option"
  assumes get_empty: "get empty k = None"
    and get_put: "NUL \<notin> set k \<Longrightarrow> get (put s k v) k' = (if k' = k then Some (cview v) else get s k')"
begin

definition put_all :: "(bytes \<times> bytes) list \<Rightarrow> 's \<Rightarrow> 's" where
  "put_all kvs s = fold (\<lambda>(k, v) s. put s k v) kvs s"

lemma put_all_simps [simp]:
  "put_all [] s = s" "put_all ((k, v) # kvs) s = put_all kvs (put s k v)"
  by (simp_all add: put_all_def)

lemma get_put_all:
  assumes "\<forall>(k, v) \<in> set kvs. NUL \<notin> set k"
  shows "get (put_all kvs s) k =
    (case map_of (rev kvs) k of None \<Rightarrow> get s k | Some v \<Rightarrow> Some (cview v))"
  using assms
proof (induction kvs arbitrary: s)
  case Nil
  then show ?case by simp
next
  case (Cons kv kvs)
  obtain k0 v0 where kv: "kv = (k0, v0)" by (cases kv)
  with Cons show ?case by (auto simp: get_put map_add_def split: option.splits)
qed

lemma get_put_all_empty:
  assumes "\<forall>(k, v) \<in> set kvs. NUL \<notin> set k"
  shows "get (put_all kvs empty) k = map_option cview (map_of (rev kvs) k)"
  using get_put_all [OF assms] by (simp add: get_empty split: option.splits)

end

lemma put_hit_None: "put_hit es k v = None \<longleftrightarrow> k \<notin> fkey ` set es"
  by (induction es) auto

lemma put_hit_Some_find:
  "put_hit es k v = Some es' \<Longrightarrow>
   find_value es' k' = (if k' = k then Some (cview v) else find_value es k')"
  by (induction es arbitrary: es') (auto split: if_splits)

lemma put_hit_Some_length: "put_hit es k v = Some es' \<Longrightarrow> length es' = length es"
  by (induction es arbitrary: es') (auto split: if_splits)

lemma put_hit_Some_keys: "put_hit es k v = Some es' \<Longrightarrow> map fkey es' = map fkey es"
  by (induction es arbitrary: es') (auto split: if_splits)

lemma find_value_append:
  "find_value (es @ es') k = (case find_value es k of None \<Rightarrow> find_value es' k | Some v \<Rightarrow> Some v)"
  by (induction es) auto

lemma find_value_None: "find_value es k = None \<longleftrightarrow> k \<notin> fkey ` set es"
  by (induction es) auto

lemma get_fields_put:
  assumes "NUL \<notin> set k"
  shows "cq_fields_get (fields_put f k v) k' =
    (if k' = k then Some (cview v) else cq_fields_get f k')"
proof (cases "put_hit (items f) k v")
  case None
  then have "find_value (items f) k = None" by (simp add: put_hit_None find_value_None)
  with None show ?thesis
    by (auto simp: cq_fields_get_def fields_put_def find_value_append cview_id [OF assms]
        split: option.splits)
next
  case (Some es)
  then show ?thesis by (simp add: cq_fields_get_def fields_put_def put_hit_Some_find)
qed

interpretation fs: field_store cq_fields_init fields_put cq_fields_get
  by unfold_locales (simp_all add: get_fields_put, simp add: cq_fields_get_def cq_fields_init_def)

subsection \<open>The document as a list of key-value lines\<close>

definition line_kv :: "bytes \<Rightarrow> (bytes \<times> bytes) option" where
  "line_kv line =
     (let l = strip_cr line; k = takeWhile (\<lambda>c. c \<noteq> TAB) l
      in if TAB \<in> set l \<and> k \<noteq> [] then Some (k, drop (length k + 1) l) else None)"

fun split_lines :: "bytes \<Rightarrow> bytes list" where
  "split_lines [] = [[]]"
| "split_lines (c # d) =
     (case split_lines d of
        [] \<Rightarrow> [[c]]
      | l # ls \<Rightarrow> if c = LF then [] # l # ls else (c # l) # ls)"

definition doc_kvs :: "bytes \<Rightarrow> (bytes \<times> bytes) list" where
  "doc_kvs d = List.map_filter line_kv (split_lines d)"

lemma split_lines_nonempty [simp]: "split_lines d \<noteq> []"
  by (induction d) (auto split: list.splits)

lemma split_lines_unfold:
  "split_lines d = takeWhile (\<lambda>c. c \<noteq> LF) d #
     (case dropWhile (\<lambda>c. c \<noteq> LF) d of [] \<Rightarrow> [] | _ # rest \<Rightarrow> split_lines rest)"
  by (induction d) (auto split: list.splits)

lemma parse_line_kv:
  "parse_line f line = (case line_kv line of None \<Rightarrow> f | Some (k, v) \<Rightarrow> fields_put f k v)"
  by (simp add: parse_line_def line_kv_def Let_def)

lemma parse_lines_fold: "parse_lines f d = fold (\<lambda>l f. parse_line f l) (split_lines d) f"
proof (induction f d rule: parse_lines.induct)
  case (1 f d)
  show ?case
  proof (cases "dropWhile (\<lambda>c. c \<noteq> LF) d")
    case Nil
    then show ?thesis
      by (simp add: parse_lines.simps [of f d] split_lines_unfold [of d] Let_def
          del: dropWhile_eq_Nil_conv)
  next
    case (Cons c rest)
    with 1 show ?thesis
      by (simp add: parse_lines.simps [of f d] split_lines_unfold [of d] Let_def)
  qed
qed

lemma fold_parse_line: "fold (\<lambda>l f. parse_line f l) ls f = fs.put_all (List.map_filter line_kv ls) f"
  by (induction ls arbitrary: f)
    (auto simp: parse_line_kv List.map_filter_simps split: option.splits)

lemma cq_fields_parse_kvs: "cq_fields_parse f d = fs.put_all (doc_kvs d) f"
proof (cases "d = []")
  case True
  then show ?thesis
    by (simp add: cq_fields_parse_def doc_kvs_def List.map_filter_simps line_kv_def strip_cr_def)
next
  case False
  then show ?thesis
    by (simp add: cq_fields_parse_def parse_lines_fold fold_parse_line doc_kvs_def)
qed

lemma set_strip_cr: "set (strip_cr l) \<subseteq> set l"
  by (auto simp: strip_cr_def dest: in_set_butlastD)

lemma set_split_lines: "l \<in> set (split_lines d) \<Longrightarrow> set l \<subseteq> set d"
proof (induction d arbitrary: l)
  case Nil
  then show ?case by simp
next
  case (Cons c d)
  obtain l0 ls where ls: "split_lines d = l0 # ls" by (cases "split_lines d") auto
  with Cons.IH have "set l0 \<subseteq> set d" "\<And>l. l \<in> set ls \<Longrightarrow> set l \<subseteq> set d" by simp_all
  with Cons.prems ls show ?case by (auto split: if_splits)
qed

lemma line_kv_set: "line_kv l = Some (k, v) \<Longrightarrow> set k \<subseteq> set l \<and> set v \<subseteq> set l"
  using set_strip_cr [of l]
  by (auto simp: line_kv_def Let_def split: if_splits dest: set_takeWhileD in_set_dropD)

lemma doc_kvs_set: "(k, v) \<in> set (doc_kvs d) \<Longrightarrow> set k \<subseteq> set d \<and> set v \<subseteq> set d"
proof -
  assume "(k, v) \<in> set (doc_kvs d)"
  then obtain l where l: "l \<in> set (split_lines d)" "line_kv l = Some (k, v)"
    by (force simp: doc_kvs_def List.map_filter_def)
  with set_split_lines [OF l(1)] line_kv_set [OF l(2)] show ?thesis by blast
qed

subsection \<open>Rendering a document\<close>

text \<open>The line \<open>key<TAB>value\<close> as the server writes it, with the line ending given.\<close>

definition render_line :: "bytes \<Rightarrow> bytes \<times> bytes \<Rightarrow> bytes" where
  "render_line eol kv = fst kv @ TAB # snd kv @ eol"

definition render_doc :: "bytes \<Rightarrow> (bytes \<times> bytes) list \<Rightarrow> bytes" where
  "render_doc eol kvs = concat (map (render_line eol) kvs)"

definition wire_kv :: "bytes \<times> bytes \<Rightarrow> bool" where
  "wire_kv kv \<longleftrightarrow> fst kv \<noteq> [] \<and> TAB \<notin> set (fst kv) \<and> LF \<notin> set (fst kv) \<and> LF \<notin> set (snd kv) \<and>
     NUL \<notin> set (fst kv) \<and> NUL \<notin> set (snd kv)"

lemma split_lines_line: "LF \<notin> set l \<Longrightarrow> split_lines (l @ LF # d) = l # split_lines d"
  by (induction l) (auto split: list.splits)

lemma split_lines_concat:
  "\<forall>l \<in> set ls. LF \<notin> set l \<Longrightarrow> split_lines (concat (map (\<lambda>l. l @ [LF]) ls)) = ls @ [[]]"
  by (induction ls) (auto simp: split_lines_line)

lemma line_kv_Nil [simp]: "line_kv [] = None"
  by (simp add: line_kv_def strip_cr_def)

lemma takeWhile_until: "x \<notin> set k \<Longrightarrow> takeWhile (\<lambda>c. c \<noteq> x) (k @ x # v) = k"
  by (induction k) auto

lemma line_kv_crlf:
  assumes "wire_kv kv" shows "line_kv (fst kv @ TAB # snd kv @ [CR]) = Some kv"
  using assms by (cases kv)
    (auto simp: line_kv_def strip_cr_def wire_kv_def Let_def takeWhile_until butlast_append)

lemma line_kv_lf:
  assumes "wire_kv kv" "snd kv = [] \<or> last (snd kv) \<noteq> CR"
  shows "line_kv (fst kv @ TAB # snd kv) = Some kv"
  using assms by (cases kv)
    (auto simp: line_kv_def strip_cr_def wire_kv_def Let_def takeWhile_until)

lemma map_filter_all: "\<forall>x \<in> set xs. g (f x) = Some x \<Longrightarrow> List.map_filter g (map f xs) = xs"
  by (induction xs) (auto simp: List.map_filter_simps)

lemma map_filter_append_Nil: "List.map_filter line_kv (ls @ [[]]) = List.map_filter line_kv ls"
  by (simp add: List.map_filter_def)

lemma render_doc_lines:
  "render_doc (e @ [LF]) kvs = concat (map (\<lambda>l. l @ [LF]) (map (\<lambda>kv. fst kv @ TAB # snd kv @ e) kvs))"
  by (induction kvs) (auto simp: render_doc_def render_line_def)

lemma doc_kvs_render:
  assumes "\<forall>kv \<in> set kvs. wire_kv kv"
  shows "doc_kvs (render_doc [CR, LF] kvs) = kvs"
proof -
  let ?ls = "map (\<lambda>kv. fst kv @ TAB # snd kv @ [CR]) kvs"
  have "\<forall>l \<in> set ?ls. LF \<notin> set l" using assms by (auto simp: wire_kv_def)
  then have "split_lines (render_doc ([CR] @ [LF]) kvs) = ?ls @ [[]]"
    unfolding render_doc_lines by (rule split_lines_concat)
  moreover have "List.map_filter line_kv ?ls = kvs"
    using assms by (intro map_filter_all) (simp add: line_kv_crlf)
  ultimately show ?thesis by (simp add: doc_kvs_def map_filter_append_Nil)
qed

lemma doc_kvs_render_lf:
  assumes "\<forall>kv \<in> set kvs. wire_kv kv \<and> (snd kv = [] \<or> last (snd kv) \<noteq> CR)"
  shows "doc_kvs (render_doc [LF] kvs) = kvs"
proof -
  let ?ls = "map (\<lambda>kv. fst kv @ TAB # snd kv @ []) kvs"
  have "\<forall>l \<in> set ?ls. LF \<notin> set l" using assms by (auto simp: wire_kv_def)
  then have "split_lines (render_doc ([] @ [LF]) kvs) = ?ls @ [[]]"
    unfolding render_doc_lines by (rule split_lines_concat)
  moreover have "List.map_filter line_kv ?ls = kvs"
    using assms by (intro map_filter_all) (auto simp: line_kv_lf)
  ultimately show ?thesis by (simp add: doc_kvs_def map_filter_append_Nil)
qed

lemma get_parse_last_wins:
  assumes "NUL \<notin> set d"
  shows "cq_fields_get (cq_fields_parse cq_fields_init d) k = map_of (rev (doc_kvs d)) k"
proof -
  have keys: "\<forall>(k, v) \<in> set (doc_kvs d). NUL \<notin> set k"
    using assms doc_kvs_set by (fastforce dest: subsetD)
  have "map_option cview (map_of (rev (doc_kvs d)) k) = map_of (rev (doc_kvs d)) k"
  proof (cases "map_of (rev (doc_kvs d)) k")
    case (Some v)
    then have "(k, v) \<in> set (doc_kvs d)" by (auto dest: map_of_SomeD)
    with assms doc_kvs_set have "NUL \<notin> set v" by (fastforce dest: subsetD)
    with Some show ?thesis by (simp add: cview_id)
  qed simp
  with fs.get_put_all_empty [OF keys] show ?thesis by (simp add: cq_fields_parse_kvs)
qed

subsection \<open>Well-formedness of the field array\<close>

definition fields_ok :: "cq_fields \<Rightarrow> bool" where
  "fields_ok f \<longleftrightarrow> length (items f) \<le> fcap f \<and>
     (\<forall>e \<in> set (items f). NUL \<notin> set (fkey e) \<and> NUL \<notin> set (fvalue e))"

lemma put_hit_Some_nul:
  "put_hit es k v = Some es' \<Longrightarrow> \<forall>e \<in> set es. NUL \<notin> set (fkey e) \<and> NUL \<notin> set (fvalue e) \<Longrightarrow>
   \<forall>e \<in> set es'. NUL \<notin> set (fkey e) \<and> NUL \<notin> set (fvalue e)"
  by (induction es arbitrary: es') (auto split: if_splits)

lemma fields_ok_init: "fields_ok cq_fields_init"
  by (simp add: fields_ok_def cq_fields_init_def)

lemma fields_ok_put: "fields_ok f \<Longrightarrow> fields_ok (fields_put f k v)"
  using grow_room [of "length (items f)" "fcap f"]
  by (auto simp: fields_ok_def fields_put_def put_hit_Some_length split: option.splits
      dest: put_hit_Some_nul)

lemma fields_ok_put_all: "fields_ok f \<Longrightarrow> fields_ok (fs.put_all kvs f)"
  by (induction kvs arbitrary: f) (auto simp: fields_ok_put)

lemma fields_ok_parse: "fields_ok f \<Longrightarrow> fields_ok (cq_fields_parse f d)"
  by (simp add: cq_fields_parse_kvs fields_ok_put_all)

lemma distinct_keys_put:
  assumes "NUL \<notin> set k" "distinct (map fkey (items f))"
  shows "distinct (map fkey (items (fields_put f k v)))"
  using assms
  by (auto simp: fields_put_def put_hit_Some_keys cview_id put_hit_None split: option.splits)

lemma distinct_keys_put_all:
  "\<forall>(k, v) \<in> set kvs. NUL \<notin> set k \<Longrightarrow> distinct (map fkey (items f)) \<Longrightarrow>
   distinct (map fkey (items (fs.put_all kvs f)))"
  by (induction kvs arbitrary: f) (auto simp: distinct_keys_put)

lemma length_items_put: "length (items (fields_put f k v)) \<le> Suc (length (items f))"
  by (auto simp: fields_put_def put_hit_Some_length split: option.splits)

subsection \<open>The integer parser computes modulo \<open>2 ^ 64\<close>\<close>

lemma ll_digits_wrap:
  "\<forall>c \<in> set s. is_digit c \<Longrightarrow> rest = [] \<or> \<not> is_digit (hd rest) \<Longrightarrow>
   ll_digits (wrap64 v) (s @ rest) =
     wrap64 (foldl (\<lambda>v c. v * 10 + (u8 c - 48)) v s)"
proof (induction s arbitrary: v)
  case Nil
  then show ?case by (cases rest) auto
next
  case (Cons c s)
  have "ll_digits (wrap64 v) ((c # s) @ rest) = ll_digits (wrap64 (v * 10 + (u8 c - 48))) (s @ rest)"
    using Cons.prems by simp
  also have "\<dots> = wrap64 (foldl (\<lambda>v c. v * 10 + (u8 c - 48)) v (c # s))"
    using Cons by simp
  finally show ?case .
qed

lemma foldl_dec_int:
  "\<forall>c \<in> set s. is_digit c \<Longrightarrow>
   foldl (\<lambda>v c. v * 10 + (u8 c - 48)) (int a) s = int (foldl (\<lambda>v c. v * 10 + nat (u8 c - 48)) a s)"
proof (induction s arbitrary: a)
  case Nil
  then show ?case by simp
next
  case (Cons c s)
  then have eq: "int a * 10 + (u8 c - 48) = int (a * 10 + nat (u8 c - 48))"
    by (simp add: is_digit_def)
  have "\<forall>c \<in> set s. is_digit c" using Cons.prems by simp
  then show ?case using Cons.IH by (simp only: foldl_Cons eq)
qed

lemma ll_digits_dec:
  assumes "\<forall>c \<in> set s. is_digit c" "rest = [] \<or> \<not> is_digit (hd rest)"
  shows "ll_digits 0 (s @ rest) = wrap64 (int (dec_val s))"
  using ll_digits_wrap [OF assms, of 0] foldl_dec_int [OF assms(1), of 0]
  by (simp add: dec_val_def wrap64_def)

lemma digit_not_sign: "is_digit c \<Longrightarrow> c \<noteq> CHR ''+'' \<and> c \<noteq> CHR ''-''"
  by (auto simp: is_digit_def u8_def)

lemma parse_ll_digits:
  assumes ws: "\<forall>c \<in> set ws. is_ws c" and ds: "\<forall>c \<in> set s. is_digit c" and "s \<noteq> []"
    and rest: "rest = [] \<or> \<not> is_digit (hd rest)"
  shows "cq_parse_ll (Some (ws @ s @ rest)) = wrap64 (int (dec_val s))"
    and "cq_parse_ll (Some (ws @ CHR ''+'' # s @ rest)) = wrap64 (int (dec_val s))"
    and "cq_parse_ll (Some (ws @ CHR ''-'' # s @ rest)) = wrap64 (- int (dec_val s))"
proof -
  have skip: "dropWhile is_ws (ws @ xs) = dropWhile is_ws xs" for xs
    using ws by (induction ws) auto
  obtain c s' where s: "s = c # s'" and c: "is_digit c" using assms by (cases s) auto
  have "dropWhile is_ws (s @ rest) = s @ rest" using s c by (simp add: digit_not_ws)
  then show "cq_parse_ll (Some (ws @ s @ rest)) = wrap64 (int (dec_val s))"
    using s digit_not_sign [OF c] ll_digits_dec [OF ds rest]
    by (simp add: cq_parse_ll_def skip Let_def)
  show "cq_parse_ll (Some (ws @ CHR ''+'' # s @ rest)) = wrap64 (int (dec_val s))"
    "cq_parse_ll (Some (ws @ CHR ''-'' # s @ rest)) = wrap64 (- int (dec_val s))"
    using ll_digits_dec [OF ds rest] by (simp_all add: cq_parse_ll_def skip Let_def is_ws_def)
qed

lemma parse_ll_int_str:
  assumes "\<forall>c \<in> set ws. is_ws c" "rest = [] \<or> \<not> is_digit (hd rest)"
  shows "cq_parse_ll (Some (ws @ int_str n @ rest)) = wrap64 n"
  using parse_ll_digits [OF assms(1) _ _ assms(2), of "nat_str (nat \<bar>n\<bar>)"] nat_str_digits
  by (cases "n < 0") (simp_all add: int_str_def)

lemma parse_ll_range: "- (2 ^ 63) \<le> cq_parse_ll s \<and> cq_parse_ll s < 2 ^ 63"
proof -
  have "\<exists>y. ll_digits (wrap64 x) s = wrap64 y" for x s
  proof (induction s arbitrary: x)
    case (Cons c s)
    then show ?case by (cases "is_digit c") auto
  qed auto
  then have "\<exists>y. ll_digits 0 s = wrap64 y" for s
    using wrap64_id [of 0] by (metis less_eq_neg_nonpos neg_le_0_iff_le zero_le_numeral zero_le_power zero_less_numeral zero_less_power)
  then have "\<exists>y. cq_parse_ll s = wrap64 y"
    using wrap64_id [of 0] by (cases s) (auto simp: cq_parse_ll_def Let_def)
  then show ?thesis using wrap64_range by metis
qed

subsection \<open>Properties of the codec\<close>

text \<open>On a NUL-free response the parsed field set is the document's key-value lines with
  the last value winning: looking a key up gives the value of its last line, and no key is
  stored twice.\<close>

lemma codec_last_value_wins:
  assumes "NUL \<notin> set d"
  shows "cq_fields_get (cq_fields_parse cq_fields_init d) k = map_of (rev (doc_kvs d)) k \<and>
    distinct (map fkey (items (cq_fields_parse cq_fields_init d)))"
proof -
  have keys: "\<forall>(k, v) \<in> set (doc_kvs d). NUL \<notin> set k"
    using assms doc_kvs_set by (fastforce dest: subsetD)
  have "distinct (map fkey (items (cq_fields_parse cq_fields_init d)))"
    unfolding cq_fields_parse_kvs
    by (rule distinct_keys_put_all [OF keys]) (simp add: cq_fields_init_def)
  then show ?thesis using get_parse_last_wins [OF assms] by blast
qed

text \<open>C38. A document rendered from key-value pairs parses back to them, with CRLF line
  endings (whatever the values end in) and with bare LF ones (when no value ends in CR).\<close>

theorem codec_render_parse:
  assumes "\<forall>kv \<in> set kvs. wire_kv kv"
  shows "cq_fields_get (cq_fields_parse cq_fields_init (render_doc [CR, LF] kvs)) k =
      map_of (rev kvs) k \<and>
    ((\<forall>kv \<in> set kvs. snd kv = [] \<or> last (snd kv) \<noteq> CR) \<longrightarrow>
      cq_fields_parse f (render_doc [LF] kvs) = cq_fields_parse f (render_doc [CR, LF] kvs))"
proof
  have "NUL \<notin> set (render_doc [CR, LF] kvs)"
    using assms by (auto simp: render_doc_def render_line_def wire_kv_def)
  from get_parse_last_wins [OF this] doc_kvs_render [OF assms]
  show "cq_fields_get (cq_fields_parse cq_fields_init (render_doc [CR, LF] kvs)) k =
      map_of (rev kvs) k" by simp
next
  show "(\<forall>kv \<in> set kvs. snd kv = [] \<or> last (snd kv) \<noteq> CR) \<longrightarrow>
      cq_fields_parse f (render_doc [LF] kvs) = cq_fields_parse f (render_doc [CR, LF] kvs)"
    using assms by (simp add: cq_fields_parse_kvs doc_kvs_render doc_kvs_render_lf)
qed

theorem codec_render_parse_witness:
  "cq_fields_get (cq_fields_parse cq_fields_init
     (render_doc [CR, LF] [(''state'', ''playing''), (''ts'', ''7'')])) ''ts'' = Some ''7'' \<and>
   cq_fields_parse cq_fields_init (render_doc [LF] [(''state'', ''playing''), (''ts'', ''7'')]) =
     cq_fields_parse cq_fields_init (render_doc [CR, LF] [(''state'', ''playing''), (''ts'', ''7'')])"
proof -
  have "\<forall>kv \<in> set [(''state'', ''playing''), (''ts'', ''7'')]. wire_kv kv"
    by (simp add: wire_kv_def)
  from codec_render_parse [OF this, of "''ts''" cq_fields_init] show ?thesis by simp
qed

text \<open>The integer parser skips leading white space, takes an optional sign and reads the
  decimal digits up to the first other character, computing modulo \<open>2 ^ 64\<close>: a number
  rendered in decimal is read back exactly when it fits in 64 bits.\<close>

lemma parse_ll_roundtrip:
  assumes "\<forall>c \<in> set ws. is_ws c" "rest = [] \<or> \<not> is_digit (hd rest)"
  shows "cq_parse_ll (Some (ws @ int_str n @ rest)) = wrap64 n \<and>
    (- (2 ^ 63) \<le> n \<and> n < 2 ^ 63 \<longrightarrow> cq_parse_ll (Some (ws @ int_str n @ rest)) = n) \<and>
    (0 \<le> n \<longrightarrow> cq_parse_ll (Some (ws @ CHR ''+'' # int_str n @ rest)) = wrap64 n)"
  using parse_ll_int_str [OF assms, of n] wrap64_id [of n] nat_str_digits
    parse_ll_digits(2) [OF assms(1) _ _ assms(2), of "nat_str (nat n)"]
  by (auto simp: int_str_def)

text \<open>
  An embedded NUL truncates a stored key, and the truncated key is looked up like any
  other: the comment at \<open>dup_range\<close> says such a line becomes an unread junk key.
\<close>

lemma nul_key_is_read:
  "cq_fields_get (cq_fields_parse cq_fields_init (''state'' @ NUL # ''x'' @ TAB # ''playing'')) ''state''
     = Some ''playing''"
  by code_simp

end
