(* ===== verification/Scan.thy ===== *)
theory Scan
  imports Codec
begin

text \<open>
  What the two list scanners of the Model layer (\<open>cq_track.c\<close>, \<open>cq_reflist.c\<close>) share:
  rows are probed at index 0, 1, 2, \<open>\<dots>\<close> and appended until the first index that is absent.
  The loops carry fuel; the contract says that they always have enough of it and what they
  return, given only the equations of the loop and that a gap exists.
\<close>

locale gap_scan =
  fixes probe :: "nat \<Rightarrow> 'r option"
    and loop :: "nat \<Rightarrow> nat \<Rightarrow> 'l \<Rightarrow> 'l option"
    and push :: "'l \<Rightarrow> 'r \<Rightarrow> 'l"
    and rows :: "'l \<Rightarrow> 'r list"
    and bound :: nat
    and small :: bool
  assumes loop_stop: "probe i = None \<Longrightarrow> loop (Suc fuel) i l = Some l"
    and loop_row: "probe i = Some r \<Longrightarrow> loop (Suc fuel) i l = loop fuel (Suc i) (push l r)"
    and rows_push: "rows (push l r) = rows l @ [r]"
    and gap: "small \<Longrightarrow> \<exists>j \<le> bound. probe j = None"
begin

definition first_gap :: nat where
  "first_gap = (LEAST j. probe j = None)"

lemma first_gap_None:
  assumes "small" shows "probe first_gap = None"
proof -
  from gap [OF assms] obtain j where "probe j = None" by blast
  then show ?thesis unfolding first_gap_def by (rule LeastI)
qed

lemma first_gap_le:
  assumes "small" shows "first_gap \<le> bound"
proof -
  from gap [OF assms] obtain j where "j \<le> bound" "probe j = None" by blast
  then show ?thesis unfolding first_gap_def by (meson Least_le order_trans)
qed

lemma before_gap: "j < first_gap \<Longrightarrow> probe j \<noteq> None"
  unfolding first_gap_def by (rule not_less_Least)

lemma first_gap_eqI:
  assumes "\<And>j. j < n \<Longrightarrow> probe j \<noteq> None" "probe n = None"
  shows "first_gap = n"
  unfolding first_gap_def
proof (rule Least_equality)
  show "n \<le> j" if "probe j = None" for j using assms(1) [of j] that by (cases "j < n") auto
qed (rule assms(2))

lemma loop_from:
  assumes "small" "i \<le> first_gap" "first_gap - i < fuel"
  shows "\<exists>l'. loop fuel i l = Some l' \<and> rows l' = rows l @ map (the \<circ> probe) [i..<first_gap]"
  using assms(2,3)
proof (induction fuel arbitrary: i l)
  case 0
  then show ?case by simp
next
  case (Suc fuel)
  show ?case
  proof (cases "i = first_gap")
    case True
    with first_gap_None [OF assms(1)] show ?thesis by (simp add: loop_stop)
  next
    case False
    with Suc.prems have less: "i < first_gap" by simp
    then obtain r where r: "probe i = Some r" using before_gap by blast
    have "Suc i \<le> first_gap" "first_gap - Suc i < fuel" using Suc.prems less by simp_all
    from Suc.IH [OF this, of "push l r"] obtain l' where
      "loop fuel (Suc i) (push l r) = Some l'"
      "rows l' = rows (push l r) @ map (the \<circ> probe) [Suc i..<first_gap]" by blast
    with r less show ?thesis by (auto simp: loop_row rows_push upt_rec [of i])
  qed
qed

lemma loop_all:
  assumes "small" "bound < fuel"
  shows "\<exists>l'. loop fuel 0 l = Some l' \<and> rows l' = rows l @ map (the \<circ> probe) [0..<first_gap]"
  using loop_from [of 0 fuel l] first_gap_le assms by simp

end

text \<open>
  The gap itself is a pigeonhole: a field set of \<open>n\<close> entries cannot hold \<open>n + 1\<close> different
  keys.
\<close>

lemma keys_have_gap:
  assumes inj: "inj_on key {..length (items f)}"
  shows "\<exists>j \<le> length (items f). cq_fields_get f (key j) = None"
proof (rule ccontr)
  assume "\<not> ?thesis"
  then have "key ` {..length (items f)} \<subseteq> fkey ` set (items f)"
    by (auto simp: cq_fields_get_def find_value_None)
  then have "card (key ` {..length (items f)}) \<le> card (fkey ` set (items f))"
    by (rule card_mono [rotated]) simp
  also have "\<dots> \<le> length (items f)"
    by (meson card_image_le card_length finite_set order_trans)
  finally show False using card_image [OF inj] by simp
qed

text \<open>Row keys \<open>prefix.i.suffix\<close> determine the index and the suffix.\<close>

definition row_key :: "nat \<Rightarrow> cstr \<Rightarrow> nat \<Rightarrow> cstr \<Rightarrow> cstr" where
  "row_key cap prefix i suffix = fits cap (prefix @ ''.'' @ nat_str i @ ''.'' @ suffix)"

lemma dot_notin_nat_str: "CHR ''.'' \<notin> set (nat_str n)"
  using nat_str_digits [of "CHR ''.''" n] by (auto simp: is_digit_def u8_def)

lemma until_dot: "takeWhile (\<lambda>c. c \<noteq> CHR ''.'') (nat_str i @ CHR ''.'' # s) = nat_str i"
  using dot_notin_nat_str by (rule takeWhile_until)

lemma row_body_inj: "nat_str i @ CHR ''.'' # s = nat_str j @ CHR ''.'' # t \<longleftrightarrow> i = j \<and> s = t"
proof
  assume eq: "nat_str i @ CHR ''.'' # s = nat_str j @ CHR ''.'' # t"
  then have "takeWhile (\<lambda>c. c \<noteq> CHR ''.'') (nat_str i @ CHR ''.'' # s) =
    takeWhile (\<lambda>c. c \<noteq> CHR ''.'') (nat_str j @ CHR ''.'' # t)" by (rule arg_cong)
  then have "i = j" by (simp only: until_dot nat_str_inj)
  with eq show "i = j \<and> s = t" by simp
qed simp

lemma length_nat_str_u32: "i \<le> 2 ^ 32 \<Longrightarrow> length (nat_str i) \<le> 10"
  by (rule length_nat_str_le) simp_all

lemma row_key_full:
  assumes "i \<le> 2 ^ 32" "length prefix + length suffix + 12 < cap"
  shows "row_key cap prefix i suffix = prefix @ ''.'' @ nat_str i @ ''.'' @ suffix"
  unfolding row_key_def using assms length_nat_str_u32 [OF assms(1)] by (intro fits_id) simp

lemma row_key_inj:
  assumes "i \<le> 2 ^ 32" "j \<le> 2 ^ 32"
    and "length prefix + length s + 12 < cap" "length prefix + length t + 12 < cap"
  shows "row_key cap prefix i s = row_key cap prefix j t \<longleftrightarrow> i = j \<and> s = t"
  using assms by (simp add: row_key_full row_body_inj)

lemma row_keys_have_gap:
  assumes "length (items f) < 2 ^ 32" "length prefix + length suffix + 12 < cap"
  shows "\<exists>j \<le> length (items f). cq_fields_get f (row_key cap prefix j suffix) = None"
  using assms by (intro keys_have_gap inj_onI) (simp add: row_key_inj)

subsection \<open>Rendering rows\<close>

text \<open>
  The lines \<open>prefix.i.suffix<TAB>value\<close> of a list of rows, each row given as the values of its
  suffixes (\<open>None\<close>: the line is absent).
\<close>

definition row_kvs :: "nat \<Rightarrow> cstr \<Rightarrow> nat \<Rightarrow> (cstr \<times> cstr option) list \<Rightarrow> (cstr \<times> cstr) list" where
  "row_kvs cap prefix i fs =
     List.map_filter (\<lambda>(s, vo). map_option (\<lambda>v. (row_key cap prefix i s, v)) vo) fs"

definition rows_kvs :: "nat \<Rightarrow> cstr \<Rightarrow> (cstr \<times> cstr option) list list \<Rightarrow> (cstr \<times> cstr) list" where
  "rows_kvs cap prefix fss = concat (map (\<lambda>(i, fs). row_kvs cap prefix i fs) (enumerate 0 fss))"

definition suffixes_ok :: "nat \<Rightarrow> cstr \<Rightarrow> (cstr \<times> cstr option) list \<Rightarrow> bool" where
  "suffixes_ok cap prefix fs \<longleftrightarrow> distinct (map fst fs) \<and>
     (\<forall>s \<in> fst ` set fs. length prefix + length s + 12 < cap)"

lemma row_kvs_mem:
  "(k, v) \<in> set (row_kvs cap prefix i fs) \<longleftrightarrow> (\<exists>s. (s, Some v) \<in> set fs \<and> k = row_key cap prefix i s)"
  by (force simp: row_kvs_def List.map_filter_def)

lemma rows_kvs_mem:
  "(k, v) \<in> set (rows_kvs cap prefix fss) \<longleftrightarrow>
   (\<exists>i s. i < length fss \<and> (s, Some v) \<in> set (fss ! i) \<and> k = row_key cap prefix i s)"
  by (fastforce simp: rows_kvs_def row_kvs_mem in_set_enumerate_eq)

lemma rows_kvs_lookup:
  assumes ok: "\<forall>fs \<in> set fss. suffixes_ok cap prefix fs" and len: "length fss \<le> 2 ^ 32"
    and i: "i \<le> length fss" and s: "length prefix + length s + 12 < cap"
  shows "map_of (rev (rows_kvs cap prefix fss)) (row_key cap prefix i s) =
    (if i < length fss then Option.bind (map_of (fss ! i) s) id else None)"
proof (rule map_of_functional)
  fix v
  have "(row_key cap prefix i s, v) \<in> set (rev (rows_kvs cap prefix fss)) \<longleftrightarrow>
    (\<exists>j t. j < length fss \<and> (t, Some v) \<in> set (fss ! j) \<and> row_key cap prefix i s = row_key cap prefix j t)"
    by (simp add: rows_kvs_mem)
  also have "\<dots> \<longleftrightarrow> i < length fss \<and> (s, Some v) \<in> set (fss ! i)"
  proof -
    have "row_key cap prefix i s = row_key cap prefix j t \<longleftrightarrow> i = j \<and> s = t"
      if "j < length fss" "(t, Some v) \<in> set (fss ! j)" for j t
    proof (rule row_key_inj)
      have "suffixes_ok cap prefix (fss ! j)" using ok that(1) by simp
      then show "length prefix + length t + 12 < cap"
        using that(2) by (force simp: suffixes_ok_def)
    qed (use that i len s in simp_all)
    then show ?thesis by blast
  qed
  also have "\<dots> \<longleftrightarrow> (if i < length fss then Option.bind (map_of (fss ! i) s) id else None) = Some v"
  proof (cases "i < length fss")
    case True
    then have "distinct (map fst (fss ! i))" using ok by (simp add: suffixes_ok_def)
    then have "map_of (fss ! i) s = Some (Some v) \<longleftrightarrow> (s, Some v) \<in> set (fss ! i)" by simp
    with True show ?thesis by (auto simp: bind_eq_Some_conv)
  qed simp
  finally show "(row_key cap prefix i s, v) \<in> set (rev (rows_kvs cap prefix fss)) \<longleftrightarrow>
    (if i < length fss then Option.bind (map_of (fss ! i) s) id else None) = Some v" .
qed

text \<open>Bytes that cannot end a key, a value or a line.\<close>

definition plain :: "bytes \<Rightarrow> bool" where
  "plain s \<longleftrightarrow> TAB \<notin> set s \<and> LF \<notin> set s \<and> NUL \<notin> set s"

lemma plain_digits: "\<forall>c \<in> set s. is_digit c \<Longrightarrow> plain s"
proof -
  have "\<not> is_digit TAB" "\<not> is_digit LF" "\<not> is_digit NUL" by (simp_all add: is_digit_def u8_def)
  then show "\<forall>c \<in> set s. is_digit c \<Longrightarrow> plain s" unfolding plain_def by blast
qed

lemma plain_nat_str: "plain (nat_str n)"
  using nat_str_digits by (intro plain_digits) blast

lemma int_str_plain: "plain (int_str n)"
  using plain_nat_str [of "nat n"] plain_nat_str [of "nat (- n)"]
  by (auto simp: int_str_def plain_def)

lemma row_key_plain: "plain prefix \<Longrightarrow> plain s \<Longrightarrow> plain (row_key cap prefix i s)"
  using set_fits_subset [of cap "prefix @ ''.'' @ nat_str i @ ''.'' @ s"] plain_nat_str [of i]
  unfolding plain_def row_key_def by auto

lemma row_key_nonempty: "prefix \<noteq> [] \<Longrightarrow> 1 < cap \<Longrightarrow> row_key cap prefix i s \<noteq> []"
  by (cases prefix) (simp_all add: row_key_def fits_def)

lemma rows_kvs_wire:
  assumes "plain prefix" "prefix \<noteq> []" "1 < cap"
    and "\<forall>fs \<in> set fss. \<forall>(s, vo) \<in> set fs. plain s \<and> (\<forall>v \<in> set_option vo. LF \<notin> set v \<and> NUL \<notin> set v)"
  shows "\<forall>kv \<in> set (rows_kvs cap prefix fss). wire_kv kv"
proof
  fix kv assume kv_in: "kv \<in> set (rows_kvs cap prefix fss)"
  obtain k v where "kv = (k, v)" by (cases kv)
  with kv_in obtain i s where i: "i < length fss" "(s, Some v) \<in> set (fss ! i)"
    and kv: "kv = (row_key cap prefix i s, v)" by (auto simp: rows_kvs_mem)
  with assms(4) have "plain s" "LF \<notin> set v" "NUL \<notin> set v" by (force dest!: nth_mem)+
  with assms(1-3) row_key_plain [of prefix s cap i] row_key_nonempty [of prefix cap i s]
  show "wire_kv kv" by (simp add: kv wire_kv_def plain_def)
qed

lemma length_rows_kvs:
  assumes "\<forall>fs \<in> set fss. length fs \<le> k"
  shows "length (rows_kvs cap prefix fss) \<le> length fss * k"
proof -
  have "length (row_kvs cap prefix i fs) \<le> length fs" for i fs
    by (simp add: row_kvs_def List.map_filter_def)
  then have "\<forall>x \<in> set (enumerate 0 fss). length (case x of (i, fs) \<Rightarrow> row_kvs cap prefix i fs) \<le> k"
    using assms by (auto simp: in_set_enumerate_eq) (meson le_trans nth_mem)
  then have "(\<Sum>x \<leftarrow> enumerate 0 fss. length (case x of (i, fs) \<Rightarrow> row_kvs cap prefix i fs)) \<le> 
    (\<Sum>x \<leftarrow> enumerate 0 fss. k)" by (intro sum_list_mono) auto
  then show ?thesis
    by (simp add: rows_kvs_def length_concat comp_def sum_list_triv)
qed

lemma length_items_put_all: "length (items (fs.put_all kvs f)) \<le> length (items f) + length kvs"
proof (induction kvs arbitrary: f)
  case (Cons kv kvs)
  obtain k v where "kv = (k, v)" by (cases kv)
  with Cons [of "fields_put f k v"] length_items_put [of f k v] show ?case by simp
qed simp

lemma parse_rows_get:
  assumes "\<forall>kv \<in> set kvs. wire_kv kv"
  shows "cq_fields_get (cq_fields_parse cq_fields_init (render_doc [CR, LF] kvs)) k = map_of (rev kvs) k"
proof -
  have "NUL \<notin> set (render_doc [CR, LF] kvs)"
    using assms by (auto simp: render_doc_def render_line_def wire_kv_def)
  from get_parse_last_wins [OF this] doc_kvs_render [OF assms] show ?thesis by simp
qed

lemma parse_rows_length:
  assumes "\<forall>kv \<in> set kvs. wire_kv kv"
  shows "length (items (cq_fields_parse cq_fields_init (render_doc [CR, LF] kvs))) \<le> length kvs"
  using length_items_put_all [of kvs cq_fields_init]
  by (simp add: cq_fields_parse_kvs doc_kvs_render [OF assms] cq_fields_init_def)

end
