(* ===== verification/Track.thy ===== *)
theory Track
  imports Scan
begin

text \<open>
  The list rows of /queue, /search and playlists, \<open>src/cq_track.c\<close>: a contiguous run of
  \<open>item.<i>.{uri,track,artist,album_id,duration_ms}\<close> keys that ends at the first index
  whose \<open>.uri\<close> is absent.
\<close>

record cq_track_item =
  it_uri :: "cstr option"
  it_track :: "cstr option"
  it_artist :: "cstr option"
  it_album_id :: "cstr option"
  it_duration_ms :: int

record cq_track_list =
  titems :: "cq_track_item list"
  tcap :: nat

text \<open>\<open>item.<i>.<suffix>\<close> printed into 64 bytes.\<close>

definition track_field_for :: "cq_fields \<Rightarrow> nat \<Rightarrow> cstr \<Rightarrow> cstr option" where
  "track_field_for f i suffix =
     cq_fields_get f (fits 64 (''item.'' @ nat_str i @ ''.'' @ suffix))"

definition track_push :: "cq_track_list \<Rightarrow> cq_track_item \<Rightarrow> cq_track_list" where
  "track_push l it = l\<lparr>tcap := grow (length (titems l)) (tcap l), titems := titems l @ [it]\<rparr>"

definition track_row :: "cq_fields \<Rightarrow> nat \<Rightarrow> cstr \<Rightarrow> cq_track_item" where
  "track_row f i u =
     \<lparr>it_uri = Some u,
      it_track = track_field_for f i ''track'',
      it_artist = track_field_for f i ''artist'',
      it_album_id = track_field_for f i ''album_id'',
      it_duration_ms = cq_parse_ll (track_field_for f i ''duration_ms'')\<rparr>"

fun track_loop :: "cq_fields \<Rightarrow> nat \<Rightarrow> nat \<Rightarrow> cq_track_list \<Rightarrow> cq_track_list option" where
  "track_loop f 0 i l = None"
| "track_loop f (Suc fuel) i l =
     (case track_field_for f i ''uri'' of
        None \<Rightarrow> Some l
      | Some u \<Rightarrow> track_loop f fuel (Suc i) (track_push l (track_row f i u)))"

definition cq_track_list_empty :: cq_track_list where
  "cq_track_list_empty = \<lparr>titems = [], tcap = 0\<rparr>"

text \<open>
  The fuel is one more than the number of fields; \<open>track_scan_total\<close> below shows that the
  loop never uses it up.
\<close>

definition cq_track_list_from_fields :: "cq_fields \<Rightarrow> cq_track_list" where
  "cq_track_list_from_fields f =
     (case track_loop f (length (items f) + 1) 0 cq_track_list_empty of
        Some l \<Rightarrow> l
      | None \<Rightarrow> cq_track_list_empty)"

definition cq_track_list_from_response :: "bytes \<Rightarrow> cq_track_list" where
  "cq_track_list_from_response d = cq_track_list_from_fields (cq_fields_parse cq_fields_init d)"

subsection \<open>The scan meets the row contract\<close>

definition track_probe :: "cq_fields \<Rightarrow> nat \<Rightarrow> cq_track_item option" where
  "track_probe f i = map_option (track_row f i) (track_field_for f i ''uri'')"

lemma track_field_for_row_key: "track_field_for f i s = cq_fields_get f (row_key 64 ''item'' i s)"
  by (simp add: track_field_for_def row_key_def)

interpretation tscan: gap_scan "track_probe f" "track_loop f" track_push titems
  "length (items f)" "length (items f) < 2 ^ 32" for f
proof unfold_locales
  assume "length (items f) < 2 ^ 32"
  then show "\<exists>j \<le> length (items f). track_probe f j = None"
    using row_keys_have_gap [of f "''item''" "''uri''" 64]
    by (simp add: track_probe_def track_field_for_row_key)
qed (auto simp: track_probe_def track_push_def)

lemma track_scan_total:
  assumes "length (items f) < 2 ^ 32" "length (items f) < fuel"
  shows "track_loop f fuel 0 cq_track_list_empty \<noteq> None"
  using tscan.loop_all [OF assms] by auto

lemma track_list_rows:
  assumes "length (items f) < 2 ^ 32"
  shows "titems (cq_track_list_from_fields f) = map (the \<circ> track_probe f) [0..<tscan.first_gap f]"
  using tscan.loop_all [OF assms, of "length (items f) + 1" cq_track_list_empty]
  by (auto simp: cq_track_list_from_fields_def cq_track_list_empty_def)

lemma the_track_probe:
  "track_probe f i \<noteq> None \<Longrightarrow> the (track_probe f i) = track_row f i (the (track_field_for f i ''uri''))"
  by (cases "track_field_for f i ''uri''") (auto simp: track_probe_def)

lemma track_loop_cap:
  "length (titems l) \<le> tcap l \<Longrightarrow> track_loop f fuel i l = Some l' \<Longrightarrow> length (titems l') \<le> tcap l'"
proof (induction fuel arbitrary: i l)
  case (Suc fuel)
  have "length (titems (track_push l r)) \<le> tcap (track_push l r)" for r
    using grow_room [OF Suc.prems(1)] by (simp add: track_push_def)
  with Suc show ?case by (auto split: option.splits)
qed simp

text \<open>The document that lists the given rows, as the server renders it.\<close>

definition track_fields :: "cq_track_item \<Rightarrow> (cstr \<times> cstr option) list" where
  "track_fields t =
     [(''uri'', it_uri t), (''track'', it_track t), (''artist'', it_artist t),
      (''album_id'', it_album_id t), (''duration_ms'', Some (int_str (it_duration_ms t)))]"

definition render_tracks :: "cq_track_item list \<Rightarrow> bytes" where
  "render_tracks ts = render_doc [CR, LF] (rows_kvs 64 ''item'' (map track_fields ts))"

definition track_wire :: "cq_track_item \<Rightarrow> bool" where
  "track_wire t \<longleftrightarrow> it_uri t \<noteq> None \<and>
     (\<forall>v \<in> set_option (it_uri t) \<union> set_option (it_track t) \<union> set_option (it_artist t) \<union>
        set_option (it_album_id t). LF \<notin> set v \<and> NUL \<notin> set v) \<and>
     - (2 ^ 63) \<le> it_duration_ms t \<and> it_duration_ms t < 2 ^ 63"

lemma track_fields_ok: "suffixes_ok 64 ''item'' (track_fields t)"
  by (simp add: suffixes_ok_def track_fields_def)

lemma track_fields_wire:
  assumes "\<forall>t \<in> set ts. track_wire t"
  shows "\<forall>kv \<in> set (rows_kvs 64 ''item'' (map track_fields ts)). wire_kv kv"
proof (rule rows_kvs_wire)
  show "\<forall>fs \<in> set (map track_fields ts). \<forall>(s, vo) \<in> set fs.
      plain s \<and> (\<forall>v \<in> set_option vo. LF \<notin> set v \<and> NUL \<notin> set v)"
    using assms int_str_plain by (fastforce simp: track_fields_def track_wire_def plain_def)
qed (simp_all add: plain_def)

lemma track_response_field:
  assumes "\<forall>t \<in> set ts. track_wire t" "length ts \<le> 2 ^ 32" "i \<le> length ts" "length s \<le> 12"
  shows "track_field_for (cq_fields_parse cq_fields_init (render_tracks ts)) i s =
    (if i < length ts then Option.bind (map_of (track_fields (ts ! i)) s) id else None)"
proof -
  have "\<forall>fs \<in> set (map track_fields ts). suffixes_ok 64 ''item'' fs" by (simp add: track_fields_ok)
  from rows_kvs_lookup [OF this] assms show ?thesis
    by (simp add: render_tracks_def track_field_for_row_key parse_rows_get track_fields_wire)
qed

lemma track_probe_render:
  assumes "\<forall>t \<in> set ts. track_wire t" "length ts \<le> 2 ^ 32" "i \<le> length ts"
  shows "track_probe (cq_fields_parse cq_fields_init (render_tracks ts)) i =
    (if i < length ts then Some (ts ! i) else None)"
proof (cases "i < length ts")
  case True
  then have "track_wire (ts ! i)" using assms(1) by simp
  then obtain u where u: "it_uri (ts ! i) = Some u"
    and d: "cq_parse_ll (Some (int_str (it_duration_ms (ts ! i)))) = it_duration_ms (ts ! i)"
    using parse_ll_int_str [of "[]" "[]" "it_duration_ms (ts ! i)"] wrap64_id
    by (auto simp: track_wire_def)
  with True assms show ?thesis
    by (cases "ts ! i")
      (simp add: track_probe_def track_row_def track_response_field track_fields_def)
next
  case False
  with assms show ?thesis by (simp add: track_probe_def track_response_field)
qed

lemma tracks_parse_length:
  assumes "\<forall>t \<in> set ts. track_wire t" "length ts < 2 ^ 29"
  shows "length (items (cq_fields_parse cq_fields_init (render_tracks ts))) < 2 ^ 32"
proof -
  have "length (rows_kvs 64 ''item'' (map track_fields ts)) \<le> length (map track_fields ts) * 5"
    by (rule length_rows_kvs) (auto simp: track_fields_def)
  with parse_rows_length [OF track_fields_wire [OF assms(1)]] assms(2)
  show ?thesis by (simp add: render_tracks_def)
qed

subsection \<open>Properties of the track list\<close>

text \<open>The scan always ends, with the rows below the first index whose \<open>.uri\<close> key is
  absent and no others, each row holding the values of its own keys; the array never overruns
  its capacity.\<close>

lemma track_list_first_gap:
  assumes "length (items f) < 2 ^ 32"
  shows "\<exists>n l. track_loop f (length (items f) + 1) 0 cq_track_list_empty = Some l \<and>
    cq_track_list_from_fields f = l \<and> length (titems l) = n \<and> n \<le> tcap l \<and>
    track_field_for f n ''uri'' = None \<and>
    (\<forall>i < n. titems l ! i = track_row f i (the (track_field_for f i ''uri'')) \<and>
       track_field_for f i ''uri'' \<noteq> None)"
proof -
  obtain l where l: "track_loop f (length (items f) + 1) 0 cq_track_list_empty = Some l"
    using track_scan_total [OF assms, of "length (items f) + 1"] by auto
  have rows: "titems l = map (the \<circ> track_probe f) [0..<tscan.first_gap f]"
    using track_list_rows [OF assms] l by (simp add: cq_track_list_from_fields_def)
  have "length (titems l) \<le> tcap l"
    by (rule track_loop_cap [OF _ l]) (simp add: cq_track_list_empty_def)
  then show ?thesis
    using l rows tscan.first_gap_None [OF assms] tscan.before_gap [where f = f]
    by (intro exI [of _ "tscan.first_gap f"] exI [of _ l])
      (simp add: cq_track_list_from_fields_def the_track_probe, simp add: track_probe_def)
qed

text \<open>A list of rows rendered as \<open>item.<i>.*\<close> lines is read back row for row by
  \<open>cq_track_list_from_response\<close>, absent fields as absent.\<close>

lemma track_list_roundtrip:
  assumes "\<forall>t \<in> set ts. track_wire t" "length ts < 2 ^ 29"
  shows "titems (cq_track_list_from_response (render_tracks ts)) = ts"
proof -
  let ?f = "cq_fields_parse cq_fields_init (render_tracks ts)"
  have probe: "track_probe ?f i = (if i < length ts then Some (ts ! i) else None)"
    if "i \<le> length ts" for i
    using track_probe_render [OF assms(1) _ that] assms(2) by simp
  then have "tscan.first_gap ?f = length ts" by (intro tscan.first_gap_eqI) simp_all
  with track_list_rows [OF tracks_parse_length [OF assms]] probe show ?thesis
    by (auto simp: cq_track_list_from_response_def intro!: nth_equalityI)
qed

end
