(* ===== verification/Reflist.thy ===== *)
theory Reflist
  imports Scan
begin

text \<open>
  The \<open>{id, name}\<close> reference lists of search and artist discographies,
  \<open>src/cq_reflist.c\<close>: the same scan under a key prefix given by the caller.
\<close>

record cq_ref_item =
  ref_id :: "cstr option"
  ref_name :: "cstr option"

record cq_ref_list =
  ritems :: "cq_ref_item list"
  rcap :: nat

definition ref_field_for :: "cq_fields \<Rightarrow> cstr \<Rightarrow> nat \<Rightarrow> cstr \<Rightarrow> cstr option" where
  "ref_field_for f prefix i suffix =
     cq_fields_get f (fits 80 (prefix @ ''.'' @ nat_str i @ ''.'' @ suffix))"

definition ref_push :: "cq_ref_list \<Rightarrow> cq_ref_item \<Rightarrow> cq_ref_list" where
  "ref_push l it = l\<lparr>rcap := grow (length (ritems l)) (rcap l), ritems := ritems l @ [it]\<rparr>"

fun ref_loop :: "cq_fields \<Rightarrow> cstr \<Rightarrow> nat \<Rightarrow> nat \<Rightarrow> cq_ref_list \<Rightarrow> cq_ref_list option" where
  "ref_loop f prefix 0 i l = None"
| "ref_loop f prefix (Suc fuel) i l =
     (case ref_field_for f prefix i ''id'' of
        None \<Rightarrow> Some l
      | Some d \<Rightarrow> ref_loop f prefix fuel (Suc i)
          (ref_push l \<lparr>ref_id = Some d, ref_name = ref_field_for f prefix i ''name''\<rparr>))"

definition cq_ref_list_empty :: cq_ref_list where
  "cq_ref_list_empty = \<lparr>ritems = [], rcap = 0\<rparr>"

definition cq_ref_list_from_fields :: "cq_fields \<Rightarrow> cstr \<Rightarrow> cq_ref_list" where
  "cq_ref_list_from_fields f prefix =
     (case ref_loop f prefix (length (items f) + 1) 0 cq_ref_list_empty of
        Some l \<Rightarrow> l
      | None \<Rightarrow> cq_ref_list_empty)"

definition cq_ref_list_from_response :: "bytes \<Rightarrow> cstr \<Rightarrow> cq_ref_list" where
  "cq_ref_list_from_response d prefix =
     cq_ref_list_from_fields (cq_fields_parse cq_fields_init d) prefix"

subsection \<open>The scan meets the row contract\<close>

definition ref_probe :: "cq_fields \<Rightarrow> cstr \<Rightarrow> nat \<Rightarrow> cq_ref_item option" where
  "ref_probe f prefix i =
     map_option (\<lambda>d. \<lparr>ref_id = Some d, ref_name = ref_field_for f prefix i ''name''\<rparr>)
       (ref_field_for f prefix i ''id'')"

lemma ref_field_for_row_key: "ref_field_for f prefix i s = cq_fields_get f (row_key 80 prefix i s)"
  by (simp add: ref_field_for_def row_key_def)

interpretation rscan: gap_scan "ref_probe f prefix" "ref_loop f prefix" ref_push ritems
  "length (items f)" "length (items f) < 2 ^ 32 \<and> length prefix \<le> 60" for f prefix
proof unfold_locales
  assume "length (items f) < 2 ^ 32 \<and> length prefix \<le> 60"
  then show "\<exists>j \<le> length (items f). ref_probe f prefix j = None"
    using row_keys_have_gap [of f prefix "''id''" 80]
    by (simp add: ref_probe_def ref_field_for_row_key)
qed (auto simp: ref_probe_def ref_push_def)

lemma ref_list_rows:
  assumes "length (items f) < 2 ^ 32" "length prefix \<le> 60"
  shows "ritems (cq_ref_list_from_fields f prefix) =
    map (the \<circ> ref_probe f prefix) [0..<rscan.first_gap f prefix]"
  using rscan.loop_all [of f prefix "length (items f) + 1" cq_ref_list_empty] assms
  by (auto simp: cq_ref_list_from_fields_def cq_ref_list_empty_def)

definition ref_fields :: "cq_ref_item \<Rightarrow> (cstr \<times> cstr option) list" where
  "ref_fields t = [(''id'', ref_id t), (''name'', ref_name t)]"

definition render_refs :: "cstr \<Rightarrow> cq_ref_item list \<Rightarrow> bytes" where
  "render_refs prefix ts = render_doc [CR, LF] (rows_kvs 80 prefix (map ref_fields ts))"

definition ref_wire :: "cq_ref_item \<Rightarrow> bool" where
  "ref_wire t \<longleftrightarrow> ref_id t \<noteq> None \<and>
     (\<forall>v \<in> set_option (ref_id t) \<union> set_option (ref_name t). LF \<notin> set v \<and> NUL \<notin> set v)"

definition prefix_ok :: "cstr \<Rightarrow> bool" where
  "prefix_ok prefix \<longleftrightarrow> prefix \<noteq> [] \<and> length prefix \<le> 60 \<and> plain prefix"

lemma ref_fields_wire:
  assumes "\<forall>t \<in> set ts. ref_wire t" "prefix_ok prefix"
  shows "\<forall>kv \<in> set (rows_kvs 80 prefix (map ref_fields ts)). wire_kv kv"
proof (rule rows_kvs_wire)
  show "\<forall>fs \<in> set (map ref_fields ts). \<forall>(s, vo) \<in> set fs.
      plain s \<and> (\<forall>v \<in> set_option vo. LF \<notin> set v \<and> NUL \<notin> set v)"
    using assms by (fastforce simp: ref_fields_def ref_wire_def plain_def)
qed (use assms in \<open>simp_all add: prefix_ok_def\<close>)

lemma ref_response_field:
  assumes "\<forall>t \<in> set ts. ref_wire t" "prefix_ok prefix" "length ts \<le> 2 ^ 32" "i \<le> length ts"
    and "length s \<le> 4"
  shows "ref_field_for (cq_fields_parse cq_fields_init (render_refs prefix ts)) prefix i s =
    (if i < length ts then Option.bind (map_of (ref_fields (ts ! i)) s) id else None)"
proof -
  have "\<forall>fs \<in> set (map ref_fields ts). suffixes_ok 80 prefix fs"
    using assms(2) by (simp add: suffixes_ok_def ref_fields_def prefix_ok_def)
  from rows_kvs_lookup [OF this] assms show ?thesis
    by (simp add: render_refs_def ref_field_for_row_key parse_rows_get ref_fields_wire prefix_ok_def)
qed

lemma ref_probe_render:
  assumes "\<forall>t \<in> set ts. ref_wire t" "prefix_ok prefix" "length ts \<le> 2 ^ 32" "i \<le> length ts"
  shows "ref_probe (cq_fields_parse cq_fields_init (render_refs prefix ts)) prefix i =
    (if i < length ts then Some (ts ! i) else None)"
proof (cases "i < length ts")
  case True
  then have "ref_wire (ts ! i)" using assms(1) by simp
  then obtain d where "ref_id (ts ! i) = Some d" by (auto simp: ref_wire_def)
  with True assms show ?thesis
    by (cases "ts ! i") (simp add: ref_probe_def ref_response_field ref_fields_def)
next
  case False
  with assms show ?thesis by (simp add: ref_probe_def ref_response_field)
qed

lemma refs_parse_length:
  assumes "\<forall>t \<in> set ts. ref_wire t" "prefix_ok prefix" "length ts < 2 ^ 29"
  shows "length (items (cq_fields_parse cq_fields_init (render_refs prefix ts))) < 2 ^ 32"
proof -
  have "length (rows_kvs 80 prefix (map ref_fields ts)) \<le> length (map ref_fields ts) * 2"
    by (rule length_rows_kvs) (auto simp: ref_fields_def)
  with parse_rows_length [OF ref_fields_wire [OF assms(1,2)]] assms(3)
  show ?thesis by (simp add: render_refs_def)
qed

subsection \<open>Properties of the reference list\<close>

text \<open>A reference list rendered under any of the prefixes the program uses is read back
  row for row; in particular \<open>artist\<close>, \<open>album\<close> and \<open>item\<close> rows are told apart by their
  prefix.\<close>

lemma ref_list_roundtrip:
  assumes "\<forall>t \<in> set ts. ref_wire t" "prefix_ok prefix" "length ts < 2 ^ 29"
  shows "ritems (cq_ref_list_from_response (render_refs prefix ts) prefix) = ts"
proof -
  let ?f = "cq_fields_parse cq_fields_init (render_refs prefix ts)"
  have probe: "ref_probe ?f prefix i = (if i < length ts then Some (ts ! i) else None)"
    if "i \<le> length ts" for i
    using ref_probe_render [OF assms(1,2) _ that] assms(3) by simp
  then have "rscan.first_gap ?f prefix = length ts" by (intro rscan.first_gap_eqI) simp_all
  moreover have "length prefix \<le> 60" using assms(2) by (simp add: prefix_ok_def)
  ultimately show ?thesis using ref_list_rows [OF refs_parse_length [OF assms]] probe
    by (auto simp: cq_ref_list_from_response_def intro!: nth_equalityI)
qed

end
