(* ===== verification/Now.thy ===== *)
theory Now
  imports Codec
begin

text \<open>
  The /now snapshot, \<open>src/cq_now.c\<close>: a value object built from a field set, keyed off
  \<open>state\<close> first, tolerant of missing and unknown keys, and the interpolation of the
  position between two polls.
\<close>

datatype cq_play_state = CQ_STATE_STOPPED | CQ_STATE_PLAYING | CQ_STATE_PAUSED

datatype cq_dev_state = CQ_DEV_UNKNOWN | CQ_DEV_ACTIVE | CQ_DEV_IDLE

record cq_now =
  now_state :: cq_play_state
  now_track :: "cstr option"
  now_artist :: "cstr option"
  now_album :: "cstr option"
  now_album_id :: "cstr option"
  now_track_id :: "cstr option"
  now_position_ms :: int
  now_duration_ms :: int
  now_ts :: int
  now_volume :: int
  now_queue_len :: int
  now_api_version :: int
  now_device :: cq_dev_state

definition state_from :: "cstr option \<Rightarrow> cq_play_state" where
  "state_from s =
     (if s = Some ''playing'' then CQ_STATE_PLAYING
      else if s = Some ''paused'' then CQ_STATE_PAUSED
      else CQ_STATE_STOPPED)"

definition device_from :: "cstr option \<Rightarrow> cq_dev_state" where
  "device_from s =
     (if s = Some ''active'' then CQ_DEV_ACTIVE
      else if s = Some ''idle'' then CQ_DEV_IDLE
      else CQ_DEV_UNKNOWN)"

definition cq_now_from_fields :: "cq_fields \<Rightarrow> cq_now" where
  "cq_now_from_fields f =
     \<lparr>now_state = state_from (cq_fields_get f ''state''),
      now_track = cq_fields_get f ''track'',
      now_artist = cq_fields_get f ''artist'',
      now_album = cq_fields_get f ''album'',
      now_album_id = cq_fields_get f ''album_id'',
      now_track_id = cq_fields_get f ''track_id'',
      now_position_ms = cq_parse_ll (cq_fields_get f ''position_ms''),
      now_duration_ms = cq_parse_ll (cq_fields_get f ''duration_ms''),
      now_ts = cq_parse_ll (cq_fields_get f ''ts''),
      now_volume = (case cq_fields_get f ''volume'' of
                      Some vol \<Rightarrow> wrap32 (cq_parse_ll (Some vol))
                    | None \<Rightarrow> -1),
      now_queue_len = wrap32 (cq_parse_ll (cq_fields_get f ''queue_len'')),
      now_api_version = wrap32 (cq_parse_ll (cq_fields_get f ''api'')),
      now_device = device_from (cq_fields_get f ''device'')\<rparr>"

definition cq_now_from_response :: "bytes \<Rightarrow> cq_now" where
  "cq_now_from_response d = cq_now_from_fields (cq_fields_parse cq_fields_init d)"

text \<open>The zeroed structure (\<open>memset\<close>) the app starts from and \<open>cq_now_free\<close>'s effect.\<close>

definition cq_now_zero :: cq_now where
  "cq_now_zero =
     \<lparr>now_state = CQ_STATE_STOPPED, now_track = None, now_artist = None, now_album = None,
      now_album_id = None, now_track_id = None, now_position_ms = 0, now_duration_ms = 0,
      now_ts = 0, now_volume = 0, now_queue_len = 0, now_api_version = 0,
      now_device = CQ_DEV_UNKNOWN\<rparr>"

definition cq_now_free :: "cq_now \<Rightarrow> cq_now" where
  "cq_now_free n =
     n\<lparr>now_track := None, now_artist := None, now_album := None, now_album_id := None,
       now_track_id := None\<rparr>"

definition cq_now_has_track :: "cq_now \<Rightarrow> bool" where
  "cq_now_has_track n \<longleftrightarrow> (case now_track n of None \<Rightarrow> False | Some t \<Rightarrow> t \<noteq> [])"

definition cq_now_has_volume :: "cq_now \<Rightarrow> bool" where
  "cq_now_has_volume n \<longleftrightarrow> 0 \<le> now_volume n"

definition cq_now_device_is_idle :: "cq_now \<Rightarrow> bool" where
  "cq_now_device_is_idle n \<longleftrightarrow> now_device n = CQ_DEV_IDLE"

definition cq_now_interpolated_position_ms :: "cq_now \<Rightarrow> int \<Rightarrow> int" where
  "cq_now_interpolated_position_ms n now_epoch_ms =
     (if now_state n \<noteq> CQ_STATE_PLAYING \<or> now_ts n \<le> 0 then now_position_ms n
      else
        (let est = wrap64 (now_position_ms n + wrap64 (now_epoch_ms - now_ts n));
             est = (if est < 0 then 0 else est)
         in if now_duration_ms n > 0 \<and> est > now_duration_ms n then now_duration_ms n else est))"

definition clamp_pos :: "cq_now \<Rightarrow> int \<Rightarrow> int" where
  "clamp_pos n est =
     (let e = max 0 est in if 0 < now_duration_ms n then min e (now_duration_ms n) else e)"

lemma clamp_pos_bounds:
  "0 \<le> clamp_pos n est" "0 < now_duration_ms n \<Longrightarrow> clamp_pos n est \<le> now_duration_ms n"
  by (simp_all add: clamp_pos_def Let_def)

lemma clamp_pos_mono: "e \<le> e' \<Longrightarrow> clamp_pos n e \<le> clamp_pos n e'"
  by (auto simp: clamp_pos_def Let_def)

lemma interpolated_clamp:
  assumes "now_state n = CQ_STATE_PLAYING" "0 < now_ts n"
  shows "cq_now_interpolated_position_ms n t =
    clamp_pos n (wrap64 (now_position_ms n + wrap64 (t - now_ts n)))"
  using assms by (auto simp: cq_now_interpolated_position_ms_def clamp_pos_def Let_def max_def min_def
      simp del: wrap64_add_right)

subsection \<open>The snapshot document\<close>

definition state_word :: "cq_play_state \<Rightarrow> cstr" where
  "state_word s = (case s of CQ_STATE_PLAYING \<Rightarrow> ''playing'' | CQ_STATE_PAUSED \<Rightarrow> ''paused''
     | CQ_STATE_STOPPED \<Rightarrow> ''stopped'')"

definition device_word :: "cq_dev_state \<Rightarrow> cstr option" where
  "device_word d = (case d of CQ_DEV_ACTIVE \<Rightarrow> Some ''active'' | CQ_DEV_IDLE \<Rightarrow> Some ''idle''
     | CQ_DEV_UNKNOWN \<Rightarrow> None)"

definition now_fields :: "cq_now \<Rightarrow> (cstr \<times> cstr option) list" where
  "now_fields n =
     [(''state'', Some (state_word (now_state n))), (''device'', device_word (now_device n)),
      (''track'', now_track n), (''artist'', now_artist n), (''album'', now_album n),
      (''album_id'', now_album_id n), (''track_id'', now_track_id n),
      (''position_ms'', Some (int_str (now_position_ms n))),
      (''duration_ms'', Some (int_str (now_duration_ms n))),
      (''ts'', Some (int_str (now_ts n))), (''queue_len'', Some (int_str (now_queue_len n))),
      (''api'', Some (int_str (now_api_version n))),
      (''volume'', if now_volume n = -1 then None else Some (int_str (now_volume n)))]"

definition now_keys :: "cstr list" where
  "now_keys = map fst (now_fields cq_now_zero)"

definition now_kvs :: "cq_now \<Rightarrow> (cstr \<times> cstr) list" where
  "now_kvs n = present (now_fields n)"

text \<open>Numbers that fit their C types.\<close>

definition now_ranges :: "cq_now \<Rightarrow> bool" where
  "now_ranges n \<longleftrightarrow>
     (\<forall>x \<in> {now_position_ms n, now_duration_ms n, now_ts n}. - (2 ^ 63) \<le> x \<and> x < 2 ^ 63) \<and>
     (\<forall>x \<in> {now_volume n, now_queue_len n, now_api_version n}. - (2 ^ 31) \<le> x \<and> x < 2 ^ 31)"

lemma map_of_now_kvs: "map_of (rev (now_kvs n)) k = Option.bind (map_of (now_fields n) k) id"
  unfolding now_kvs_def by (rule map_of_present) (simp add: now_fields_def)

lemma map_of_rev_filter:
  "P k \<Longrightarrow> map_of (rev (filter (\<lambda>kv. P (fst kv)) kvs)) k = map_of (rev kvs) k"
  by (induction kvs) (auto simp: map_add_def split: option.splits)

lemma parse_int64:
  "- (2 ^ 63) \<le> x \<Longrightarrow> x < 2 ^ 63 \<Longrightarrow> cq_parse_ll (Some (int_str x)) = x"
  using parse_ll_int_str [of "[]" "[]" x] wrap64_id [of x] by simp

lemma parse_int32:
  "- (2 ^ 31) \<le> x \<Longrightarrow> x < 2 ^ 31 \<Longrightarrow> wrap32 (cq_parse_ll (Some (int_str x))) = x"
  using parse_int64 [of x] wrap32_id [of x] by simp

lemma now_keys_fields: "kv \<in> set (now_fields n) \<Longrightarrow> fst kv \<in> set now_keys"
proof -
  have "now_keys = map fst (now_fields n)" by (simp add: now_keys_def now_fields_def)
  then show "kv \<in> set (now_fields n) \<Longrightarrow> fst kv \<in> set now_keys" by (metis image_eqI list.set_map)
qed

lemma now_keys_distinct: "distinct (map fst (now_fields n))"
  by (simp add: now_fields_def)

lemma now_from_fields_eq:
  assumes get: "\<And>k. k \<in> set now_keys \<Longrightarrow> cq_fields_get f k = Option.bind (map_of (now_fields n) k) id"
    and ranges: "now_ranges n"
  shows "cq_now_from_fields f = n"
proof -
  have s: "state_from (Some (state_word (now_state n))) = now_state n"
    by (cases "now_state n") (simp_all add: state_from_def state_word_def)
  have d: "device_from (device_word (now_device n)) = now_device n"
    by (cases "now_device n") (simp_all add: device_from_def device_word_def)
  have "\<forall>kv \<in> set (now_fields n). cq_fields_get f (fst kv) = snd kv"
  proof
    fix kv assume "kv \<in> set (now_fields n)"
    moreover from this have "fst kv \<in> set now_keys" by (simp add: now_keys_fields)
    ultimately show "cq_fields_get f (fst kv) = snd kv"
      using map_of_is_SomeI [OF now_keys_distinct, of "fst kv" "snd kv" n] get by simp
  qed
  note g = this [unfolded now_fields_def, simplified]
  show ?thesis
    by (rule cq_now.equality) (use g ranges s d in \<open>simp_all add: cq_now_from_fields_def now_ranges_def
      parse_int32 parse_int64 wrap32_id\<close>)
qed

lemma snapshot_read:
  assumes "\<forall>kv \<in> set kvs. wire_kv kv"
    and "filter (\<lambda>kv. fst kv \<in> set now_keys) kvs = now_kvs n" and "now_ranges n"
  shows "cq_now_from_response (render_doc [CR, LF] kvs) = n"
proof -
  have "cq_fields_get (cq_fields_parse cq_fields_init (render_doc [CR, LF] kvs)) k =
      Option.bind (map_of (now_fields n) k) id" if "k \<in> set now_keys" for k
  proof -
    have "NUL \<notin> set (render_doc [CR, LF] kvs)"
      using assms(1) by (auto simp: render_doc_def render_line_def wire_kv_def)
    from get_parse_last_wins [OF this] doc_kvs_render [OF assms(1)]
    have "cq_fields_get (cq_fields_parse cq_fields_init (render_doc [CR, LF] kvs)) k =
        map_of (rev kvs) k" by simp
    also have "\<dots> = map_of (rev (now_kvs n)) k"
      using map_of_rev_filter [of "\<lambda>k. k \<in> set now_keys" k kvs] that assms(2) by simp
    finally show ?thesis by (simp add: map_of_now_kvs)
  qed
  then show ?thesis unfolding cq_now_from_response_def
    by (rule now_from_fields_eq) (simp_all add: assms(3))
qed

subsection \<open>Properties of the snapshot\<close>

text \<open>C39. A snapshot rendered as key-value lines is read back field for field, wherever
  unknown keys are mixed into the document and whatever optional keys are missing.\<close>

theorem now_roundtrip:
  assumes "\<forall>kv \<in> set kvs. wire_kv kv"
    and "filter (\<lambda>kv. fst kv \<in> set now_keys) kvs = now_kvs n" and "now_ranges n"
  shows "cq_now_from_response (render_doc [CR, LF] kvs) = n"
  using assms by (rule snapshot_read)

theorem now_roundtrip_witness:
  "cq_now_from_response (render_doc [CR, LF]
     (now_kvs (cq_now_zero\<lparr>now_state := CQ_STATE_PLAYING, now_volume := 70\<rparr>) @ [(''zzz'', ''1'')])) =
   cq_now_zero\<lparr>now_state := CQ_STATE_PLAYING, now_volume := 70\<rparr>"
proof (rule now_roundtrip)
  let ?n = "cq_now_zero\<lparr>now_state := CQ_STATE_PLAYING, now_volume := 70\<rparr>"
  show "\<forall>kv \<in> set (now_kvs ?n @ [(''zzz'', ''1'')]). wire_kv kv" by code_simp
  show "filter (\<lambda>kv. fst kv \<in> set now_keys) (now_kvs ?n @ [(''zzz'', ''1'')]) = now_kvs ?n"
    by code_simp
  show "now_ranges ?n" by (simp add: now_ranges_def cq_now_zero_def)
qed

text \<open>The interpolated position is frozen unless the snapshot is playing with a known
  timestamp; otherwise it stays within the track whatever the clock says, and, when nothing
  overflows, it is the elapsed position clamped to the track and never moves backwards as the
  clock advances.\<close>

lemma interpolation_clamped:
  "(now_state n \<noteq> CQ_STATE_PLAYING \<or> now_ts n \<le> 0 \<longrightarrow>
      cq_now_interpolated_position_ms n t = now_position_ms n) \<and>
   (now_state n = CQ_STATE_PLAYING \<and> 0 < now_ts n \<longrightarrow>
      0 \<le> cq_now_interpolated_position_ms n t \<and>
      (0 < now_duration_ms n \<longrightarrow> cq_now_interpolated_position_ms n t \<le> now_duration_ms n) \<and>
      (\<bar>now_position_ms n\<bar> < 2 ^ 62 \<and> \<bar>t - now_ts n\<bar> < 2 ^ 62 \<longrightarrow>
         cq_now_interpolated_position_ms n t =
           (let e = max 0 (now_position_ms n + (t - now_ts n))
            in if 0 < now_duration_ms n then min e (now_duration_ms n) else e) \<and>
         (\<forall>t' \<ge> t. \<bar>t' - now_ts n\<bar> < 2 ^ 62 \<longrightarrow>
            cq_now_interpolated_position_ms n t \<le> cq_now_interpolated_position_ms n t')))"
proof (cases "now_state n = CQ_STATE_PLAYING \<and> 0 < now_ts n")
  case False
  then show ?thesis by (auto simp: cq_now_interpolated_position_ms_def)
next
  case True
  then have pos: "cq_now_interpolated_position_ms n u =
      clamp_pos n (wrap64 (now_position_ms n + wrap64 (u - now_ts n)))" for u
    by (simp add: interpolated_clamp)
  have est: "wrap64 (now_position_ms n + wrap64 (u - now_ts n)) = now_position_ms n + (u - now_ts n)"
    if "\<bar>now_position_ms n\<bar> < 2 ^ 62" "\<bar>u - now_ts n\<bar> < 2 ^ 62" for u
    using that wrap64_id [of "now_position_ms n + (u - now_ts n)"] by simp
  show ?thesis
  proof (intro conjI impI)
    assume small: "\<bar>now_position_ms n\<bar> < 2 ^ 62 \<and> \<bar>t - now_ts n\<bar> < 2 ^ 62"
    show "cq_now_interpolated_position_ms n t =
           (let e = max 0 (now_position_ms n + (t - now_ts n))
            in if 0 < now_duration_ms n then min e (now_duration_ms n) else e)"
      unfolding pos using small by (subst est) (simp_all add: clamp_pos_def Let_def)
    show "\<forall>t' \<ge> t. \<bar>t' - now_ts n\<bar> < 2 ^ 62 \<longrightarrow>
        cq_now_interpolated_position_ms n t \<le> cq_now_interpolated_position_ms n t'"
      unfolding pos using small est by (auto intro: clamp_pos_mono)
  qed (use True clamp_pos_bounds pos in auto)
qed

end
