(* ===== verification/Pls.thy ===== *)
theory Pls
  imports Prelude
begin

text \<open>
  The first stream URL of a PLS or M3U playlist, \<open>src/cq_pls.c\<close>: a \<open>File<n>=\<close> entry with
  the lowest index beats any bare \<open>http(s)://\<close> line; comments are skipped.
\<close>

definition lc :: "char \<Rightarrow> char" where
  "lc c = (if 65 \<le> u8 c \<and> u8 c \<le> 90 then char_of (nat (u8 c - 65 + 97)) else c)"

text \<open>The string ends in a NUL, which agrees with no prefix character.\<close>

fun starts_ci :: "cstr \<Rightarrow> cstr \<Rightarrow> bool" where
  "starts_ci s [] = True"
| "starts_ci [] (p # ps) = False"
| "starts_ci (c # s) (p # ps) = (lc c = lc p \<and> starts_ci s ps)"

definition all_digits :: "cstr \<Rightarrow> bool" where
  "all_digits s \<longleftrightarrow> (\<forall>c \<in> set s. is_digit c)"

text \<open>\<open>strtol\<close> of a run of digits saturates at the largest \<open>long\<close>.\<close>

definition strtol_digits :: "cstr \<Rightarrow> int" where
  "strtol_digits s = min (2 ^ 31 - 1) (int (dec_val s))"

definition trim_ws :: "cstr \<Rightarrow> cstr" where
  "trim_ws s = rev (dropWhile is_ws (rev (dropWhile is_ws s)))"

text \<open>
  A \<open>File<n>=value\<close> line: its index and its value without leading white space. The line is
  consumed as an entry even when the value is empty.
\<close>

definition file_entry :: "cstr \<Rightarrow> (int \<times> cstr) option" where
  "file_entry line =
     (if starts_ci line ''file'' \<and> CHR ''='' \<in> set line then
        let eq = length (takeWhile (\<lambda>c. c \<noteq> CHR ''='') line) in
        if 4 \<le> eq then
          let keynum = take (eq - 4) (drop 4 line) in
          if all_digits keynum then
            let idx = (if keynum = [] then 1 else strtol_digits keynum);
                idx = (if idx = 0 then 1 else idx)
            in Some (idx, dropWhile is_ws (drop (eq + 1) line))
          else None
        else None
      else None)"

record pls_state =
  best_pls :: "(int \<times> cstr) option"
  first_bare :: "cstr option"

definition pls_line :: "pls_state \<Rightarrow> cstr \<Rightarrow> pls_state" where
  "pls_line st raw =
     (let line = fits 1024 (trim_ws raw) in
      if line = [] then st
      else case file_entry line of
        Some (idx, v) \<Rightarrow>
          if v \<noteq> [] \<and> (case best_pls st of None \<Rightarrow> True | Some (bi, _) \<Rightarrow> idx < bi)
          then st\<lparr>best_pls := Some (idx, v)\<rparr> else st
      | None \<Rightarrow>
          if hd line \<noteq> CHR ''#'' \<and> (starts_ci line ''http://'' \<or> starts_ci line ''https://'')
             \<and> first_bare st = None
          then st\<lparr>first_bare := Some line\<rparr> else st)"

abbreviation eol :: "char \<Rightarrow> bool" where "eol c \<equiv> c = CR \<or> c = LF"

fun pls_loop :: "pls_state \<Rightarrow> cstr \<Rightarrow> pls_state" where
  "pls_loop st p =
     (let st' = pls_line st (takeWhile (\<lambda>c. \<not> eol c) p)
      in case dropWhile (\<lambda>c. \<not> eol c) p of
           [] \<Rightarrow> st'
         | _ # rest \<Rightarrow> pls_loop st' rest)"

declare pls_loop.simps [simp del]

definition cq_pls_first_url :: "cstr option \<Rightarrow> cstr option" where
  "cq_pls_first_url text =
     (case text of
        None \<Rightarrow> None
      | Some t \<Rightarrow>
          (let st = pls_loop \<lparr>best_pls = None, first_bare = None\<rparr> t
           in case best_pls st of Some (_, v) \<Rightarrow> Some v | None \<Rightarrow> first_bare st))"

subsection \<open>The lines of a playlist and what each contributes\<close>

fun pls_lines :: "cstr \<Rightarrow> cstr list" where
  "pls_lines [] = [[]]"
| "pls_lines (c # s) =
     (case pls_lines s of
        [] \<Rightarrow> [[c]]
      | l # ls \<Rightarrow> if eol c then [] # l # ls else (c # l) # ls)"

definition clean_lines :: "cstr \<Rightarrow> cstr list" where
  "clean_lines t = filter (\<lambda>l. l \<noteq> []) (map (\<lambda>l. fits 1024 (trim_ws l)) (pls_lines t))"

lemma clean_lines_trim:
  "clean_lines t = filter (\<lambda>l. l \<noteq> []) (map (fits 1024) (map trim_ws (pls_lines t)))"
  by (simp add: clean_lines_def comp_def)

definition entries :: "cstr list \<Rightarrow> (int \<times> cstr) list" where
  "entries ls = filter (\<lambda>(i, v). v \<noteq> []) (List.map_filter file_entry ls)"

definition bare_url :: "cstr \<Rightarrow> bool" where
  "bare_url l \<longleftrightarrow> file_entry l = None \<and> hd l \<noteq> CHR ''#'' \<and>
     (starts_ci l ''http://'' \<or> starts_ci l ''https://'')"

lemma pls_lines_nonempty [simp]: "pls_lines s \<noteq> []"
  by (induction s) (auto split: list.splits)

lemma pls_lines_unfold:
  "pls_lines p = takeWhile (\<lambda>c. \<not> eol c) p #
     (case dropWhile (\<lambda>c. \<not> eol c) p of [] \<Rightarrow> [] | _ # rest \<Rightarrow> pls_lines rest)"
  by (induction p) (auto split: list.splits)

lemma pls_loop_fold: "pls_loop st p = fold (\<lambda>l st. pls_line st l) (pls_lines p) st"
proof (induction st p rule: pls_loop.induct)
  case (1 st p)
  show ?case
    using 1 by (cases "dropWhile (\<lambda>c. \<not> eol c) p")
      (simp_all add: pls_loop.simps [of st p] pls_lines_unfold [of p] Let_def
        del: dropWhile_eq_Nil_conv)
qed

text \<open>The running minimum that keeps the earliest of equals.\<close>

fun pick :: "(int \<times> cstr) option \<Rightarrow> (int \<times> cstr) list \<Rightarrow> (int \<times> cstr) option" where
  "pick b [] = b"
| "pick b (e # es) = pick (case b of None \<Rightarrow> Some e | Some b' \<Rightarrow> if fst e < fst b' then Some e else b) es"

lemma entries_simps [simp]:
  "entries [] = []"
  "entries (l # ls) = (case file_entry l of
     Some e \<Rightarrow> if snd e \<noteq> [] then e # entries ls else entries ls | None \<Rightarrow> entries ls)"
  by (auto simp: entries_def List.map_filter_simps split: option.splits prod.splits)

lemma fold_pls_line:
  "fold (\<lambda>l st. pls_line st l) ls st =
   (let cs = filter (\<lambda>l. l \<noteq> []) (map (\<lambda>l. fits 1024 (trim_ws l)) ls)
    in st\<lparr>best_pls := pick (best_pls st) (entries cs),
         first_bare := (case first_bare st of Some b \<Rightarrow> Some b | None \<Rightarrow> find bare_url cs)\<rparr>)"
proof (induction ls arbitrary: st)
  case Nil
  then show ?case by (auto simp: Let_def split: option.splits)
next
  case (Cons l ls)
  then show ?case
    by (auto simp: pls_line_def Let_def bare_url_def split: option.splits prod.splits)
qed

lemma pick_spec:
  assumes "pick b es = Some (i, v)"
  shows "(b = Some (i, v) \<and> (\<forall>e \<in> set es. i \<le> fst e)) \<or>
    (\<exists>xs ys. es = xs @ (i, v) # ys \<and> (\<forall>e \<in> set xs. i < fst e) \<and> (\<forall>e \<in> set ys. i \<le> fst e) \<and>
       (\<forall>b'. b = Some b' \<longrightarrow> i < fst b'))"
  using assms
proof (induction es arbitrary: b)
  case Nil
  then show ?case by simp
next
  case (Cons e es)
  let ?b = "case b of None \<Rightarrow> Some e | Some b' \<Rightarrow> if fst e < fst b' then Some e else b"
  from Cons.IH [of ?b] Cons.prems consider
      "?b = Some (i, v)" "\<forall>e \<in> set es. i \<le> fst e"
    | xs ys where "es = xs @ (i, v) # ys" "\<forall>e \<in> set xs. i < fst e" "\<forall>e \<in> set ys. i \<le> fst e"
        "\<forall>b'. ?b = Some b' \<longrightarrow> i < fst b'" by auto
  then show ?case
  proof cases
    case 1
    show ?thesis
    proof (cases "b = Some (i, v) \<and> \<not> fst e < i")
      case True
      then show ?thesis using 1 by auto
    next
      case False
      with 1 have "e = (i, v)" "\<forall>b'. b = Some b' \<longrightarrow> i < fst b'"
        by (auto split: option.splits if_splits)
      with 1 show ?thesis by (intro disjI2 exI [of _ "[]"] exI [of _ es]) auto
    qed
  next
    case 2
    then have "i < fst e" "\<forall>b'. b = Some b' \<longrightarrow> i < fst b'"
      by (cases e; auto split: option.splits if_splits)+
    with 2 show ?thesis by (intro disjI2 exI [of _ "e # xs"] exI [of _ ys]) auto
  qed
qed

lemma pick_None: "pick b es = None \<longleftrightarrow> b = None \<and> es = []"
  by (induction es arbitrary: b) (auto split: option.splits)

lemma first_url_spec:
  "cq_pls_first_url (Some t) =
    (case pick None (entries (clean_lines t)) of
       Some (_, v) \<Rightarrow> Some v
     | None \<Rightarrow> find bare_url (clean_lines t))"
  by (cases "pick None (entries (clean_lines t))")
    (auto simp: cq_pls_first_url_def pls_loop_fold fold_pls_line clean_lines_def Let_def)

subsection \<open>Properties of the playlist reader\<close>

text \<open>The URL returned is the value of the first \<open>File<n>=\<close> entry of lowest index among
  those with a value, whatever bare URLs surround it; only a playlist without such an entry
  yields its first bare URL, and one with neither yields none.\<close>

lemma pls_lowest_file_entry:
  "(\<forall>u. entries (clean_lines t) \<noteq> [] \<and> cq_pls_first_url (Some t) = Some u \<longrightarrow>
      (\<exists>i xs ys. entries (clean_lines t) = xs @ (i, u) # ys \<and>
         (\<forall>e \<in> set xs. i < fst e) \<and> (\<forall>e \<in> set ys. i \<le> fst e))) \<and>
   (entries (clean_lines t) \<noteq> [] \<longrightarrow> cq_pls_first_url (Some t) \<noteq> None) \<and>
   (entries (clean_lines t) = [] \<longrightarrow> cq_pls_first_url (Some t) = find bare_url (clean_lines t)) \<and>
   cq_pls_first_url None = None"
proof (intro conjI allI impI)
  fix u
  assume "entries (clean_lines t) \<noteq> [] \<and> cq_pls_first_url (Some t) = Some u"
  then obtain i where "pick None (entries (clean_lines t)) = Some (i, u)"
    using pick_None [of None "entries (clean_lines t)"]
    by (auto simp: first_url_spec split: option.splits)
  from pick_spec [OF this] show "\<exists>i xs ys. entries (clean_lines t) = xs @ (i, u) # ys \<and>
         (\<forall>e \<in> set xs. i < fst e) \<and> (\<forall>e \<in> set ys. i \<le> fst e)" by blast
next
  show "cq_pls_first_url None = None" by (simp add: cq_pls_first_url_def)
qed (use pick_None [of None "entries (clean_lines t)"] in
    \<open>auto simp: first_url_spec split: option.splits\<close>)

end
