(* ===== verification/Guard.thy ===== *)
theory Guard
  imports Prelude
begin

text \<open>
  The monotonic timestamp guard of the Reconciler (\<open>cq_guard.c\<close>). Two replicas answer the
  polls, so snapshots can arrive out of order; the guard adopts one only if its timestamp has
  not gone back behind the high-water mark. Timestamps are \<open>long long\<close> values; the guard
  only compares and copies them, so unbounded integers are faithful.
\<close>

record cq_guard =
  last_ts :: int

definition cq_guard_init :: "cq_guard \<Rightarrow> cq_guard" where
  "cq_guard_init g = g\<lparr>last_ts := 0\<rparr>"

definition cq_guard_accept_ts :: "cq_guard \<Rightarrow> int \<Rightarrow> bool \<times> cq_guard" where
  "cq_guard_accept_ts g ts =
     (if ts \<le> 0 then (True, g)
      else if last_ts g > 0 \<and> ts < last_ts g then (False, g)
      else (True, g\<lparr>last_ts := ts\<rparr>))"

definition cq_guard_reset :: "cq_guard \<Rightarrow> cq_guard" where
  "cq_guard_reset g = g\<lparr>last_ts := 0\<rparr>"

subsection \<open>Runs of the guard\<close>

text \<open>The timestamps a run adopts, in order, and the guard after it.\<close>

fun adopt_run :: "cq_guard \<Rightarrow> int list \<Rightarrow> int list \<times> cq_guard" where
  "adopt_run g [] = ([], g)"
| "adopt_run g (t # ts) =
     (let (ok, g') = cq_guard_accept_ts g t; (a, g'') = adopt_run g' ts
      in (if ok then t # a else a, g''))"

text \<open>The mark is the largest positive timestamp seen since the last reset.\<close>

lemma accept_mark:
  assumes "0 \<le> last_ts g"
  shows "last_ts (snd (cq_guard_accept_ts g t)) = max (last_ts g) t"
  using assms by (simp add: cq_guard_accept_ts_def)

lemma accept_iff:
  "0 \<le> last_ts g \<Longrightarrow> fst (cq_guard_accept_ts g t) \<longleftrightarrow> t \<le> 0 \<or> last_ts g \<le> t"
  by (auto simp: cq_guard_accept_ts_def)

lemma run_mark:
  assumes "0 \<le> last_ts g"
  shows "last_ts (snd (adopt_run g ts)) = foldl max (last_ts g) ts"
  using assms
proof (induction ts arbitrary: g)
  case (Cons t ts)
  obtain ok g' where a: "cq_guard_accept_ts g t = (ok, g')" by (cases "cq_guard_accept_ts g t")
  then have m: "last_ts g' = max (last_ts g) t" using accept_mark [OF Cons.prems, of t] by simp
  then have "0 \<le> last_ts g'" using Cons.prems by simp
  from Cons.IH [OF this] show ?case by (simp add: a m split_beta)
qed simp

lemma run_sorted:
  assumes "0 \<le> last_ts g"
  shows "sorted (filter (\<lambda>t. 0 < t) (fst (adopt_run g ts))) \<and>
         (\<forall>t \<in> set (filter (\<lambda>t. 0 < t) (fst (adopt_run g ts))). last_ts g \<le> t)"
  using assms
proof (induction ts arbitrary: g)
  case (Cons t ts)
  obtain ok g' where a: "cq_guard_accept_ts g t = (ok, g')" by (cases "cq_guard_accept_ts g t")
  then have m: "last_ts g' = max (last_ts g) t" using accept_mark [OF Cons.prems, of t] by simp
  have ok: "ok \<longleftrightarrow> t \<le> 0 \<or> last_ts g \<le> t" using accept_iff [OF Cons.prems, of t] a by simp
  from m have "0 \<le> last_ts g'" using Cons.prems by simp
  from Cons.IH [OF this] m ok show ?case by (auto simp: a split_beta)
qed simp

text \<open>
  A run drops exactly the positive timestamps that are behind some earlier one.
\<close>

lemma run_adopts:
  assumes "0 \<le> last_ts g"
  shows "fst (adopt_run g (ts @ [t])) =
    fst (adopt_run g ts) @ (if t \<le> 0 \<or> foldl max (last_ts g) ts \<le> t then [t] else [])"
  using assms
proof (induction ts arbitrary: g)
  case Nil
  then show ?case using accept_iff [OF Nil, of t] by (simp add: split_beta)
next
  case (Cons u ts)
  obtain ok g' where a: "cq_guard_accept_ts g u = (ok, g')" by (cases "cq_guard_accept_ts g u")
  then have m: "last_ts g' = max (last_ts g) u" using accept_mark [OF Cons.prems, of u] by simp
  then have "0 \<le> last_ts g'" using Cons.prems by simp
  from Cons.IH [OF this] show ?case by (simp add: a m split_beta)
qed

subsection \<open>Properties\<close>

text \<open>From a fresh or reset guard, whatever order the replicas answer in, the known
timestamps the guard adopts never go back, an unknown timestamp is always adopted and never
moves the mark, and a snapshot is dropped exactly when its known timestamp is behind one seen
earlier in the run.\<close>

lemma guard_monotone:
  "(\<forall>ts. sorted (filter (\<lambda>t. 0 < t) (fst (adopt_run (cq_guard_reset g) ts)))) \<and>
   (\<forall>ts t. fst (adopt_run (cq_guard_reset g) (ts @ [t])) =
      fst (adopt_run (cq_guard_reset g) ts) @
      (if t \<le> 0 \<or> (\<forall>u \<in> set ts. u \<le> t) then [t] else [])) \<and>
   (\<forall>ts. last_ts (snd (adopt_run (cq_guard_reset g) ts)) = foldl max 0 ts) \<and>
   cq_guard_init g = cq_guard_reset g"
proof -
  have z: "last_ts (cq_guard_reset g) = 0" by (simp add: cq_guard_reset_def)
  have fold_le: "foldl max a ts \<le> t \<longleftrightarrow> a \<le> t \<and> (\<forall>u \<in> set ts. u \<le> t)" for a t :: int and ts
    by (induction ts arbitrary: a) auto
  have iff: "(t \<le> 0 \<or> foldl max 0 ts \<le> t) \<longleftrightarrow> (t \<le> 0 \<or> (\<forall>u \<in> set ts. u \<le> t))" for t :: int and ts
    unfolding fold_le by auto
  show ?thesis
    using run_sorted [of "cq_guard_reset g"] run_adopts [of "cq_guard_reset g"]
      run_mark [of "cq_guard_reset g"]
    by (simp add: z iff cq_guard_init_def cq_guard_reset_def)
qed

end
