(* ===== verification/Debounce.thy ===== *)
theory Debounce
  imports Prelude
begin

text \<open>
  The one-slot, last-value-wins coalescer of the Reconciler (\<open>cq_debounce.c\<close>). A taken value
  is gone, so a tap is on the wire at most once. The owned heap copy is its contents; allocation
  is taken to succeed.
\<close>

record cq_debounce =
  pending :: "cstr option"

definition cq_debounce_init :: "cq_debounce \<Rightarrow> cq_debounce" where
  "cq_debounce_init d = d\<lparr>pending := None\<rparr>"

definition dup_str :: "cstr option \<Rightarrow> cstr option" where
  "dup_str s = (case s of None \<Rightarrow> None | Some t \<Rightarrow> Some (cview t))"

definition cq_debounce_set :: "cq_debounce \<Rightarrow> cstr option \<Rightarrow> cq_debounce" where
  "cq_debounce_set d v = d\<lparr>pending := dup_str v\<rparr>"

definition cq_debounce_has :: "cq_debounce \<Rightarrow> bool" where
  "cq_debounce_has d \<longleftrightarrow> pending d \<noteq> None"

definition cq_debounce_take :: "cq_debounce \<Rightarrow> cstr option \<times> cq_debounce" where
  "cq_debounce_take d = (pending d, d\<lparr>pending := None\<rparr>)"

definition cq_debounce_free :: "cq_debounce \<Rightarrow> cq_debounce" where
  "cq_debounce_free d = d\<lparr>pending := None\<rparr>"

subsection \<open>Sessions of taps and flushes\<close>

datatype tap = Set "cstr option" | Take

definition tap_step :: "cq_debounce \<Rightarrow> tap \<Rightarrow> cstr list \<times> cq_debounce" where
  "tap_step d e = (case e of
       Set v \<Rightarrow> ([], cq_debounce_set d v)
     | Take \<Rightarrow> (case cq_debounce_take d of
           (None, d') \<Rightarrow> ([], d')
         | (Some v, d') \<Rightarrow> ([v], d')))"

fun tap_run :: "cq_debounce \<Rightarrow> tap list \<Rightarrow> cstr list \<times> cq_debounce" where
  "tap_run d [] = ([], d)"
| "tap_run d (e # es) =
     (case tap_step d e of (out, d') \<Rightarrow>
      case tap_run d' es of (out', d'') \<Rightarrow> (out @ out', d''))"

text \<open>What the session should send: at each flush the last tap since the flush before it.\<close>

fun sent_spec :: "cstr option \<Rightarrow> tap list \<Rightarrow> cstr list" where
  "sent_spec p [] = []"
| "sent_spec p (Set v # es) = sent_spec (dup_str v) es"
| "sent_spec p (Take # es) = (case p of None \<Rightarrow> [] | Some v \<Rightarrow> [v]) @ sent_spec None es"

lemma tap_run_append:
  "tap_run d (es @ fs) =
     (case tap_run d es of (out, d') \<Rightarrow> case tap_run d' fs of (out', d'') \<Rightarrow> (out @ out', d''))"
  by (induction es arbitrary: d) (simp_all split: prod.splits)

lemma tap_run_spec: "fst (tap_run d es) = sent_spec (pending d) es"
proof (induction es arbitrary: d)
  case (Cons e es)
  show ?case
  proof (cases e)
    case (Set v)
    then show ?thesis
      using Cons.IH [of "cq_debounce_set d v"]
      by (simp add: tap_step_def cq_debounce_set_def split: prod.splits)
  next
    case Take
    then show ?thesis using Cons.IH [of "d\<lparr>pending := None\<rparr>"]
      by (cases "pending d") (simp_all add: tap_step_def cq_debounce_take_def split_beta)
  qed
qed simp

lemma tap_run_sets:
  "vs \<noteq> [] \<Longrightarrow> tap_run d (map Set vs) = ([], d\<lparr>pending := dup_str (last vs)\<rparr>)"
  by (induction vs arbitrary: d) (auto simp: tap_step_def cq_debounce_set_def)

lemma takes_bound:
  "length (fst (tap_run d es)) \<le>
     length (filter (\<lambda>e. \<exists>v. e = Set (Some v)) es) + (if cq_debounce_has d then 1 else 0)"
proof (induction es arbitrary: d)
  case (Cons e es)
  obtain out d' where s: "tap_step d e = (out, d')" by (cases "tap_step d e")
  from Cons.IH [of d'] s show ?case
    by (cases e) (auto simp: tap_step_def cq_debounce_has_def cq_debounce_set_def
        cq_debounce_take_def dup_str_def split: option.splits prod.splits if_splits)
qed simp

subsection \<open>Properties\<close>

text \<open>Cancel is not un-send: each flush sends exactly the last tap since the flush before it; a burst of taps followed by a flush sends the last tap alone, a
second flush with no tap between sends nothing, and over a whole session no more values go out
than taps came in.\<close>

lemma debounce_last_wins_once:
  "(\<forall>es. fst (tap_run d es) = sent_spec (pending d) es) \<and>
   (\<forall>vs v. fst (tap_run d (map Set vs @ [Set (Some v), Take])) = [cview v]) \<and>
   (\<forall>es. fst (tap_run d (es @ [Take, Take])) = fst (tap_run d (es @ [Take]))) \<and>
   (\<forall>es. length (fst (tap_run (cq_debounce_init d) es)) \<le>
      length (filter (\<lambda>e. \<exists>v. e = Set (Some v)) es))"
proof (intro conjI allI)
  show "fst (tap_run d es) = sent_spec (pending d) es" for es by (rule tap_run_spec)
next
  fix vs v
  have "tap_run d (map Set (vs @ [Some v])) = ([], d\<lparr>pending := Some (cview v)\<rparr>)"
    using tap_run_sets [of "vs @ [Some v]" d] by (simp add: dup_str_def)
  then have "tap_run d ((map Set vs @ [Set (Some v)]) @ [Take]) = ([cview v], d\<lparr>pending := None\<rparr>)"
    by (simp only: tap_run_append map_append list.map) (simp add: tap_step_def cq_debounce_take_def)
  then show "fst (tap_run d (map Set vs @ [Set (Some v), Take])) = [cview v]" by simp
next
  fix es
  show "fst (tap_run d (es @ [Take, Take])) = fst (tap_run d (es @ [Take]))"
    by (simp add: tap_run_append tap_step_def cq_debounce_take_def split: prod.splits option.splits)
next
  fix es
  show "length (fst (tap_run (cq_debounce_init d) es)) \<le>
      length (filter (\<lambda>e. \<exists>v. e = Set (Some v)) es)"
    using takes_bound [of "cq_debounce_init d" es] by (simp add: cq_debounce_has_def cq_debounce_init_def)
qed

end
