(* ===== verification/Backoff.thy ===== *)
theory Backoff
  imports Prelude
begin

text \<open>
  Exponential poll backoff (\<open>cq_backoff.c\<close>). A \<open>long\<close> is 32 bits, so the doubling is
  reduced to that width and the source's overflow guard is a branch that can be taken; the seed
  and the mix are 32-bit words.
\<close>

record cq_backoff =
  base :: int
  cap :: int
  current :: int

definition cq_backoff_init :: "int \<Rightarrow> int \<Rightarrow> cq_backoff" where
  "cq_backoff_init b c =
     (let b' = (if b < 1 then 1 else b); c' = (if c < b' then b' else c)
      in \<lparr>base = b', cap = c', current = b'\<rparr>)"

definition cq_backoff_interval :: "cq_backoff \<Rightarrow> int" where
  "cq_backoff_interval b = current b"

definition cq_backoff_interval_seeded :: "cq_backoff \<Rightarrow> u32 \<Rightarrow> int" where
  "cq_backoff_interval_seeded b seed =
     (let span = tdiv (current b) 4 in
      if span \<le> 0 then current b
      else let mix = seed * 2654435761 + 40503
           in wrap32 (current b + int (unat mix mod nat (span + 1))))"

definition cq_backoff_ok :: "cq_backoff \<Rightarrow> cq_backoff" where
  "cq_backoff_ok b = b\<lparr>current := base b\<rparr>"

definition cq_backoff_fail :: "cq_backoff \<Rightarrow> cq_backoff" where
  "cq_backoff_fail b =
     (let next = wrap32 (current b * 2);
          next = (if next > cap b then cap b else next);
          next = (if next < current b then cap b else next)
      in b\<lparr>current := next\<rparr>)"

subsection \<open>The invariant\<close>

definition backoff_ok :: "cq_backoff \<Rightarrow> bool" where
  "backoff_ok b \<longleftrightarrow> 1 \<le> base b \<and> base b \<le> current b \<and> current b \<le> cap b \<and> cap b < 2 ^ 31"

lemma wrap32_double:
  assumes "0 \<le> x" "x < 2 ^ 31"
  shows "wrap32 (x * 2) = (if x < 2 ^ 30 then x * 2 else x * 2 - 2 ^ 32)"
proof (cases "x < 2 ^ 30")
  case True
  then show ?thesis using assms by (simp add: wrap32_id)
next
  case False
  have "wrap32 (x * 2) = wrap32 (x * 2 - 2 ^ 32)"
    unfolding wrap32_def
    by (rule signed_take_bit_eq_iff_take_bit_eq [THEN iffD2]) (simp add: take_bit_eq_mod mod_diff_eq)
  then show ?thesis using False assms by (simp add: wrap32_id)
qed

lemma fail_current:
  assumes "backoff_ok b"
  shows "cq_backoff_fail b = b\<lparr>current := min (cap b) (current b * 2)\<rparr>"
proof -
  have "0 \<le> current b" "current b < 2 ^ 31" using assms by (auto simp: backoff_ok_def)
  note w = wrap32_double [OF this]
  show ?thesis using assms by (auto simp: cq_backoff_fail_def Let_def w backoff_ok_def)
qed

lemma init_ok: "c < 2 ^ 31 \<Longrightarrow> b < 2 ^ 31 \<Longrightarrow> backoff_ok (cq_backoff_init b c)"
  by (auto simp: cq_backoff_init_def backoff_ok_def Let_def)

lemma ok_ok: "backoff_ok b \<Longrightarrow> backoff_ok (cq_backoff_ok b)"
  by (auto simp: cq_backoff_ok_def backoff_ok_def)

lemma backoff_fail_ok: "backoff_ok b \<Longrightarrow> backoff_ok (cq_backoff_fail b)"
  by (auto simp: fail_current) (auto simp: backoff_ok_def min_def)

text \<open>A schedule of replies: True is a healthy one.\<close>

definition backoff_run :: "cq_backoff \<Rightarrow> bool list \<Rightarrow> cq_backoff" where
  "backoff_run = foldl (\<lambda>b good. if good then cq_backoff_ok b else cq_backoff_fail b)"

lemma run_invariant:
  assumes "backoff_ok b"
  shows "backoff_ok (backoff_run b rs) \<and> base (backoff_run b rs) = base b \<and> cap (backoff_run b rs) = cap b"
  using assms
proof (induction rs arbitrary: b)
  case Nil
  then show ?case by (simp add: backoff_run_def)
next
  case (Cons r rs)
  let ?b = "if r then cq_backoff_ok b else cq_backoff_fail b"
  have "backoff_ok ?b" "base ?b = base b" "cap ?b = cap b"
    using Cons.prems by (simp_all add: ok_ok backoff_fail_ok) (simp_all add: cq_backoff_ok_def fail_current)
  with Cons.IH [of ?b] show ?case by (simp add: backoff_run_def)
qed

lemma fails_current:
  assumes "backoff_ok b"
  shows "current (backoff_run b (replicate n False)) = min (cap b) (current b * 2 ^ n)"
  using assms
proof (induction n arbitrary: b)
  case 0
  then show ?case by (simp add: backoff_run_def backoff_ok_def)
next
  case (Suc n)
  have "current (backoff_run b (replicate (Suc n) False)) =
      current (backoff_run (cq_backoff_fail b) (replicate n False))"
    by (simp add: backoff_run_def)
  also have "\<dots> = min (cap b) (min (cap b) (current b * 2) * 2 ^ n)"
    using Suc.IH [OF backoff_fail_ok [OF Suc.prems]] by (simp add: fail_current [OF Suc.prems])
  also have "\<dots> = min (cap b) (current b * 2 ^ Suc n)"
  proof -
    have c: "0 \<le> cap b" using Suc.prems by (simp add: backoff_ok_def)
    have "cap b * 1 \<le> cap b * 2 ^ n" using c by (intro mult_left_mono) auto
    moreover have "current b * 2 * 1 \<le> current b * 2 * 2 ^ n"
      using Suc.prems by (intro mult_left_mono) (auto simp: backoff_ok_def)
    ultimately show ?thesis by (auto simp: min_def algebra_simps)
  qed
  finally show ?case .
qed

lemma run_last_ok:
  "backoff_run b (rs @ True # replicate n False) =
     backoff_run (cq_backoff_ok (backoff_run b rs)) (replicate n False)"
  by (simp add: backoff_run_def)

lemma jitter_fits:
  assumes "1 \<le> c" "c < 2 ^ 30" "0 \<le> j" "j \<le> c div 4"
  shows "wrap32 (c + j) = c + j"
  using assms by (intro wrap32_id) auto

lemma seeded_bounds:
  assumes "1 \<le> current b" "current b < 2 ^ 30"
  shows "current b \<le> cq_backoff_interval_seeded b seed"
    and "cq_backoff_interval_seeded b seed \<le> current b + current b div 4"
proof -
  let ?c = "current b"
  have d: "tdiv ?c 4 = ?c div 4" using assms by (simp add: tdiv_pos)
  let ?j = "int (unat (seed * 2654435761 + 40503) mod nat (?c div 4 + 1))"
  have j: "0 < ?c div 4 \<Longrightarrow> ?j \<le> ?c div 4"
  proof -
    assume "0 < ?c div 4"
    then have "unat (seed * 2654435761 + 40503) mod nat (?c div 4 + 1) < nat (?c div 4 + 1)" by simp
    then show ?thesis by linarith
  qed
  have w: "0 < ?c div 4 \<Longrightarrow> wrap32 (?c + ?j) = ?c + ?j"
    by (rule jitter_fits) (use j assms in auto)
  show "?c \<le> cq_backoff_interval_seeded b seed"
    using w by (auto simp: cq_backoff_interval_seeded_def d Let_def)
  show "cq_backoff_interval_seeded b seed \<le> ?c + ?c div 4"
    using w j assms by (cases "0 < ?c div 4") (auto simp: cq_backoff_interval_seeded_def d Let_def)
qed

subsection \<open>Properties\<close>

text \<open>Whatever the history of replies, after a healthy reply and then \<open>n\<close> failures the
interval is the base doubled \<open>n\<close> times, capped, even where the 32-bit doubling overflows;
and the interval never leaves the range from base to cap.\<close>

lemma backoff_exponential:
  assumes "backoff_ok b"
  shows "cq_backoff_interval (backoff_run b (rs @ True # replicate n False)) =
           min (cap b) (base b * 2 ^ n) \<and>
         base b \<le> cq_backoff_interval (backoff_run b rs) \<and>
         cq_backoff_interval (backoff_run b rs) \<le> cap b"
proof -
  let ?r = "backoff_run b rs"
  have r: "backoff_ok ?r" "base ?r = base b" "cap ?r = cap b" using run_invariant [OF assms] by auto
  have "current (backoff_run (cq_backoff_ok ?r) (replicate n False)) = min (cap b) (base b * 2 ^ n)"
    using fails_current [OF ok_ok [OF r(1)], of n] r by (simp add: cq_backoff_ok_def)
  then show ?thesis using r by (simp add: cq_backoff_interval_def run_last_ok backoff_ok_def)
qed

text \<open>Jitter only ever waits longer, by at most a quarter of the current interval: for every
seed the seeded interval lies between the interval and five quarters of it.\<close>

lemma backoff_jitter_bounds:
  assumes "1 \<le> current b" "current b < 2 ^ 30"
  shows "cq_backoff_interval b \<le> cq_backoff_interval_seeded b seed \<and>
         cq_backoff_interval_seeded b seed \<le> cq_backoff_interval b + cq_backoff_interval b div 4"
  using seeded_bounds [OF assms] by (simp add: cq_backoff_interval_def)

end
