(* ===== verification/Cache.thy ===== *)
theory Cache
  imports Prelude
begin

text \<open>
  The fixed-slot, FIFO, string-keyed cover memory (\<open>cq_cache.c\<close>). A slot array is a list of
  eight elements of which the first \<open>used\<close> count; a payload pointer is an optional value,
  NULL being None. Keys are stored and compared truncated to 63 bytes.
\<close>

abbreviation CQ_CACHE_SLOTS :: nat where "CQ_CACHE_SLOTS \<equiv> 8"
abbreviation CQ_CACHE_KEYMAX :: nat where "CQ_CACHE_KEYMAX \<equiv> 64"

record 'v cq_cache =
  ckeys :: "cstr list"
  cvals :: "'v option list"
  cused :: nat

definition key_copy :: "cstr option \<Rightarrow> cstr" where
  "key_copy src = fits CQ_CACHE_KEYMAX (cview (case src of None \<Rightarrow> [] | Some s \<Rightarrow> s))"

function key_scan :: "'v cq_cache \<Rightarrow> cstr \<Rightarrow> nat \<Rightarrow> nat option" where
  "key_scan c k i =
     (if i < cused c then (if ckeys c ! i = k then Some i else key_scan c k (i + 1)) else None)"
  by pat_completeness auto
termination by (relation "measure (\<lambda>(c, k, i). cused c - i)") auto

declare key_scan.simps [simp del]

definition key_find :: "'v cq_cache \<Rightarrow> cstr option \<Rightarrow> nat option" where
  "key_find c key = key_scan c (key_copy key) 0"

definition cq_cache_init :: "'v cq_cache" where
  "cq_cache_init = \<lparr>ckeys = replicate CQ_CACHE_SLOTS [], cvals = replicate CQ_CACHE_SLOTS None, cused = 0\<rparr>"

definition cq_cache_count :: "'v cq_cache \<Rightarrow> nat" where
  "cq_cache_count c = cused c"

definition cq_cache_has :: "'v cq_cache \<Rightarrow> cstr option \<Rightarrow> bool" where
  "cq_cache_has c key \<longleftrightarrow> key_find c key \<noteq> None"

definition cq_cache_get :: "'v cq_cache \<Rightarrow> cstr option \<Rightarrow> 'v option" where
  "cq_cache_get c key = (case key_find c key of Some i \<Rightarrow> cvals c ! i | None \<Rightarrow> None)"

function shift_loop :: "nat \<Rightarrow> 'v cq_cache \<Rightarrow> 'v cq_cache" where
  "shift_loop i c =
     (if i < cused c
      then shift_loop (i + 1)
        (c\<lparr>ckeys := (ckeys c)[i - 1 := ckeys c ! i], cvals := (cvals c)[i - 1 := cvals c ! i]\<rparr>)
      else c)"
  by pat_completeness auto
termination by (relation "measure (\<lambda>(i, c). cused c - i)") auto

declare shift_loop.simps [simp del]

definition shift_out_oldest :: "'v cq_cache \<Rightarrow> 'v option \<times> 'v cq_cache" where
  "shift_out_oldest c = (let c' = shift_loop 1 c in (cvals c ! 0, c'\<lparr>cused := cused c' - 1\<rparr>))"

definition cq_cache_put :: "'v cq_cache \<Rightarrow> cstr option \<Rightarrow> 'v option \<Rightarrow> 'v option \<times> 'v cq_cache" where
  "cq_cache_put c key val =
     (case key_find c key of
        Some i \<Rightarrow> (cvals c ! i, c\<lparr>cvals := (cvals c)[i := val]\<rparr>)
      | None \<Rightarrow>
          (let (displaced, c) = (if cused c = CQ_CACHE_SLOTS then shift_out_oldest c else (None, c))
           in (displaced, c\<lparr>ckeys := (ckeys c)[cused c := key_copy key],
                            cvals := (cvals c)[cused c := val],
                            cused := cused c + 1\<rparr>)))"

definition cq_cache_take_oldest :: "'v cq_cache \<Rightarrow> 'v option \<times> 'v cq_cache" where
  "cq_cache_take_oldest c = (if cused c = 0 then (None, c) else shift_out_oldest c)"

subsection \<open>The abstract bounded queue of entries\<close>

definition entries :: "'v cq_cache \<Rightarrow> (cstr \<times> 'v option) list" where
  "entries c = zip (take (cused c) (ckeys c)) (take (cused c) (cvals c))"

definition cache_ok :: "'v cq_cache \<Rightarrow> bool" where
  "cache_ok c \<longleftrightarrow> length (ckeys c) = CQ_CACHE_SLOTS \<and> length (cvals c) = CQ_CACHE_SLOTS \<and>
     cused c \<le> CQ_CACHE_SLOTS \<and> distinct (take (cused c) (ckeys c)) \<and>
     (\<forall>k \<in> set (take (cused c) (ckeys c)). length k < CQ_CACHE_KEYMAX)"

definition spec_put ::
  "(cstr \<times> 'v option) list \<Rightarrow> cstr \<Rightarrow> 'v option \<Rightarrow> 'v option \<times> (cstr \<times> 'v option) list" where
  "spec_put es k v =
     (case map_of es k of
        Some old \<Rightarrow> (old, map (\<lambda>(k', w). if k' = k then (k', v) else (k', w)) es)
      | None \<Rightarrow> if length es = CQ_CACHE_SLOTS then (snd (hd es), tl es @ [(k, v)])
                else (None, es @ [(k, v)]))"

definition cache_keys :: "'v cq_cache \<Rightarrow> cstr list" where
  "cache_keys c = take (cused c) (ckeys c)"

lemma key_copy_length: "length (key_copy k) < CQ_CACHE_KEYMAX"
  unfolding key_copy_def by (rule length_fits_less) simp

lemma length_entries: "cache_ok c \<Longrightarrow> length (entries c) = cused c"
  by (simp add: entries_def cache_ok_def)

lemma map_fst_entries: "cache_ok c \<Longrightarrow> map fst (entries c) = cache_keys c"
  by (simp add: entries_def cache_ok_def cache_keys_def)

lemma entries_nth: "cache_ok c \<Longrightarrow> i < cused c \<Longrightarrow> entries c ! i = (ckeys c ! i, cvals c ! i)"
  by (simp add: entries_def cache_ok_def)

lemma key_scan_spec:
  "case key_scan c k i of
     None \<Rightarrow> \<forall>j. i \<le> j \<and> j < cused c \<longrightarrow> ckeys c ! j \<noteq> k
   | Some j \<Rightarrow> i \<le> j \<and> j < cused c \<and> ckeys c ! j = k"
proof (induction c k i rule: key_scan.induct)
  case (1 c k i)
  show ?case
  proof (cases "i < cused c \<and> ckeys c ! i \<noteq> k")
    case True
    then have "key_scan c k i = key_scan c k (i + 1)" by (simp add: key_scan.simps [of c k i])
    with True "1.IH" show ?thesis
      by (auto split: option.splits dest: Suc_leI le_neq_implies_less)
  qed (auto simp: key_scan.simps [of c k i])
qed

lemma key_find_Some:
  "key_find c key = Some i \<Longrightarrow> i < cused c \<and> ckeys c ! i = key_copy key"
  using key_scan_spec [where c = c and k = "key_copy key" and i = 0] by (simp add: key_find_def)

lemma key_find_None:
  assumes "cache_ok c"
  shows "key_find c key = None \<longleftrightarrow> key_copy key \<notin> set (cache_keys c)"
proof -
  have "set (cache_keys c) = {ckeys c ! j |j. j < cused c}"
    using assms by (auto simp: cache_keys_def cache_ok_def in_set_conv_nth) (metis nth_take)+
  then show ?thesis
    using key_scan_spec [where c = c and k = "key_copy key" and i = 0] by (auto simp: key_find_def split: option.splits)
qed

lemma get_spec:
  assumes "cache_ok c"
  shows "cq_cache_get c key = Option.bind (map_of (entries c) (key_copy key)) id"
proof (cases "key_find c key")
  case None
  then have "map_of (entries c) (key_copy key) = None"
    using key_find_None [OF assms] map_fst_entries [OF assms]
    by (metis map_of_eq_None_iff list.set_map)
  with None show ?thesis by (simp add: cq_cache_get_def)
next
  case (Some i)
  note i = key_find_Some [OF Some]
  then have "(key_copy key, cvals c ! i) \<in> set (entries c)"
    using entries_nth [OF assms, of i] length_entries [OF assms] by (metis nth_mem)
  moreover have "distinct (map fst (entries c))"
    using assms by (simp add: map_fst_entries cache_keys_def cache_ok_def)
  ultimately have "map_of (entries c) (key_copy key) = Some (cvals c ! i)" by simp
  with Some show ?thesis by (simp add: cq_cache_get_def)
qed

text \<open>The shift moves every used slot down by one.\<close>

lemma shift_loop_frame [simp]:
  "cused (shift_loop i c) = cused c"
  "length (ckeys (shift_loop i c)) = length (ckeys c)"
  "length (cvals (shift_loop i c)) = length (cvals c)"
  by (induction i c rule: shift_loop.induct; subst shift_loop.simps, simp)+

lemma shift_loop_nth:
  assumes "cused c \<le> length (ckeys c)" "cused c \<le> length (cvals c)" "1 \<le> i"
  shows "ckeys (shift_loop i c) ! j =
      (if i \<le> j + 1 \<and> j + 1 < cused c then ckeys c ! (j + 1) else ckeys c ! j) \<and>
    cvals (shift_loop i c) ! j =
      (if i \<le> j + 1 \<and> j + 1 < cused c then cvals c ! (j + 1) else cvals c ! j)"
  using assms
proof (induction i c rule: shift_loop.induct)
  case (1 i c)
  show ?case
  proof (cases "i < cused c")
    case True
    let ?c = "c\<lparr>ckeys := (ckeys c)[i - 1 := ckeys c ! i], cvals := (cvals c)[i - 1 := cvals c ! i]\<rparr>"
    have s: "shift_loop i c = shift_loop (i + 1) ?c" using True by (simp add: shift_loop.simps [of i c])
    have l: "i - 1 < length (ckeys c)" "i - 1 < length (cvals c)" using True "1.prems" by auto
    have r: "cused ?c = cused c" "ckeys ?c = (ckeys c)[i - 1 := ckeys c ! i]"
      "cvals ?c = (cvals c)[i - 1 := cvals c ! i]" by simp_all
    have ih: "ckeys (shift_loop (i + 1) ?c) ! j =
        (if i + 1 \<le> j + 1 \<and> j + 1 < cused c then ckeys ?c ! (j + 1) else ckeys ?c ! j) \<and>
      cvals (shift_loop (i + 1) ?c) ! j =
        (if i + 1 \<le> j + 1 \<and> j + 1 < cused c then cvals ?c ! (j + 1) else cvals ?c ! j)"
      using "1.IH" [OF True] "1.prems" by (simp only: r length_list_update; simp)
    consider "j + 1 < i" | "j + 1 = i" | "i \<le> j" by linarith
    then show ?thesis
    proof cases
      case 1
      then show ?thesis unfolding s using ih by (simp only: r; simp)
    next
      case 2
      then have i: "i = j + 1" by simp
      then show ?thesis unfolding s using ih l True
        by (simp add: r)
    next
      case 3
      then have "i - 1 \<noteq> j" "i - 1 \<noteq> j + 1" using "1.prems" by auto
      with 3 show ?thesis unfolding s using ih by (simp only: r nth_list_update_neq; simp)
    qed
  next
    case False
    then have "shift_loop i c = c" by (simp add: shift_loop.simps [of i c])
    with False show ?thesis by auto
  qed
qed

lemma take_tl_nth:
  assumes "length xs = length ys" "n \<le> length xs" "\<And>j. j + 1 < n \<Longrightarrow> ys ! j = xs ! (j + 1)"
  shows "take (n - 1) ys = tl (take n xs)"
  using assms by (intro nth_equalityI) (auto simp: nth_tl)

lemma shift_out_spec:
  assumes "cache_ok c" "0 < cused c"
  shows "fst (shift_out_oldest c) = snd (hd (entries c))"
    and "entries (snd (shift_out_oldest c)) = tl (entries c)"
    and "cache_ok (snd (shift_out_oldest c))"
    and "cused (snd (shift_out_oldest c)) = cused c - 1"
proof -
  note ok = assms [unfolded cache_ok_def]
  let ?c = "snd (shift_out_oldest c)" and ?s = "shift_loop 1 c"
  have c: "?c = ?s\<lparr>cused := cused c - 1\<rparr>" by (simp add: shift_out_oldest_def Let_def)
  then show u: "cused ?c = cused c - 1" by simp
  have n: "j + 1 < cused c \<Longrightarrow> ckeys ?s ! j = ckeys c ! (j + 1) \<and> cvals ?s ! j = cvals c ! (j + 1)" for j
    using shift_loop_nth [of c 1 j] ok by simp
  have ks: "take (cused ?c) (ckeys ?c) = tl (take (cused c) (ckeys c))"
    unfolding u using ok n by (simp only: c cq_cache.simps, intro take_tl_nth) auto
  have vs: "take (cused ?c) (cvals ?c) = tl (take (cused c) (cvals c))"
    unfolding u using ok n by (simp only: c cq_cache.simps, intro take_tl_nth) auto
  show "entries ?c = tl (entries c)"
    unfolding entries_def ks vs
    by (cases "take (cused c) (ckeys c)"; cases "take (cused c) (cvals c)") (use assms ok in auto)
  have "entries c \<noteq> []" using length_entries [OF assms(1)] assms(2) by auto
  then show "fst (shift_out_oldest c) = snd (hd (entries c))"
    using entries_nth [OF assms] by (simp add: shift_out_oldest_def Let_def hd_conv_nth)
  have "set (tl (take (cused c) (ckeys c))) \<subseteq> set (take (cused c) (ckeys c))"
    by (cases "take (cused c) (ckeys c)") auto
  then show "cache_ok ?c"
    unfolding cache_ok_def ks using ok by (auto simp: c distinct_tl)
qed

lemma entries_append:
  assumes "cache_ok c" "cused c < CQ_CACHE_SLOTS"
  shows "entries (c\<lparr>ckeys := (ckeys c)[cused c := k], cvals := (cvals c)[cused c := v],
           cused := cused c + 1\<rparr>) = entries c @ [(k, v)]"
  using assms by (simp add: entries_def cache_ok_def take_Suc_conv_app_nth)

lemma cache_ok_append:
  assumes "cache_ok c" "cused c < CQ_CACHE_SLOTS" "k \<notin> set (cache_keys c)" "length k < CQ_CACHE_KEYMAX"
  shows "cache_ok (c\<lparr>ckeys := (ckeys c)[cused c := k], cvals := v, cused := cused c + 1\<rparr>) \<longleftrightarrow>
    length v = CQ_CACHE_SLOTS"
  using assms by (auto simp: cache_ok_def cache_keys_def take_Suc_conv_app_nth)

lemma entries_replace:
  assumes "cache_ok c" "i < cused c"
  shows "entries (c\<lparr>cvals := (cvals c)[i := v]\<rparr>) =
    map (\<lambda>(k', w). if k' = ckeys c ! i then (k', v) else (k', w)) (entries c)"
proof (rule nth_equalityI)
  have ok: "cache_ok (c\<lparr>cvals := (cvals c)[i := v]\<rparr>)" using assms by (simp add: cache_ok_def)
  show "length (entries (c\<lparr>cvals := (cvals c)[i := v]\<rparr>)) =
    length (map (\<lambda>(k', w). if k' = ckeys c ! i then (k', v) else (k', w)) (entries c))"
    by (simp add: length_entries [OF ok] length_entries [OF assms(1)])
  fix j assume "j < length (entries (c\<lparr>cvals := (cvals c)[i := v]\<rparr>))"
  then have j: "j < cused c" by (simp add: length_entries [OF ok])
  have "j < length (ckeys c)" "i < length (ckeys c)" "j < length (cvals c)"
    using assms j by (auto simp: cache_ok_def)
  moreover have "ckeys c ! j = ckeys c ! i \<longleftrightarrow> j = i"
    using assms j nth_eq_iff_index_eq [of "take (cused c) (ckeys c)" j i] by (auto simp: cache_ok_def)
  ultimately show "entries (c\<lparr>cvals := (cvals c)[i := v]\<rparr>) ! j =
      map (\<lambda>(k', w). if k' = ckeys c ! i then (k', v) else (k', w)) (entries c) ! j"
    using entries_nth [OF ok, of j] entries_nth [OF assms(1) j] j
    by (simp add: length_entries [OF assms(1)])
qed

lemma map_of_entries_Some:
  assumes "cache_ok c" "i < cused c"
  shows "map_of (entries c) (ckeys c ! i) = Some (cvals c ! i)"
proof -
  have "(ckeys c ! i, cvals c ! i) \<in> set (entries c)"
    using entries_nth [OF assms] length_entries [OF assms(1)] assms(2) by (metis nth_mem)
  moreover have "distinct (map fst (entries c))"
    using assms by (simp add: map_fst_entries cache_keys_def cache_ok_def)
  ultimately show ?thesis by simp
qed

lemma map_of_entries_None:
  "cache_ok c \<Longrightarrow> map_of (entries c) k = None \<longleftrightarrow> k \<notin> set (cache_keys c)"
  using map_fst_entries [of c] by (metis map_of_eq_None_iff list.set_map)

lemma put_refines:
  assumes "cache_ok c"
  shows "cache_ok (snd (cq_cache_put c key v)) \<and>
    (fst (cq_cache_put c key v), entries (snd (cq_cache_put c key v))) = spec_put (entries c) (key_copy key) v"
proof (cases "key_find c key")
  case (Some i)
  note i = key_find_Some [OF Some]
  then have "map_of (entries c) (key_copy key) = Some (cvals c ! i)"
    using map_of_entries_Some [OF assms, of i] by simp
  with Some i show ?thesis
    using assms entries_replace [OF assms, of i v] by (simp add: cq_cache_put_def spec_put_def cache_ok_def)
next
  case None
  then have n: "key_copy key \<notin> set (cache_keys c)" using key_find_None [OF assms] by blast
  then have m: "map_of (entries c) (key_copy key) = None" by (simp add: map_of_entries_None [OF assms])
  show ?thesis
  proof (cases "cused c = CQ_CACHE_SLOTS")
    case False
    then have u: "cused c < CQ_CACHE_SLOTS" using assms by (simp add: cache_ok_def)
    have "length (cvals c) = CQ_CACHE_SLOTS" using assms by (simp add: cache_ok_def)
    then show ?thesis
      using None m False entries_append [OF assms u, where k = "key_copy key" and v = v]
        cache_ok_append [OF assms u n key_copy_length, where v = "(cvals c)[cused c := v]"]
      by (simp add: cq_cache_put_def spec_put_def length_entries [OF assms])
  next
    case True
    let ?d = "snd (shift_out_oldest c)"
    have p: "0 < cused c" using True by simp
    note sh = shift_out_spec [OF assms p]
    have u: "cused ?d < CQ_CACHE_SLOTS" using sh(4) True by simp
    have "cache_keys ?d = tl (cache_keys c)"
      using sh(2,3) map_fst_entries [OF sh(3)] map_fst_entries [OF assms] by (metis map_tl)
    then have n': "key_copy key \<notin> set (cache_keys ?d)" using n by (cases "cache_keys c") auto
    have "length (cvals ?d) = CQ_CACHE_SLOTS" using sh(3) by (simp add: cache_ok_def)
    then show ?thesis
      using None m True entries_append [OF sh(3) u, where k = "key_copy key" and v = v] sh
        cache_ok_append [OF sh(3) u n' key_copy_length, where v = "(cvals ?d)[cused ?d := v]"]
      by (simp add: cq_cache_put_def spec_put_def length_entries [OF assms] split_beta)
  qed
qed

lemma has_spec: "cache_ok c \<Longrightarrow> cq_cache_has c key \<longleftrightarrow> key_copy key \<in> set (cache_keys c)"
  by (simp add: cq_cache_has_def key_find_None)

lemma init_cache_ok: "cache_ok cq_cache_init"
  by (simp add: cache_ok_def cq_cache_init_def)

lemma take_oldest_spec:
  assumes "cache_ok c"
  shows "cache_ok (snd (cq_cache_take_oldest c)) \<and>
    entries (snd (cq_cache_take_oldest c)) = tl (entries c) \<and>
    fst (cq_cache_take_oldest c) = (if entries c = [] then None else snd (hd (entries c)))"
  using assms shift_out_spec [OF assms] length_entries [OF assms]
  by (auto simp: cq_cache_take_oldest_def)

subsection \<open>The contract of a tried-once memory\<close>

text \<open>
  What the cover pump relies on: a key, once stored, is found again until as many new keys as
  there are slots came after it. \<open>visit\<close> is the client's step: fetch only what was never tried
  and store the outcome, whether or not it is a cover.
\<close>

definition lastn :: "nat \<Rightarrow> 'a list \<Rightarrow> 'a list" where
  "lastn n xs = drop (length xs - n) xs"

lemma lastn_append: "lastn n (lastn n xs @ ys) = lastn n (xs @ ys)"
proof (cases "length xs \<le> n")
  case False
  then have "lastn n xs @ ys = drop (length xs - n) (xs @ ys)" by (simp add: lastn_def)
  with False show ?thesis by (simp add: lastn_def add.commute)
qed (simp add: lastn_def)

locale fifo_memory =
  fixes has :: "'c \<Rightarrow> 'k \<Rightarrow> bool" and put :: "'c \<Rightarrow> 'k \<Rightarrow> 'v \<Rightarrow> 'c"
    and keys_of :: "'c \<Rightarrow> 'n list" and norm :: "'k \<Rightarrow> 'n"
    and inv :: "'c \<Rightarrow> bool" and slots :: nat
  assumes has_iff: "inv c \<Longrightarrow> has c k \<longleftrightarrow> norm k \<in> set (keys_of c)"
    and inv_put: "inv c \<Longrightarrow> inv (put c k v)"
    and keys_put: "inv c \<Longrightarrow> norm k \<notin> set (keys_of c) \<Longrightarrow>
          keys_of (put c k v) = lastn slots (keys_of c @ [norm k])"
    and keys_bound: "inv c \<Longrightarrow> length (keys_of c) \<le> slots"
    and keys_distinct: "inv c \<Longrightarrow> distinct (keys_of c)"
begin

fun visits :: "('k \<Rightarrow> 'v) \<Rightarrow> 'c \<Rightarrow> 'k list \<Rightarrow> 'k list \<times> 'c" where
  "visits f c [] = ([], c)"
| "visits f c (k # ks) =
     (if has c k then visits f c ks
      else (case visits f (put c k (f k)) ks of (log, c') \<Rightarrow> (k # log, c')))"

lemma visits_keys:
  "inv c \<Longrightarrow> inv (snd (visits f c ks)) \<and>
     keys_of (snd (visits f c ks)) = lastn slots (keys_of c @ map norm (fst (visits f c ks)))"
proof (induction ks arbitrary: c)
  case Nil
  then show ?case using keys_bound [OF Nil] by (simp add: lastn_def)
next
  case (Cons k ks)
  show ?case
  proof (cases "has c k")
    case True
    then show ?thesis using Cons by simp
  next
    case False
    then have "norm k \<notin> set (keys_of c)" using has_iff [OF Cons.prems] by simp
    then show ?thesis
      using Cons.IH [OF inv_put [OF Cons.prems, of k "f k"]] False
        lastn_append [of slots "keys_of c @ [norm k]"]
      by (simp add: keys_put [OF Cons.prems] split_beta)
  qed
qed

text \<open>With no more distinct keys than slots nothing is evicted, so nothing is fetched twice.\<close>

lemma visits_once:
  assumes "inv c" "card (set (keys_of c) \<union> norm ` set ks) \<le> slots"
  shows "distinct (map norm (fst (visits f c ks))) \<and>
    set (map norm (fst (visits f c ks))) = norm ` set ks - set (keys_of c)"
  using assms
proof (induction ks arbitrary: c)
  case (Cons k ks)
  show ?case
  proof (cases "has c k")
    case True
    then have "norm k \<in> set (keys_of c)" using has_iff [OF Cons.prems(1)] by simp
    then have "set (keys_of c) \<union> norm ` set (k # ks) = set (keys_of c) \<union> norm ` set ks"
      and "norm ` set (k # ks) - set (keys_of c) = norm ` set ks - set (keys_of c)" by auto
    with Cons.IH [OF Cons.prems(1)] Cons.prems(2) True show ?thesis by simp
  next
    case False
    then have n: "norm k \<notin> set (keys_of c)" using has_iff [OF Cons.prems(1)] by simp
    have "length (keys_of c @ [norm k]) = card (set (keys_of c) \<union> {norm k})"
      using n keys_distinct [OF Cons.prems(1)] by (simp add: distinct_card)
    also have "\<dots> \<le> card (set (keys_of c) \<union> norm ` set (k # ks))" by (rule card_mono) auto
    finally have "length (keys_of c @ [norm k]) \<le> slots" using Cons.prems(2) by simp
    then have kp: "keys_of (put c k (f k)) = keys_of c @ [norm k]"
      by (simp add: keys_put [OF Cons.prems(1) n] lastn_def)
    have eq: "set (keys_of (put c k (f k))) \<union> norm ` set ks = set (keys_of c) \<union> norm ` set (k # ks)"
      by (auto simp: kp)
    from Cons.IH [OF inv_put [OF Cons.prems(1)], of k "f k"] Cons.prems(2) eq
    have "distinct (map norm (fst (visits f (put c k (f k)) ks))) \<and>
      set (map norm (fst (visits f (put c k (f k)) ks))) = norm ` set ks - set (keys_of (put c k (f k)))"
      by simp
    with False n show ?thesis by (auto simp: kp split_beta)
  qed
qed simp

end

lemma keys_spec_put:
  assumes "cache_ok c" "key_copy k \<notin> set (cache_keys c)"
  shows "cache_keys (snd (cq_cache_put c k v)) = lastn CQ_CACHE_SLOTS (cache_keys c @ [key_copy k])"
proof -
  note p = put_refines [OF assms(1), of k v]
  have l: "length (entries c) \<le> CQ_CACHE_SLOTS"
    using assms(1) by (simp add: length_entries) (simp add: cache_ok_def)
  have "entries (snd (cq_cache_put c k v)) = snd (spec_put (entries c) (key_copy k) v)"
    using p by (metis snd_conv)
  moreover have "map_of (entries c) (key_copy k) = None" using assms by (simp add: map_of_entries_None)
  ultimately have "entries (snd (cq_cache_put c k v)) = lastn CQ_CACHE_SLOTS (entries c @ [(key_copy k, v)])"
    using l by (cases "entries c") (auto simp: spec_put_def lastn_def)
  then have "map fst (entries (snd (cq_cache_put c k v))) =
      lastn CQ_CACHE_SLOTS (map fst (entries c) @ [key_copy k])"
    by (simp add: lastn_def drop_map)
  then show ?thesis using p assms(1) by (simp add: map_fst_entries)
qed

interpretation cover: fifo_memory cq_cache_has "\<lambda>c k v. snd (cq_cache_put c k v)" cache_keys key_copy
  cache_ok CQ_CACHE_SLOTS
  by unfold_locales
    (simp_all add: has_spec put_refines keys_spec_put, simp_all add: cache_ok_def cache_keys_def)

text \<open>A run of the client: the albums it fetched, in order, and the memory after it.\<close>

fun cover_run :: "(cstr option \<Rightarrow> 'v option) \<Rightarrow> 'v cq_cache \<Rightarrow> cstr option list \<Rightarrow>
    cstr option list \<times> 'v cq_cache" where
  "cover_run fetch c [] = ([], c)"
| "cover_run fetch c (k # ks) =
     (if cq_cache_has c k then cover_run fetch c ks
      else (case cover_run fetch (snd (cq_cache_put c k (fetch k))) ks of (log, c') \<Rightarrow> (k # log, c')))"

lemma cover_run_visits: "cover_run f c ks = cover.visits f c ks"
  by (induction ks arbitrary: c) simp_all

lemma set_lastn_append: "length xs + length ys \<le> n \<Longrightarrow> lastn n (xs @ ys) = xs @ ys"
  by (simp add: lastn_def)

subsection \<open>Properties\<close>

text \<open>C19. The slot arrays implement a bounded first-in-first-out association list: a put replaces
a stored key in place and hands back the replaced value, appends a new key, and when all eight
slots are taken hands back and drops the oldest; get and has read the list, and take_oldest pops
its head.\<close>

theorem cache_refines_fifo:
  assumes "cache_ok c"
  shows "cache_ok (snd (cq_cache_put c key v)) \<and>
    (fst (cq_cache_put c key v), entries (snd (cq_cache_put c key v))) =
      spec_put (entries c) (key_copy key) v \<and>
    cq_cache_get c key = Option.bind (map_of (entries c) (key_copy key)) id \<and>
    (cq_cache_has c key \<longleftrightarrow> map_of (entries c) (key_copy key) \<noteq> None) \<and>
    cq_cache_count c = length (entries c) \<and>
    cache_ok (snd (cq_cache_take_oldest c)) \<and>
    entries (snd (cq_cache_take_oldest c)) = tl (entries c) \<and>
    fst (cq_cache_take_oldest c) = (if entries c = [] then None else snd (hd (entries c)))"
  using put_refines [OF assms] get_spec [OF assms] has_spec [OF assms]
    map_of_entries_None [OF assms] length_entries [OF assms] take_oldest_spec [OF assms]
  by (simp add: cq_cache_count_def)

theorem cache_refines_fifo_witness:
  "cq_cache_get (snd (cq_cache_put (cq_cache_init :: nat cq_cache) (Some ''al1'') (Some 7))) (Some ''al1'') = Some 7"
proof -
  let ?c = "snd (cq_cache_put (cq_cache_init :: nat cq_cache) (Some ''al1'') (Some 7))"
  note p = cache_refines_fifo [OF init_cache_ok, where key = "Some ''al1''" and v = "Some (7::nat)"]
  have k: "key_copy (Some ''al1'') = ''al1''" by code_simp
  have "entries ?c = [(''al1'', Some 7)]"
    using p by (simp add: k spec_put_def entries_def cq_cache_init_def)
  with p cache_refines_fifo [of ?c, where key = "Some ''al1''" and v = None] show ?thesis by (simp add: k)
qed



end
