(* ===== verification/Mp3.thy ===== *)
theory Mp3
  imports Prelude
begin

text \<open>
  The MPEG Layer III frame-header reader (\<open>cq_mp3.c\<close>): parse one header, walk whole frames
  from a boundary, find the first trustworthy frame. A buffer \<open>(buf + off, n - off)\<close> is the
  list \<open>drop off buf\<close>; a frame written through the result pointer with return value 1 is
  Some frame.
\<close>

record cq_mp3_frame =
  version :: int
  bitrate_kbps :: int
  samplerate :: int
  channels :: int
  samples :: int
  frame_bytes :: int

definition kBitV1 :: "int list" where
  "kBitV1 = [0, 32, 40, 48, 56, 64, 80, 96, 112, 128, 160, 192, 224, 256, 320, 0]"

definition kBitV2 :: "int list" where
  "kBitV2 = [0, 8, 16, 24, 32, 40, 48, 56, 64, 80, 96, 112, 128, 144, 160, 0]"

definition kRate :: "int list" where
  "kRate = [44100, 48000, 32000, 0]"

definition cq_mp3_parse :: "bytes \<Rightarrow> cq_mp3_frame option" where
  "cq_mp3_parse p =
     (if length p < 4 then None
      else if u8 (p ! 0) \<noteq> 0xFF \<or> u8 (p ! 1) AND 0xE0 \<noteq> 0xE0 then None
      else
        let vbits = drop_bit 3 (u8 (p ! 1)) AND 3;
            lbits = drop_bit 1 (u8 (p ! 1)) AND 3
        in if vbits = 1 \<or> lbits \<noteq> 1 then None
        else
          let version = (if vbits = 3 then 1 else if vbits = 2 then 2 else 25);
              bidx = drop_bit 4 (u8 (p ! 2)) AND 0x0F;
              ridx = drop_bit 2 (u8 (p ! 2)) AND 3;
              pad = drop_bit 1 (u8 (p ! 2)) AND 1;
              mode = drop_bit 6 (u8 (p ! 3)) AND 3;
              bitrate = (if version = 1 then kBitV1 ! nat bidx else kBitV2 ! nat bidx);
              rate = kRate ! nat ridx
          in if bitrate = 0 \<or> rate = 0 then None
          else
            let rate = (if version = 2 then tdiv rate 2 else rate);
                rate = (if version = 25 then tdiv rate 4 else rate);
                samples = (if version = 1 then 1152 else 576);
                fb = tdiv (tdiv samples 8 * (bitrate * 1000)) rate + pad
            in if fb < 4 then None
            else Some \<lparr>version = version, bitrate_kbps = bitrate, samplerate = rate,
                       channels = (if mode = 3 then 1 else 2), samples = samples, frame_bytes = fb\<rparr>)"

abbreviation coherent :: "cq_mp3_frame \<Rightarrow> cq_mp3_frame \<Rightarrow> bool" where
  "coherent a b \<equiv> version b = version a \<and> samplerate b = samplerate a"

text \<open>
  The walking loop: \<open>first\<close> is the frame that opened the walk, None while \<open>cnt\<close> is 0.
\<close>

function walk_loop :: "bytes \<Rightarrow> nat \<Rightarrow> cq_mp3_frame option \<Rightarrow> nat \<Rightarrow> nat \<Rightarrow> nat \<times> nat" where
  "walk_loop buf max_frames first off cnt =
     (if cnt < max_frames then
        (case cq_mp3_parse (drop off buf) of
           None \<Rightarrow> (off, cnt)
         | Some f \<Rightarrow>
             if off + nat (frame_bytes f) > length buf then (off, cnt)
             else (case first of
                 None \<Rightarrow> walk_loop buf max_frames (Some f) (off + nat (frame_bytes f)) (cnt + 1)
               | Some a \<Rightarrow>
                   if \<not> coherent a f then (off, cnt)
                   else walk_loop buf max_frames (Some a) (off + nat (frame_bytes f)) (cnt + 1)))
      else (off, cnt))"
  by pat_completeness auto
termination by (relation "measure (\<lambda>(buf, m, first, off, cnt). m - cnt)") auto

declare walk_loop.simps [simp del]

definition cq_mp3_walk :: "bytes \<Rightarrow> int \<Rightarrow> nat \<times> nat" where
  "cq_mp3_walk buf max_frames =
     (if max_frames \<le> 0 then (0, 0) else walk_loop buf (nat max_frames) None 0 0)"

function sync_loop :: "bytes \<Rightarrow> nat \<Rightarrow> (nat \<times> cq_mp3_frame) option" where
  "sync_loop buf i =
     (if i + 4 \<le> length buf then
        if u8 (buf ! i) \<noteq> 0xFF then sync_loop buf (i + 1)
        else (case cq_mp3_parse (drop i buf) of
            None \<Rightarrow> sync_loop buf (i + 1)
          | Some a \<Rightarrow>
              if i + nat (frame_bytes a) + 4 > length buf then None
              else (case cq_mp3_parse (drop (i + nat (frame_bytes a)) buf) of
                  None \<Rightarrow> sync_loop buf (i + 1)
                | Some b \<Rightarrow> if \<not> coherent a b then sync_loop buf (i + 1) else Some (i, a)))
      else None)"
  by pat_completeness auto
termination by (relation "measure (\<lambda>(buf, i). length buf - i)") auto

declare sync_loop.simps [simp del]

text \<open>The return value -1 is None.\<close>

definition cq_mp3_sync :: "bytes \<Rightarrow> (nat \<times> cq_mp3_frame) option" where
  "cq_mp3_sync buf = (if length buf < 4 then None else sync_loop buf 0)"

subsection \<open>The header as the standard lays it out\<close>

text \<open>
  A header by its fields: 11 sync bits, version, layer III, protection bit, bitrate index,
  sample rate index, padding, a private bit, channel mode and six bits the reader ignores.
\<close>

record mp3_hdr =
  h_ver :: int
  h_prot :: int
  h_bidx :: nat
  h_ridx :: nat
  h_pad :: int
  h_priv :: int
  h_mode :: int
  h_rest :: int

definition hdr_ok :: "mp3_hdr \<Rightarrow> bool" where
  "hdr_ok h \<longleftrightarrow> h_ver h \<in> {0, 2, 3} \<and> h_prot h \<in> {0, 1} \<and> 0 < h_bidx h \<and> h_bidx h < 15 \<and>
     h_ridx h < 3 \<and> h_pad h \<in> {0, 1} \<and> h_priv h \<in> {0, 1} \<and> 0 \<le> h_mode h \<and> h_mode h < 4 \<and>
     0 \<le> h_rest h \<and> h_rest h < 64"

definition hdr_bytes :: "mp3_hdr \<Rightarrow> bytes" where
  "hdr_bytes h = map char_of
     [0xFF, 0xE0 + h_ver h * 8 + 2 + h_prot h,
      int (h_bidx h) * 16 + int (h_ridx h) * 4 + h_pad h * 2 + h_priv h, h_mode h * 64 + h_rest h]"

definition hdr_frame :: "mp3_hdr \<Rightarrow> cq_mp3_frame" where
  "hdr_frame h =
     (let v1 = (h_ver h = 3);
          rate = kRate ! h_ridx h div (if h_ver h = 3 then 1 else if h_ver h = 2 then 2 else 4);
          bitrate = (if v1 then kBitV1 else kBitV2) ! h_bidx h
      in \<lparr>version = (if h_ver h = 3 then 1 else if h_ver h = 2 then 2 else 25),
          bitrate_kbps = bitrate, samplerate = rate, channels = (if h_mode h = 3 then 1 else 2),
          samples = (if v1 then 1152 else 576),
          frame_bytes = (if v1 then 144 else 72) * (bitrate * 1000) div rate + h_pad h\<rparr>)"

lemma u8_char_of: "0 \<le> x \<Longrightarrow> x < 256 \<Longrightarrow> u8 (char_of x) = x"
  by (simp add: u8_def)

lemma field_bits:
  fixes x :: int
  shows "drop_bit k x AND 1 = x div 2 ^ k mod 2" "drop_bit k x AND 3 = x div 2 ^ k mod 4"
    "drop_bit k x AND 0x0F = x div 2 ^ k mod 16"
proof -
  have m: "y AND mask n = y mod 2 ^ n" for y :: int and n by (simp add: take_bit_eq_mod flip: take_bit_eq_mask)
  show "drop_bit k x AND 1 = x div 2 ^ k mod 2" using m [of "drop_bit k x" 1] by (simp add: mask_eq_exp_minus_1 drop_bit_eq_div)
  show "drop_bit k x AND 3 = x div 2 ^ k mod 4" using m [of "drop_bit k x" 2] by (simp add: mask_eq_exp_minus_1 drop_bit_eq_div)
  show "drop_bit k x AND 0x0F = x div 2 ^ k mod 16" using m [of "drop_bit k x" 4] by (simp add: mask_eq_exp_minus_1 drop_bit_eq_div)
qed

lemma sync_bits:
  fixes x :: int
  assumes "0 \<le> x" "x < 256"
  shows "x AND 0xE0 = 0xE0 \<longleftrightarrow> 0xE0 \<le> x"
proof -
  have "\<forall>n < 256. (int n AND 0xE0 = 0xE0) = (0xE0 \<le> int n)" by code_simp
  from this [rule_format, of "nat x"] assms show ?thesis by simp
qed

lemma char_of_u8: "char_of (u8 c) = c"
  by (simp add: u8_def)

lemma bitrate_table:
  assumes "0 < b" "b < (15::nat)"
  shows "kBitV1 ! b \<in> {32, 40, 48, 56, 64, 80, 96, 112, 128, 160, 192, 224, 256, 320}"
    and "kBitV2 ! b \<in> {8, 16, 24, 32, 40, 48, 56, 64, 80, 96, 112, 128, 144, 160}"
proof -
  have "\<forall>b < 15. 0 < b \<longrightarrow>
      kBitV1 ! b \<in> set [32, 40, 48, 56, 64, 80, 96, 112, 128, 160, 192, 224, 256, 320] \<and>
      kBitV2 ! b \<in> set [8, 16, 24, 32, 40, 48, 56, 64, 80, 96, 112, 128, 144, 160]" by code_simp
  with assms show "kBitV1 ! b \<in> {32, 40, 48, 56, 64, 80, 96, 112, 128, 160, 192, 224, 256, 320}"
    "kBitV2 ! b \<in> {8, 16, 24, 32, 40, 48, 56, 64, 80, 96, 112, 128, 144, 160}" by auto
qed

lemma bitrate_zero:
  assumes "b < (16::nat)"
  shows "kBitV1 ! b = 0 \<longleftrightarrow> b = 0 \<or> b = 15" "kBitV2 ! b = 0 \<longleftrightarrow> b = 0 \<or> b = 15"
proof -
  have "\<forall>b < 16. (kBitV1 ! b = 0 \<longleftrightarrow> b = 0 \<or> b = 15) \<and> (kBitV2 ! b = 0 \<longleftrightarrow> b = 0 \<or> b = 15)"
    by code_simp
  with assms show "kBitV1 ! b = 0 \<longleftrightarrow> b = 0 \<or> b = 15" "kBitV2 ! b = 0 \<longleftrightarrow> b = 0 \<or> b = 15" by auto
qed

lemma rate_table: "r < (3::nat) \<Longrightarrow> kRate ! r \<in> {44100, 48000, 32000}"
  and rate_zero: "r < 4 \<Longrightarrow> kRate ! r = 0 \<longleftrightarrow> r = 3"
  by (auto simp: kRate_def less_Suc_eq numeral_eq_Suc)

lemma frame_size_v1:
  assumes "b \<in> {32, 40, 48, 56, 64, 80, 96, 112, 128, 160, 192, 224, 256, 320::int}"
    "r \<in> {44100, 48000, 32000::int}"
  shows "96 \<le> 144 * (b * 1000) div r \<and> 144 * (b * 1000) div r \<le> 1440"
  using assms by auto

lemma frame_size_v2:
  assumes "b \<in> {8, 16, 24, 32, 40, 48, 56, 64, 80, 96, 112, 128, 144, 160::int}"
    "r \<in> {44100, 48000, 32000::int}" "d \<in> {2, 4}"
  shows "24 \<le> 72 * (b * 1000) div (r div d) \<and> 72 * (b * 1000) div (r div d) \<le> 1440"
  using assms by auto

lemma hdr_frame_bounds:
  assumes "hdr_ok h"
  shows "24 \<le> frame_bytes (hdr_frame h)" "frame_bytes (hdr_frame h) \<le> 1441"
proof -
  note b = bitrate_table [of "h_bidx h"] and r = rate_table [of "h_ridx h"]
  have p: "0 \<le> h_pad h" "h_pad h \<le> 1" using assms by (auto simp: hdr_ok_def)
  have "24 \<le> frame_bytes (hdr_frame h) \<and> frame_bytes (hdr_frame h) \<le> 1441"
  proof (cases "h_ver h = 3")
    case True
    then show ?thesis using frame_size_v1 [of "kBitV1 ! h_bidx h" "kRate ! h_ridx h"] b(1) r p assms
      by (simp add: hdr_frame_def hdr_ok_def Let_def)
  next
    case False
    let ?d = "if h_ver h = 2 then 2 else 4 :: int"
    from False show ?thesis
      using frame_size_v2 [of "kBitV2 ! h_bidx h" "kRate ! h_ridx h" ?d] b(2) r p assms
      by (cases "h_ver h = 2") (simp_all add: hdr_frame_def hdr_ok_def Let_def)
  qed
  then show "24 \<le> frame_bytes (hdr_frame h)" "frame_bytes (hdr_frame h) \<le> 1441" by auto
qed

text \<open>The reader sees exactly the fields the header was laid out from.\<close>

lemma hdr_u8:
  assumes "hdr_ok h"
  shows "u8 ((hdr_bytes h @ bs) ! 0) = 255"
    "u8 ((hdr_bytes h @ bs) ! 1) = 226 + h_ver h * 8 + h_prot h"
    "u8 ((hdr_bytes h @ bs) ! 2) = int (h_bidx h) * 16 + int (h_ridx h) * 4 + h_pad h * 2 + h_priv h"
    "u8 ((hdr_bytes h @ bs) ! 3) = h_mode h * 64 + h_rest h"
  using assms by (auto simp: hdr_bytes_def hdr_ok_def u8_char_of nth_append)

lemma byte1_fields:
  fixes v p :: int
  assumes "v \<in> {0, 2, 3}" "p \<in> {0, 1}"
  shows "(226 + v * 8 + p) div 2 ^ 3 mod 4 = v" "(226 + v * 8 + p) div 2 ^ 1 mod 4 = 1"
    "0xE0 \<le> 226 + v * 8 + p" "226 + v * 8 + p < 256"
  using assms by auto

lemma byte2_fields:
  fixes b r p v :: int
  assumes "0 \<le> b" "b < 16" "0 \<le> r" "r < 4" "p \<in> {0, 1}" "v \<in> {0, 1}"
  shows "(b * 16 + r * 4 + p * 2 + v) div 2 ^ 4 mod 16 = b"
    "(b * 16 + r * 4 + p * 2 + v) div 2 ^ 2 mod 4 = r"
    "(b * 16 + r * 4 + p * 2 + v) div 2 ^ 1 mod 2 = p"
proof -
  have "(b * 16 + r * 4 + p * 2 + v) div 16 = b" "(b * 16 + r * 4 + p * 2 + v) div 4 = b * 4 + r"
    using assms by (auto; presburger)+
  then show "(b * 16 + r * 4 + p * 2 + v) div 2 ^ 4 mod 16 = b"
    "(b * 16 + r * 4 + p * 2 + v) div 2 ^ 2 mod 4 = r"
    using assms by simp_all
  have "b * 16 + r * 4 + p * 2 + v = (b * 8 + r * 2 + p) * 2 + v" by simp
  then have "(b * 16 + r * 4 + p * 2 + v) div 2 = (b * 4 + r) * 2 + p" using assms by auto
  moreover have "p mod 2 = p" using assms by auto
  ultimately show "(b * 16 + r * 4 + p * 2 + v) div 2 ^ 1 mod 2 = p"
    using mod_mult_self3 [of "b * 4 + r" 2 p] by simp
qed

lemma byte3_fields:
  fixes m r :: int
  assumes "0 \<le> m" "m < 4" "0 \<le> r" "r < 64"
  shows "(m * 64 + r) div 2 ^ 6 mod 4 = m"
  using assms by simp

lemma parse_hdr:
  assumes "hdr_ok h"
  shows "cq_mp3_parse (hdr_bytes h @ bs) = Some (hdr_frame h)"
proof -
  let ?p = "hdr_bytes h @ bs"
  note u = hdr_u8 [OF assms, of bs] and ok = assms [unfolded hdr_ok_def]
  have l: "\<not> length ?p < 4" by (simp add: hdr_bytes_def)
  have vp: "h_ver h \<in> {0, 2, 3}" "h_prot h \<in> {0, 1}" using ok by blast+
  have pv: "h_pad h \<in> {0, 1}" "h_priv h \<in> {0, 1}" using ok by blast+
  have bm: "0 \<le> int (h_bidx h)" "int (h_bidx h) < 16" "0 \<le> int (h_ridx h)" "int (h_ridx h) < 4"
    using ok by simp_all
  have s: "u8 (?p ! 1) AND 0xE0 = 0xE0"
    unfolding u(2) using sync_bits [of "226 + h_ver h * 8 + h_prot h"] byte1_fields [OF vp] by simp
  have v: "drop_bit 3 (u8 (?p ! 1)) AND 3 = h_ver h"
    and lay: "drop_bit 1 (u8 (?p ! 1)) AND 3 = 1" unfolding field_bits u(2) by (rule byte1_fields [OF vp])+
  have bi: "drop_bit 4 (u8 (?p ! 2)) AND 0x0F = int (h_bidx h)"
    unfolding field_bits u(3) by (rule byte2_fields [OF bm pv])
  have ri: "drop_bit 2 (u8 (?p ! 2)) AND 3 = int (h_ridx h)"
    unfolding field_bits u(3) by (rule byte2_fields [OF bm pv])
  have pd: "drop_bit 1 (u8 (?p ! 2)) AND 1 = h_pad h"
    unfolding field_bits u(3) by (rule byte2_fields [OF bm pv])
  have md: "drop_bit 6 (u8 (?p ! 3)) AND 3 = h_mode h"
    unfolding field_bits u(4) by (rule byte3_fields) (use ok in blast)+
  have i: "0 < h_bidx h" "h_bidx h < 15" "h_ridx h < 3" using ok by blast+
  have nz: "kBitV1 ! h_bidx h \<noteq> 0" "kBitV2 ! h_bidx h \<noteq> 0" "kRate ! h_ridx h \<noteq> 0"
    using i bitrate_zero [of "h_bidx h"] rate_zero [of "h_ridx h"] by simp_all
  have r: "kRate ! h_ridx h \<in> {44100, 48000, 32000}" by (rule rate_table [OF i(3)])
  have pos: "0 \<le> kBitV1 ! h_bidx h" "0 \<le> kBitV2 ! h_bidx h"
    using bitrate_table(1) [OF i(1,2)] apply auto [1]
    using bitrate_table(2) [OF i(1,2)] apply auto [1]
    done
  have rpos: "0 \<le> kRate ! h_ridx h" "0 < kRate ! h_ridx h" "0 < kRate ! h_ridx h div 2"
    "0 < kRate ! h_ridx h div 4"
    using r by auto
  have fb: "24 \<le> frame_bytes (hdr_frame h)" by (rule hdr_frame_bounds [OF assms])
  have t: "tdiv (kRate ! h_ridx h) 1 = kRate ! h_ridx h" "tdiv (kRate ! h_ridx h) 2 = kRate ! h_ridx h div 2"
    "tdiv (kRate ! h_ridx h) 4 = kRate ! h_ridx h div 4" using rpos by (simp_all add: tdiv_pos)
  have t': "tdiv 1152 8 = 144" "tdiv 576 8 = 72" by (simp_all add: tdiv_def)
  have "h_ver h = 3 \<or> h_ver h = 2 \<or> h_ver h = 0" using vp(1) by blast
  then show ?thesis
    unfolding cq_mp3_parse_def v lay bi ri pd md u(1) Let_def hdr_frame_def
    using l s nz fb [unfolded hdr_frame_def Let_def]
    by (elim disjE) (simp_all add: t t' tdiv_pos pos rpos)
qed

text \<open>Conversely whatever the reader accepts is such a header.\<close>

lemma field_vals:
  fixes x :: int
  shows "drop_bit 3 x AND 3 = x div 8 mod 4" "drop_bit 1 x AND 3 = x div 2 mod 4"
    "drop_bit 4 x AND 0x0F = x div 16 mod 16" "drop_bit 2 x AND 3 = x div 4 mod 4"
  unfolding field_bits by simp_all

lemma bitrate_index:
  assumes "(if c then kBitV1 ! k else kBitV2 ! k) \<noteq> 0" "k < 16"
  shows "0 < k" "k < 15"
proof -
  have "k \<noteq> 0 \<and> k \<noteq> 15" using assms bitrate_zero [OF assms(2)] by (cases c) auto
  then show "0 < k" "k < 15" using assms(2) by auto
qed

lemma parse_rejects:
  "length p < 4 \<Longrightarrow> cq_mp3_parse p = None"
  "u8 (p ! 0) \<noteq> 0xFF \<Longrightarrow> cq_mp3_parse p = None"
  "u8 (p ! 1) AND 0xE0 \<noteq> 0xE0 \<Longrightarrow> cq_mp3_parse p = None"
  "u8 (p ! 1) div 8 mod 4 = 1 \<Longrightarrow> cq_mp3_parse p = None"
  "u8 (p ! 1) div 2 mod 4 \<noteq> 1 \<Longrightarrow> cq_mp3_parse p = None"
  "kRate ! nat (u8 (p ! 2) div 4 mod 4) = 0 \<Longrightarrow> cq_mp3_parse p = None"
  unfolding cq_mp3_parse_def Let_def field_vals by (simp_all only: simp_thms if_True if_False refl if_cancel)

lemma ver_one: "(if v = 3 then 1 else if v = 2 then 2 else 25) = (1::int) \<longleftrightarrow> v = (3::int)"
  by simp

lemma parse_rejects_bitrate:
  assumes "(if u8 (p ! 1) div 8 mod 4 = 3 then kBitV1 ! nat (u8 (p ! 2) div 16 mod 16)
    else kBitV2 ! nat (u8 (p ! 2) div 16 mod 16)) = 0"
  shows "cq_mp3_parse p = None"
  using assms unfolding cq_mp3_parse_def Let_def field_vals ver_one
  by (simp only: simp_thms if_True if_cancel)

lemma div_steps:
  fixes w :: int
  shows "w div 2 div 2 = w div 4" "w div 4 div 4 = w div 16" "w div 2 div 4 = w div 8"
    "w div 8 div 4 = w div 32"
  by (simp_all flip: zdiv_zmult2_eq)

lemma halves:
  fixes w :: int
  shows "w = w div 2 * 2 + w mod 2" "w div 2 = w div 4 * 2 + w div 2 mod 2"
    "w div 4 = w div 16 * 4 + w div 4 mod 4" "w div 2 = w div 8 * 4 + w div 2 mod 4"
    "w div 8 = w div 32 * 4 + w div 8 mod 4"
  by (rule div_mult_mod_eq [symmetric] div_mult_mod_eq [of "w div 2" 2, unfolded div_steps, symmetric]
      div_mult_mod_eq [of "w div 4" 4, unfolded div_steps, symmetric]
      div_mult_mod_eq [of "w div 2" 4, unfolded div_steps, symmetric]
      div_mult_mod_eq [of "w div 8" 4, unfolded div_steps, symmetric])+

lemma parse_Some_hdr:
  assumes "cq_mp3_parse p = Some f"
  shows "\<exists>h. hdr_ok h \<and> take 4 p = hdr_bytes h"
proof -
  have l: "4 \<le> length p" using assms parse_rejects(1) [of p] by (metis not_less option.distinct(1))
  have s: "u8 (p ! 0) = 0xFF" "u8 (p ! 1) AND 0xE0 = 0xE0"
    using assms parse_rejects(2,3) [of p] by (metis option.distinct(1))+
  let ?x = "u8 (p ! 1)" and ?y = "u8 (p ! 2)" and ?z = "u8 (p ! 3)"
  have v: "?x div 8 mod 4 \<noteq> 1" "?x div 2 mod 4 = 1"
    using assms parse_rejects(4,5) [of p] by (metis option.distinct(1))+
  have nz: "(if ?x div 8 mod 4 = 3 then kBitV1 ! nat (?y div 16 mod 16)
      else kBitV2 ! nat (?y div 16 mod 16)) \<noteq> 0"
    "kRate ! nat (?y div 4 mod 4) \<noteq> 0"
    using assms parse_rejects(6) [of p] parse_rejects_bitrate [of p] by (metis option.distinct(1))+
  have x: "0xE0 \<le> ?x" "?x < 256" using sync_bits s(2) u8_bounds [of "p ! 1"] by blast+
  have y: "0 \<le> ?y" "?y < 256" and z: "0 \<le> ?z" "?z < 256" using u8_bounds by blast+
  define h where "h = \<lparr>h_ver = ?x div 8 mod 4, h_prot = ?x mod 2, h_bidx = nat (?y div 16),
    h_ridx = nat (?y div 4 mod 4), h_pad = ?y div 2 mod 2, h_priv = ?y mod 2,
    h_mode = ?z div 64, h_rest = ?z mod 64\<rparr>"
  have y16: "?y div 16 mod 16 = ?y div 16" "0 \<le> ?y div 16" "?y div 16 < 16" using y by simp_all
  have bi: "nat (?y div 16) < 16" using y16 by simp
  have b: "0 < nat (?y div 16)" "nat (?y div 16) < 15"
    using bitrate_index [OF nz(1) [unfolded y16(1)] bi] by blast+
  have ri: "nat (?y div 4 mod 4) < 4" by simp
  then have r: "nat (?y div 4 mod 4) < 3" using nz(2) rate_zero [OF ri] by simp
  have ver: "?x div 8 mod 4 \<in> {0, 2, 3}"
  proof -
    have "0 \<le> ?x div 8 mod 4" "?x div 8 mod 4 < 4" by simp_all
    with v(1) show ?thesis unfolding insert_iff empty_iff by linarith
  qed
  have bits: "w mod 2 \<in> {0, 1}" for w :: int by (cases "even w") auto
  have zz: "0 \<le> ?z div 64" "?z div 64 < 4" "0 \<le> ?z mod 64" "?z mod 64 < 64" using z by simp_all
  have "hdr_ok h" unfolding hdr_ok_def h_def mp3_hdr.simps
    by (intro conjI) (rule b r ver bits zz)+
  moreover have "take 4 p = hdr_bytes h"
  proof -
    have "?x div 32 = 7" using x by simp
    then have xx: "0xE0 + ?x div 8 mod 4 * 8 + 2 + ?x mod 2 = ?x"
      using v(2) halves(1,4,5) [of ?x] by linarith
    have yy: "?y div 16 * 16 + ?y div 4 mod 4 * 4 + ?y div 2 mod 2 * 2 + ?y mod 2 = ?y"
      using halves(1,2,3) [of ?y] by linarith
    have z4: "?z div 64 * 64 + ?z mod 64 = ?z" by simp
    have i: "int (nat (?y div 16)) = ?y div 16" "int (nat (?y div 4 mod 4)) = ?y div 4 mod 4"
      using y16 by simp_all
    have "hdr_bytes h = map char_of [u8 (p ! 0), ?x, ?y, ?z]"
      unfolding hdr_bytes_def h_def mp3_hdr.simps i xx yy z4 s(1) ..
    also have "\<dots> = [p ! 0, p ! 1, p ! 2, p ! 3]" by (simp add: char_of_u8)
    also have "\<dots> = take 4 p"
      using l by (cases p; cases "tl p"; cases "tl (tl p)"; cases "tl (tl (tl p))") auto
    finally show ?thesis by simp
  qed
  ultimately show ?thesis by blast
qed

lemma parse_length: "cq_mp3_parse p = Some f \<Longrightarrow> 4 \<le> length p"
  using parse_rejects(1) [of p] by fastforce

lemma parse_cong:
  assumes "4 \<le> length p" "4 \<le> length q" "take 4 p = take 4 q"
  shows "cq_mp3_parse p = cq_mp3_parse q"
proof -
  have "p ! i = q ! i" if "i < 4" for i using assms(3) that nth_take by metis
  then have "p ! 0 = q ! 0" "p ! 1 = q ! 1" "p ! 2 = q ! 2" "p ! 3 = q ! 3" by simp_all
  moreover have "length p < 4 \<longleftrightarrow> length q < 4" using assms by simp
  ultimately show ?thesis unfolding cq_mp3_parse_def by (simp only:)
qed

lemma parse_append: "4 \<le> length p \<Longrightarrow> cq_mp3_parse (p @ q) = cq_mp3_parse p"
  by (rule parse_cong) simp_all

lemma parse_iff:
  "cq_mp3_parse p = Some f \<longleftrightarrow> (\<exists>h bs. hdr_ok h \<and> p = hdr_bytes h @ bs \<and> f = hdr_frame h)"
proof
  assume f: "cq_mp3_parse p = Some f"
  then obtain h where h: "hdr_ok h" "take 4 p = hdr_bytes h" using parse_Some_hdr by blast
  then have p: "p = hdr_bytes h @ drop 4 p" by (metis append_take_drop_id)
  with f parse_hdr [OF h(1), of "drop 4 p"] have "f = hdr_frame h" by simp
  with h(1) p show "\<exists>h bs. hdr_ok h \<and> p = hdr_bytes h @ bs \<and> f = hdr_frame h" by blast
qed (auto simp: parse_hdr)

lemma parse_bounds:
  assumes "cq_mp3_parse p = Some f"
  shows "24 \<le> frame_bytes f" "frame_bytes f \<le> 1441" "channels f \<in> {1, 2}" "samples f \<in> {576, 1152}"
    "u8 (p ! 0) = 0xFF"
proof -
  obtain h bs where h: "hdr_ok h" "p = hdr_bytes h @ bs" "f = hdr_frame h" using assms parse_iff by blast
  show "24 \<le> frame_bytes f" "frame_bytes f \<le> 1441" unfolding h(3) by (rule hdr_frame_bounds [OF h(1)])+
  show "channels f \<in> {1, 2}" "samples f \<in> {576, 1152}" by (simp_all add: h(3) hdr_frame_def Let_def)
  show "u8 (p ! 0) = 0xFF" unfolding h(2) by (rule hdr_u8 [OF h(1)])
qed

subsection \<open>Walking whole frames\<close>

text \<open>A chain of whole frames laid end to end from the start of a buffer.\<close>

fun chain :: "bytes \<Rightarrow> cq_mp3_frame list \<Rightarrow> bool" where
  "chain buf [] = True"
| "chain buf (f # fs) = (cq_mp3_parse buf = Some f \<and> nat (frame_bytes f) \<le> length buf \<and>
     chain (drop (nat (frame_bytes f)) buf) fs)"

definition span :: "cq_mp3_frame list \<Rightarrow> nat" where
  "span fs = sum_list (map (\<lambda>f. nat (frame_bytes f)) fs)"

definition agree :: "cq_mp3_frame option \<Rightarrow> cq_mp3_frame list \<Rightarrow> bool" where
  "agree first fs = (case first of Some a \<Rightarrow> (\<forall>f \<in> set fs. coherent a f)
     | None \<Rightarrow> (\<forall>f \<in> set fs. coherent (hd fs) f))"

lemma span_simps [simp]: "span [] = 0" "span (f # fs) = nat (frame_bytes f) + span fs"
  by (simp_all add: span_def)

lemma chain_span: "chain buf fs \<Longrightarrow> span fs \<le> length buf"
  by (induction buf fs rule: chain.induct) auto

lemma agree_None_Cons: "agree None (f # fs) \<longleftrightarrow> agree (Some f) fs"
  by (simp add: agree_def)

lemma agree_Some_Cons: "agree (Some a) (f # fs) \<longleftrightarrow> coherent a f \<and> agree (Some a) fs"
  by (auto simp: agree_def)

text \<open>What the loop does in one turn.\<close>

lemma walk_step:
  assumes "cnt < m" "cq_mp3_parse (drop off buf) = Some f" "off + nat (frame_bytes f) \<le> length buf"
    "agree first [f]"
  shows "walk_loop buf m first off cnt =
    walk_loop buf m (Some (case first of Some a \<Rightarrow> a | None \<Rightarrow> f)) (off + nat (frame_bytes f)) (cnt + 1)"
  using assms by (subst walk_loop.simps) (simp add: agree_def split: option.splits)

lemma walk_stop:
  assumes "\<not> (cnt < m \<and> (\<exists>f. cq_mp3_parse (drop off buf) = Some f \<and>
      off + nat (frame_bytes f) \<le> length buf \<and> agree first [f]))"
  shows "walk_loop buf m first off cnt = (off, cnt)"
proof (cases "cq_mp3_parse (drop off buf)")
  case (Some f)
  with assms have "cnt < m \<Longrightarrow> off + nat (frame_bytes f) \<le> length buf \<Longrightarrow> \<not> agree first [f]" by blast
  with Some show ?thesis by (subst walk_loop.simps) (auto simp: agree_def split: option.split)
qed (subst walk_loop.simps, simp)

lemma walk_loop_spec:
  assumes "off \<le> length buf"
  shows "\<exists>fs. walk_loop buf m first off cnt = (off + span fs, cnt + length fs) \<and>
    chain (drop off buf) fs \<and> agree first fs \<and> length fs \<le> m - cnt \<and>
    (length fs < m - cnt \<longrightarrow> (\<nexists>f. chain (drop off buf) (fs @ [f]) \<and> agree first (fs @ [f])))"
  using assms
proof (induction "m - cnt" arbitrary: first off cnt)
  case 0
  then have "walk_loop buf m first off cnt = (off, cnt)" by (intro walk_stop) simp
  with 0 show ?case by (intro exI [of _ "[]"]) (simp add: agree_def split: option.split)
next
  case (Suc d)
  show ?case
  proof (cases "\<exists>f. cq_mp3_parse (drop off buf) = Some f \<and>
      off + nat (frame_bytes f) \<le> length buf \<and> agree first [f]")
    case True
    then obtain f where f: "cq_mp3_parse (drop off buf) = Some f"
      "off + nat (frame_bytes f) \<le> length buf" "agree first [f]" by blast
    let ?a = "case first of Some a \<Rightarrow> a | None \<Rightarrow> f"
    have step: "walk_loop buf m first off cnt = walk_loop buf m (Some ?a) (off + nat (frame_bytes f)) (cnt + 1)"
      using walk_step [OF _ f] Suc.hyps(2) by simp
    have "d = m - (cnt + 1)" using Suc.hyps(2) by simp
    from Suc.hyps(1) [OF this f(2), of "Some ?a"] obtain fs where fs:
      "walk_loop buf m (Some ?a) (off + nat (frame_bytes f)) (cnt + 1) =
         (off + nat (frame_bytes f) + span fs, cnt + 1 + length fs)"
      "chain (drop (off + nat (frame_bytes f)) buf) fs" "agree (Some ?a) fs" "length fs \<le> m - (cnt + 1)"
      "length fs < m - (cnt + 1) \<Longrightarrow>
         (\<nexists>g. chain (drop (off + nat (frame_bytes f)) buf) (fs @ [g]) \<and> agree (Some ?a) (fs @ [g]))" by blast
    have ag: "agree first (f # gs) \<longleftrightarrow> agree (Some ?a) gs" for gs
      using f(3) by (cases first) (auto simp: agree_def)
    have ch: "chain (drop off buf) (f # gs) \<longleftrightarrow> chain (drop (off + nat (frame_bytes f)) buf) gs" for gs
      using f by (auto simp: add.commute)
    show ?thesis
    proof (intro exI [of _ "f # fs"] conjI impI)
      show "walk_loop buf m first off cnt = (off + span (f # fs), cnt + length (f # fs))"
        using step fs(1) by simp
      show "chain (drop off buf) (f # fs)" using fs(2) ch by blast
      show "agree first (f # fs)" using fs(3) ag by blast
      show "length (f # fs) \<le> m - cnt" using fs(4) Suc.hyps(2) by simp
      assume "length (f # fs) < m - cnt"
      then have "length fs < m - (cnt + 1)" by simp
      from fs(5) [OF this] show "\<nexists>g. chain (drop off buf) ((f # fs) @ [g]) \<and> agree first ((f # fs) @ [g])"
        unfolding append_Cons ch ag .
    qed
  next
    case False
    then have w: "walk_loop buf m first off cnt = (off, cnt)" by (intro walk_stop) blast
    have "\<nexists>f. chain (drop off buf) [f] \<and> agree first [f]" using False Suc.prems by fastforce
    with w show ?thesis by (intro exI [of _ "[]"]) (simp add: agree_def split: option.split)
  qed
qed

lemma walk_spec:
  assumes "0 < m"
  shows "\<exists>fs. cq_mp3_walk buf m = (span fs, length fs) \<and> chain buf fs \<and> agree None fs \<and>
    length fs \<le> nat m \<and>
    (length fs < nat m \<longrightarrow> (\<nexists>f. chain buf (fs @ [f]) \<and> agree None (fs @ [f])))"
  using assms walk_loop_spec [of 0 buf "nat m" None 0] by (simp add: cq_mp3_walk_def)

lemma walk_zero: "m \<le> 0 \<Longrightarrow> cq_mp3_walk buf m = (0, 0)"
  by (simp add: cq_mp3_walk_def)

lemma walk_bound: "fst (cq_mp3_walk buf m) \<le> length buf"
  using walk_spec [of m buf] chain_span by (cases "0 < m") (auto simp: walk_zero)

text \<open>The whole-frame count of the decoder's tail gate, by the chains that fit.\<close>

lemma walk_two:
  assumes "cq_mp3_parse buf = Some a" "cq_mp3_parse (drop (nat (frame_bytes a)) buf) = Some b"
    "coherent a b" "nat (frame_bytes a) + nat (frame_bytes b) \<le> length buf"
  shows "snd (cq_mp3_walk buf 2) = 2"
proof -
  have c: "agree None [a]" "chain buf [a]" "agree None [a, b]" "chain buf [a, b]"
    using assms by (auto simp: agree_def)
  obtain fs where fs: "cq_mp3_walk buf 2 = (span fs, length fs)" "chain buf fs" "length fs \<le> 2"
    "length fs < 2 \<longrightarrow> (\<nexists>f. chain buf (fs @ [f]) \<and> agree None (fs @ [f]))"
    using walk_spec [of 2 buf] by auto
  have "length fs = 2"
  proof (rule ccontr)
    assume "length fs \<noteq> 2"
    with fs(3) have l: "length fs < 2" by simp
    then consider "fs = []" | g where "fs = [g]" by (cases fs; cases "tl fs") auto
    then show False
    proof cases
      case 1
      then show False using fs(4) c(1,2) by simp
    next
      case 2
      then have "g = a" using fs(2) assms(1) by simp
      then show False using 2 fs(4) c(3,4) by simp
    qed
  qed
  with fs(1) show ?thesis by simp
qed

subsection \<open>Synchronising\<close>

definition confirmed :: "bytes \<Rightarrow> nat \<Rightarrow> cq_mp3_frame \<Rightarrow> bool" where
  "confirmed buf i a \<longleftrightarrow> cq_mp3_parse (drop i buf) = Some a \<and> i + nat (frame_bytes a) + 4 \<le> length buf \<and>
     (\<exists>b. cq_mp3_parse (drop (i + nat (frame_bytes a)) buf) = Some b \<and> coherent a b)"

text \<open>A candidate whose predicted header is still outside the buffer.\<close>

definition undecided :: "bytes \<Rightarrow> nat \<Rightarrow> bool" where
  "undecided buf i \<longleftrightarrow> (\<exists>a. cq_mp3_parse (drop i buf) = Some a \<and> length buf < i + nat (frame_bytes a) + 4)"

definition refuted :: "bytes \<Rightarrow> nat \<Rightarrow> bool" where
  "refuted buf i \<longleftrightarrow> \<not> undecided buf i \<and> (\<nexists>a. confirmed buf i a)"

lemma sync_here:
  "i + 4 \<le> length buf \<Longrightarrow> confirmed buf i a \<Longrightarrow> sync_loop buf i = Some (i, a)"
  "i + 4 \<le> length buf \<Longrightarrow> undecided buf i \<Longrightarrow> sync_loop buf i = None"
  using parse_bounds(5) [of "drop i buf"]
  by (auto simp: confirmed_def undecided_def sync_loop.simps [of buf i])

lemma sync_skip:
  "i + 4 \<le> length buf \<Longrightarrow> refuted buf i \<Longrightarrow> sync_loop buf i = sync_loop buf (i + 1)"
  by (subst sync_loop.simps) (auto simp: refuted_def confirmed_def undecided_def split: option.split)

lemma sync_end: "\<not> i + 4 \<le> length buf \<Longrightarrow> sync_loop buf i = None"
  by (simp add: sync_loop.simps [of buf i])

lemma sync_loop_spec:
  "case sync_loop buf i of
     Some (j, a) \<Rightarrow> i \<le> j \<and> confirmed buf j a \<and> (\<forall>k. i \<le> k \<and> k < j \<longrightarrow> refuted buf k)
   | None \<Rightarrow> (\<exists>j \<ge> i. j + 4 \<le> length buf \<and> undecided buf j \<and> (\<forall>k. i \<le> k \<and> k < j \<longrightarrow> refuted buf k)) \<or>
       (\<forall>k. i \<le> k \<and> k + 4 \<le> length buf \<longrightarrow> refuted buf k)"
proof (induction "length buf - i" arbitrary: i)
  case 0
  then have "\<not> i + 4 \<le> length buf" by simp
  then show ?case by (auto simp: sync_end)
next
  case (Suc d)
  show ?case
  proof (cases "i + 4 \<le> length buf \<and> refuted buf i")
    case True
    then have step: "sync_loop buf i = sync_loop buf (i + 1)" by (simp add: sync_skip)
    have "d = length buf - (i + 1)" using Suc.hyps(2) by simp
    note ih = Suc.hyps(1) [OF this]
    have skip: "(\<forall>k. i + 1 \<le> k \<and> Q k \<longrightarrow> refuted buf k) \<longleftrightarrow> (\<forall>k. i \<le> k \<and> Q k \<longrightarrow> refuted buf k)" for Q
      using True by (metis Suc_eq_plus1 Suc_leI le_neq_implies_less add_leD1)
    show ?thesis
    proof (cases "sync_loop buf (i + 1)")
      case None
      then show ?thesis using ih unfolding step skip by (auto dest: Suc_leD)
    next
      case (Some p)
      then show ?thesis using ih unfolding step skip by (cases p) auto
    qed
  next
    case False
    then consider "\<not> i + 4 \<le> length buf" | "i + 4 \<le> length buf" "undecided buf i"
      | a where "i + 4 \<le> length buf" "confirmed buf i a" by (auto simp: refuted_def)
    then show ?thesis
    proof cases
      case 1
      then show ?thesis by (auto simp: sync_end)
    next
      case 2
      then have "sync_loop buf i = None" by (rule sync_here)
      then show ?thesis using 2 by auto
    next
      case 3
      then have "sync_loop buf i = Some (i, a)" by (rule sync_here)
      then show ?thesis using 3 by auto
    qed
  qed
qed

lemma sync_Some:
  assumes "cq_mp3_sync buf = Some (j, a)"
  shows "confirmed buf j a" "k < j \<Longrightarrow> refuted buf k"
proof -
  have "sync_loop buf 0 = Some (j, a)" using assms by (simp add: cq_mp3_sync_def split: if_splits)
  then show "confirmed buf j a" "k < j \<Longrightarrow> refuted buf k" using sync_loop_spec [where buf = buf and i = 0] by auto
qed

lemma sync_None:
  assumes "cq_mp3_sync buf = None" "4 \<le> length buf"
  shows "(\<exists>j. j + 4 \<le> length buf \<and> undecided buf j \<and> (\<forall>k < j. refuted buf k)) \<or>
    (\<forall>k. k + 4 \<le> length buf \<longrightarrow> refuted buf k)"
proof -
  have "sync_loop buf 0 = None" using assms by (simp add: cq_mp3_sync_def)
  then show ?thesis using sync_loop_spec [where buf = buf and i = 0] by auto
qed

lemma sync_confirmedI:
  assumes "confirmed buf j a" "\<And>k. k < j \<Longrightarrow> refuted buf k"
  shows "cq_mp3_sync buf = Some (j, a)"
proof -
  have l: "j + 4 \<le> length buf" using assms(1) by (auto simp: confirmed_def)
  have "sync_loop buf 0 = sync_loop buf i" if "i \<le> j" for i
    using that
  proof (induction i)
    case (Suc i)
    then show ?case using sync_skip [of i buf] assms(2) [of i] l by simp
  qed simp
  then have "sync_loop buf 0 = Some (j, a)" using sync_here(1) [OF l assms(1)] by (metis order_refl)
  then show ?thesis using l by (simp add: cq_mp3_sync_def)
qed

text \<open>
  More bytes never change a verdict that has been reached.
\<close>

lemma confirmed_append:
  assumes "confirmed buf j a" shows "confirmed (buf @ bs) j a"
proof -
  from assms obtain b where b: "cq_mp3_parse (drop j buf) = Some a" "j + nat (frame_bytes a) + 4 \<le> length buf"
    "cq_mp3_parse (drop (j + nat (frame_bytes a)) buf) = Some b" "coherent a b" by (auto simp: confirmed_def)
  have "cq_mp3_parse (drop j buf @ bs) = Some a"
    and "cq_mp3_parse (drop (j + nat (frame_bytes a)) buf @ bs) = Some b"
    using b parse_append [of "drop j buf" bs] parse_append [of "drop (j + nat (frame_bytes a)) buf" bs] by simp_all
  with b show ?thesis by (auto simp: confirmed_def)
qed

lemma refuted_append:
  assumes "refuted buf k" "k + 4 \<le> length buf" shows "refuted (buf @ bs) k"
proof (cases "cq_mp3_parse (drop k buf)")
  case None
  then have "cq_mp3_parse (drop k (buf @ bs)) = None"
    using parse_append [of "drop k buf" bs] assms(2) by simp
  then show ?thesis by (simp add: refuted_def undecided_def confirmed_def)
next
  case (Some a)
  have k: "cq_mp3_parse (drop k (buf @ bs)) = Some a"
    using parse_append [of "drop k buf" bs] assms(2) Some by simp
  have f: "k + nat (frame_bytes a) + 4 \<le> length buf" using assms(1) Some by (auto simp: refuted_def undecided_def)
  then have "cq_mp3_parse (drop (k + nat (frame_bytes a)) (buf @ bs)) =
      cq_mp3_parse (drop (k + nat (frame_bytes a)) buf)"
    using parse_append [of "drop (k + nat (frame_bytes a)) buf" bs] by simp
  with k f Some assms(1) show ?thesis by (auto simp: refuted_def undecided_def confirmed_def)
qed

lemma sync_append:
  assumes "cq_mp3_sync buf = Some (j, a)" shows "cq_mp3_sync (buf @ bs) = Some (j, a)"
proof (rule sync_confirmedI)
  show "confirmed (buf @ bs) j a" by (rule confirmed_append [OF sync_Some(1) [OF assms]])
  fix k assume "k < j"
  moreover have "j + 4 \<le> length buf" using sync_Some(1) [OF assms] by (auto simp: confirmed_def)
  ultimately show "refuted (buf @ bs) k" by (intro refuted_append sync_Some(2) [OF assms]) auto
qed

text \<open>
  A frame confirmed at the head of a deep buffer is one the walk counts two whole frames from.
\<close>

lemma sync_head_walk:
  assumes "cq_mp3_sync buf = Some (0, a)" "2 * 1441 \<le> length buf"
  shows "snd (cq_mp3_walk buf 2) = 2"
proof -
  obtain b where b: "cq_mp3_parse buf = Some a" "cq_mp3_parse (drop (nat (frame_bytes a)) buf) = Some b"
    "coherent a b" using sync_Some(1) [OF assms(1)] by (auto simp: confirmed_def)
  have "nat (frame_bytes a) \<le> 1441" "nat (frame_bytes b) \<le> 1441"
    using parse_bounds(2) [OF b(1)] parse_bounds(2) [OF b(2)] by linarith+
  with assms(2) b show ?thesis by (intro walk_two) auto
qed

subsection \<open>Properties\<close>

text \<open>C37. The header reader accepts exactly the byte sequences that start with a Layer III header of
a known version, bitrate and sample rate, and what it reports is the frame that header describes;
every frame is 24 to 1441 bytes long and decodes to 576 or 1152 samples on one or two channels.\<close>

theorem mp3_parse_exact:
  "(cq_mp3_parse p = Some f \<longleftrightarrow> (\<exists>h bs. hdr_ok h \<and> p = hdr_bytes h @ bs \<and> f = hdr_frame h)) \<and>
   (cq_mp3_parse p = Some f \<longrightarrow> 24 \<le> frame_bytes f \<and> frame_bytes f \<le> 1441 \<and>
      channels f \<in> {1, 2} \<and> samples f \<in> {576, 1152})"
  using parse_iff [of p f] parse_bounds [of p f] by blast

theorem mp3_parse_exact_witness:
  "cq_mp3_parse (map char_of [0xFF, 0xFB, 0x90, 0x44 :: nat]) =
     Some \<lparr>version = 1, bitrate_kbps = 128, samplerate = 44100, channels = 2, samples = 1152,
       frame_bytes = 417\<rparr>"
proof -
  let ?h = "\<lparr>h_ver = 3, h_prot = 1, h_bidx = 9, h_ridx = 0, h_pad = 0, h_priv = 0, h_mode = 1, h_rest = 4\<rparr>"
  have "hdr_ok ?h" by (simp add: hdr_ok_def)
  moreover have "map char_of [0xFF, 0xFB, 0x90, 0x44 :: nat] = hdr_bytes ?h @ []" by code_simp
  moreover have "hdr_frame ?h = \<lparr>version = 1, bitrate_kbps = 128, samplerate = 44100, channels = 2,
      samples = 1152, frame_bytes = 417\<rparr>" by code_simp
  ultimately show ?thesis using mp3_parse_exact by metis
qed

text \<open>Walking a buffer counts whole frames laid end to end from its start that agree with the
first in version and sample rate, returns the exact number of bytes they span, never past the
buffer, and stops before the limit only when no further whole agreeing frame follows.\<close>

lemma mp3_walk_whole_frames:
  assumes "0 < m"
  shows "\<exists>fs. cq_mp3_walk buf m = (span fs, length fs) \<and> chain buf fs \<and> agree None fs \<and>
    span fs \<le> length buf \<and> length fs \<le> nat m \<and>
    (length fs < nat m \<longrightarrow> (\<nexists>f. chain buf (fs @ [f]) \<and> agree None (fs @ [f])))"
  using walk_spec [OF assms, of buf] chain_span by blast

text \<open>C36. Synchronisation returns the first offset whose header is confirmed by an agreeing header
where its frame ends, every earlier offset having been refuted; it answers that more bytes are
needed only when the first unrefuted candidate points outside the buffer or no offset is a
candidate; and an answer is final, the same when more bytes are accumulated.\<close>

theorem mp3_sync_first_confirmed:
  "(\<forall>j a. cq_mp3_sync buf = Some (j, a) \<longleftrightarrow> confirmed buf j a \<and> (\<forall>k < j. refuted buf k)) \<and>
   (cq_mp3_sync buf = None \<and> 4 \<le> length buf \<longrightarrow>
      (\<exists>j. j + 4 \<le> length buf \<and> undecided buf j \<and> (\<forall>k < j. refuted buf k)) \<or>
      (\<forall>k. k + 4 \<le> length buf \<longrightarrow> refuted buf k)) \<and>
   (\<forall>j a bs. cq_mp3_sync buf = Some (j, a) \<longrightarrow> cq_mp3_sync (buf @ bs) = Some (j, a))"
  using sync_Some [of buf] sync_None [of buf] sync_append [of buf] sync_confirmedI [of buf] by blast

theorem mp3_sync_first_confirmed_witness:
  "cq_mp3_sync (replicate 500 (char_of (0 :: nat))) = None"
proof (cases "cq_mp3_sync (replicate 500 (char_of (0 :: nat)))")
  case (Some p)
  then obtain j a where "confirmed (replicate 500 (char_of (0 :: nat))) j a"
    using mp3_sync_first_confirmed [of "replicate 500 (char_of (0 :: nat))"] by (cases p) auto
  then have "cq_mp3_parse (replicate (500 - j) (char_of (0 :: nat))) = Some a" "j < 500"
    by (auto simp: confirmed_def)
  then have "u8 (char_of (0 :: nat)) = 0xFF" using parse_bounds(5) [of "replicate (500 - j) (char_of (0 :: nat))"]
    by simp
  then show ?thesis by (simp add: u8_nat)
qed

end
