(* ===== verification/Ring.thy ===== *)
theory Ring
  imports Prelude
begin

text \<open>
  The byte rings of the audio path. A ring is a buffer of \<open>sz\<close> bytes and two monotone
  32-bit cursors, each with one writer; the copies in and out are split where they meet the end
  of the buffer. The locale states the arithmetic once, for every ring whose size divides
  \<open>2 ^ 32\<close>: then cursor wrap-around is invisible, and the bytes between the cursors are a
  first-in-first-out queue.
\<close>

subsection \<open>memcpy and the split copies\<close>

definition memcpy_at :: "'a list \<Rightarrow> nat \<Rightarrow> 'a list \<Rightarrow> 'a list" where
  "memcpy_at m off bs = take off m @ bs @ drop (off + length bs) m"

lemma length_memcpy [simp]: "off + length bs \<le> length m \<Longrightarrow> length (memcpy_at m off bs) = length m"
  by (simp add: memcpy_at_def)

lemma nth_memcpy:
  assumes "off + length bs \<le> length m" "k < length m"
  shows "memcpy_at m off bs ! k = (if off \<le> k \<and> k < off + length bs then bs ! (k - off) else m ! k)"
  using assms by (auto simp: memcpy_at_def nth_append min_def)

text \<open>
  The write of \<open>bs\<close> at cursor \<open>wr\<close> and the read of \<open>n\<close> bytes at cursor \<open>rd\<close>.
\<close>

definition ring_write :: "bytes \<Rightarrow> nat \<Rightarrow> u32 \<Rightarrow> bytes \<Rightarrow> bytes" where
  "ring_write m sz wr bs =
     (let w = unat wr mod sz;
          first = (if sz - w > length bs then length bs else sz - w);
          m1 = memcpy_at m w (take first bs)
      in if length bs > first then memcpy_at m1 0 (drop first bs) else m1)"

definition ring_read :: "bytes \<Rightarrow> nat \<Rightarrow> u32 \<Rightarrow> nat \<Rightarrow> bytes" where
  "ring_read m sz rd n =
     (let r = unat rd mod sz;
          first = (if sz - r > n then n else sz - r)
      in take first (drop r m) @ (if n > first then take (n - first) m else []))"

definition fill :: "u32 \<Rightarrow> u32 \<Rightarrow> nat" where
  "fill wr rd = unat (wr - rd)"

text \<open>The queued bytes: those between the cursors, oldest first.\<close>

definition queued :: "bytes \<Rightarrow> nat \<Rightarrow> u32 \<Rightarrow> u32 \<Rightarrow> bytes" where
  "queued m sz rd wr = map (\<lambda>i. m ! ((unat rd + i) mod sz)) [0..<fill wr rd]"

lemma length_queued [simp]: "length (queued m sz rd wr) = fill wr rd"
  by (simp add: queued_def)

lemma fill_self [simp]: "fill c c = 0"
  by (simp add: fill_def)

lemma fill_le: "fill wr rd < 2 ^ 32"
  unfolding fill_def using unsigned_less [of "wr - rd"] by simp

lemma unat_plus_nat: "unat (d :: u32) + n < 2 ^ 32 \<Longrightarrow> unat (d + of_nat n) = unat d + n"
  by (simp add: unat_word_ariths unat_of_nat mod_simps take_bit_eq_mod)

lemma unat_minus_nat:
  assumes "n \<le> unat (d :: u32)" shows "unat (d - of_nat n) = unat d - n"
proof -
  have "n < 2 ^ 32" using assms unsigned_less [of d, where ?'a = nat] by simp
  then have "unat (of_nat n :: u32) = n" by (simp add: unat_of_nat take_bit_eq_mod)
  then show ?thesis using assms by (simp add: unat_sub word_le_nat_alt)
qed

lemma fill_add_wr:
  assumes "fill wr rd + n < 2 ^ 32" shows "fill (wr + of_nat n) rd = fill wr rd + n"
proof -
  have "wr + of_nat n - rd = (wr - rd) + of_nat n" by simp
  then show ?thesis using unat_plus_nat [of "wr - rd" n] assms by (simp only: fill_def)
qed

lemma fill_add_rd:
  assumes "n \<le> fill wr rd" shows "fill wr (rd + of_nat n) = fill wr rd - n"
proof -
  have "wr - (rd + of_nat n) = (wr - rd) - of_nat n" by simp
  then show ?thesis using unat_minus_nat [of n "wr - rd"] assms by (simp only: fill_def)
qed

lemma mod_once: "(a :: nat) < 2 * n \<Longrightarrow> a mod n = (if a < n then a else a - n)"
  by (simp add: le_mod_geq)

locale byte_ring =
  fixes sz :: nat
  assumes size_pos: "0 < sz" and size_dvd: "sz dvd 2 ^ 32"
begin

lemma size_le: "sz \<le> 2 ^ 32"
  using size_dvd by (rule dvd_imp_le) simp

lemma cursor_mod: "unat (c + of_nat n :: u32) mod sz = (unat c + n) mod sz"
proof -
  have "unat (c + of_nat n :: u32) = (unat c + n) mod 2 ^ 32"
    by (simp add: unat_word_ariths unat_of_nat mod_simps take_bit_eq_mod)
  then show ?thesis using mod_mod_cancel [OF size_dvd] by metis
qed

lemma split_read:
  assumes "r < sz" "length m = sz" "n \<le> sz" "i < n"
  shows "(take (min n (sz - r)) (drop r m) @ (if sz - r < n then take (n - (sz - r)) m else [])) ! i =
    m ! (if r + i < sz then r + i else r + i - sz)"
  using assms by (auto simp: nth_append add.commute min_def)

lemma ring_read_nth:
  assumes "length m = sz" "n \<le> sz" "i < n"
  shows "ring_read m sz rd n ! i = m ! ((unat rd + i) mod sz)"
proof -
  define r where "r = unat rd mod sz"
  have r: "r < sz" using size_pos by (simp add: r_def)
  have "(unat rd + i) mod sz = (r + i) mod sz" by (simp add: r_def mod_simps)
  also have "\<dots> = (if r + i < sz then r + i else r + i - sz)" using r assms by (intro mod_once) simp
  finally have e: "(unat rd + i) mod sz = (if r + i < sz then r + i else r + i - sz)" .
  have "ring_read m sz rd n = take (min n (sz - r)) (drop r m) @ (if sz - r < n then take (n - (sz - r)) m else [])"
    by (auto simp: ring_read_def Let_def r_def min_def)
  then show ?thesis unfolding e using split_read [OF r assms] by simp
qed

lemma length_ring_read: "length m = sz \<Longrightarrow> n \<le> sz \<Longrightarrow> length (ring_read m sz rd n) = n"
  using mod_less_divisor [OF size_pos, of "unat rd"] by (simp add: ring_read_def Let_def)

lemma ring_read_queued:
  assumes "length m = sz" "n \<le> fill wr rd" "fill wr rd \<le> sz"
  shows "ring_read m sz rd n = take n (queued m sz rd wr)"
proof (rule nth_equalityI)
  show "length (ring_read m sz rd n) = length (take n (queued m sz rd wr))"
    using assms by (simp add: length_ring_read)
  fix i assume "i < length (ring_read m sz rd n)"
  then have "i < n" using assms by (simp add: length_ring_read)
  then show "ring_read m sz rd n ! i = take n (queued m sz rd wr) ! i"
    using assms by (simp add: ring_read_nth queued_def)
qed

lemma queued_advance:
  assumes "n \<le> fill wr rd"
  shows "queued m sz (rd + of_nat n) wr = drop n (queued m sz rd wr)"
proof (rule nth_equalityI)
  show "length (queued m sz (rd + of_nat n) wr) = length (drop n (queued m sz rd wr))"
    using assms by (simp add: fill_add_rd)
  fix i assume "i < length (queued m sz (rd + of_nat n) wr)"
  then have i: "i < fill wr rd - n" using assms by (simp add: fill_add_rd)
  have "(unat (rd + of_nat n :: u32) + i) mod sz = (unat rd + (n + i)) mod sz"
    using cursor_mod [of rd n] by (metis add.assoc mod_add_left_eq)
  moreover have "n + i < fill wr rd" using i by simp
  ultimately show "queued m sz (rd + of_nat n) wr ! i = drop n (queued m sz rd wr) ! i"
    using i assms by (simp add: queued_def fill_add_rd)
qed

lemma length_ring_write:
  assumes "length m = sz" "length bs \<le> sz"
  shows "length (ring_write m sz wr bs) = sz"
  using assms mod_less_divisor [OF size_pos, of "unat wr"] by (simp add: ring_write_def Let_def)

lemma split_write:
  assumes "w < sz" "length m = sz" "length bs \<le> sz" "k < sz" "\<not> length bs \<le> sz - w"
  shows "memcpy_at (memcpy_at m w (take (sz - w) bs)) 0 (drop (sz - w) bs) ! k =
    (if w \<le> k then bs ! (k - w) else if k + sz - w < length bs then bs ! (k + sz - w) else m ! k)"
proof -
  let ?m1 = "memcpy_at m w (take (sz - w) bs)"
  have l: "length ?m1 = sz" using assms by simp
  have m1: "?m1 ! k = (if w \<le> k then bs ! (k - w) else m ! k)"
    using assms by (simp add: nth_memcpy)
  have "memcpy_at ?m1 0 (drop (sz - w) bs) ! k = (if k < length bs - (sz - w) then bs ! (sz - w + k) else ?m1 ! k)"
    using assms l by (simp add: nth_memcpy)
  moreover have "sz - w + k = k + sz - w" "k < length bs - (sz - w) \<longleftrightarrow> k + sz - w < length bs"
    using assms(1,5) by auto
  moreover have "w \<le> k \<Longrightarrow> \<not> k + sz - w < length bs" using assms by linarith
  ultimately show ?thesis using m1 by simp
qed

lemma ring_write_nth:
  assumes "length m = sz" "length bs \<le> sz" "k < sz"
  shows "ring_write m sz wr bs ! k =
    (let j = (k + sz - unat wr mod sz) mod sz in if j < length bs then bs ! j else m ! k)"
proof -
  define w where "w = unat wr mod sz"
  have w: "w < sz" using size_pos by (simp add: w_def)
  have j: "(k + sz - w) mod sz = (if w \<le> k then k - w else k + sz - w)"
    using w assms(3) by (auto simp: mod_once)
  show ?thesis
  proof (cases "length bs \<le> sz - w")
    case True
    then have "ring_write m sz wr bs = memcpy_at m w bs" by (simp add: ring_write_def Let_def w_def)
    moreover have "\<not> w \<le> k \<Longrightarrow> \<not> k + sz - w < length bs" using True w by linarith
    moreover have "k < w + length bs \<longleftrightarrow> k - w < length bs" if "w \<le> k" using that by auto
    ultimately show ?thesis unfolding w_def [symmetric] j Let_def
      using nth_memcpy [of w bs m k] True w assms by auto
  next
    case False
    then have "ring_write m sz wr bs = memcpy_at (memcpy_at m w (take (sz - w) bs)) 0 (drop (sz - w) bs)"
      by (simp add: ring_write_def Let_def w_def)
    moreover have "w \<le> k \<Longrightarrow> k - w < length bs" using False assms(3) by linarith
    ultimately show ?thesis unfolding w_def [symmetric] j Let_def
      using split_write [OF w assms False] by auto
  qed
qed

lemma ring_write_at:
  assumes "length m = sz" "length bs \<le> sz" "i < sz"
  shows "ring_write m sz wr bs ! ((unat wr + i) mod sz) =
    (if i < length bs then bs ! i else m ! ((unat wr + i) mod sz))"
proof -
  let ?w = "unat wr mod sz"
  have "((unat wr + i) mod sz + sz - ?w) mod sz = ((unat wr + i) mod sz + (sz - ?w)) mod sz"
    using size_pos by simp
  also have "\<dots> = (?w + i + (sz - ?w)) mod sz" by (metis mod_add_left_eq)
  also have "\<dots> = (i + sz) mod sz" using mod_less_divisor [OF size_pos, of "unat wr"] by (simp add: add.commute)
  also have "\<dots> = i" using assms(3) by simp
  finally show ?thesis
    using ring_write_nth [OF assms(1,2), of "(unat wr + i) mod sz" wr] size_pos by (simp add: Let_def)
qed

text \<open>Writing at the producer's cursor appends, and leaves what is queued as it was.\<close>

lemma queued_write:
  assumes "length m = sz" "fill wr rd + length bs \<le> sz" "fill wr rd + length bs < 2 ^ 32"
  shows "queued (ring_write m sz wr bs) sz rd (wr + of_nat (length bs)) = queued m sz rd wr @ bs"
proof (rule nth_equalityI)
  show "length (queued (ring_write m sz wr bs) sz rd (wr + of_nat (length bs))) =
      length (queued m sz rd wr @ bs)" using assms by (simp add: fill_add_wr)
  fix i assume "i < length (queued (ring_write m sz wr bs) sz rd (wr + of_nat (length bs)))"
  then have i: "i < fill wr rd + length bs" using assms by (simp add: fill_add_wr)
  have wr: "(unat rd + (fill wr rd + k)) mod sz = (unat wr + k) mod sz" for k
  proof -
    have "wr = rd + of_nat (fill wr rd)" by (simp add: fill_def)
    then have "unat wr mod sz = (unat rd + fill wr rd) mod sz" using cursor_mod by metis
    then show ?thesis by (metis add.assoc mod_add_left_eq)
  qed
  have lb: "length bs \<le> sz" using assms by simp
  have "ring_write m sz wr bs ! ((unat rd + i) mod sz) = (queued m sz rd wr @ bs) ! i"
  proof (cases "i < fill wr rd")
    case False
    then obtain j where j: "i = fill wr rd + j" by (metis le_add_diff_inverse not_less)
    then have "j < length bs" "j < sz" using i assms(2) by simp_all
    then show ?thesis using j wr [of j] ring_write_at [OF assms(1) lb, of j wr]
      by (simp add: nth_append)
  next
    case True
    define k where "k = i + sz - fill wr rd"
    have k: "k < sz" "length bs \<le> k" using True assms by (simp_all add: k_def)
    have "(unat wr + k) mod sz = (unat rd + (fill wr rd + k)) mod sz" by (rule wr [symmetric])
    also have "\<dots> = (unat rd + i + sz) mod sz" using True assms by (simp add: k_def add.assoc)
    finally have "(unat rd + i) mod sz = (unat wr + k) mod sz" by simp
    then show ?thesis using True k ring_write_at [OF assms(1) lb k(1), of wr]
      by (simp add: nth_append queued_def)
  qed
  then show "queued (ring_write m sz wr bs) sz rd (wr + of_nat (length bs)) ! i =
      (queued m sz rd wr @ bs) ! i" using i assms by (simp add: queued_def fill_add_wr)
qed

end

end
