(* ===== verification/Decring.thy ===== *)
theory Decring
  imports Mp3 Ring
begin

text \<open>
  The decode pipeline (\<open>cq_decring.c\<close>, with the decoder seam \<open>cq_mp3dec.c\<close>): a ring of
  compressed bytes, a private flat stage, and the pump that decodes staged frames into the PCM
  ring. The vendored decoder is a parameter \<open>dec\<close>, a function on a world \<open>'w\<close> that also
  holds the injected clock \<open>clk\<close>; what the pipeline relies on is \<open>dec_ok\<close>. The stage is
  its valid prefix, so \<open>stage_len\<close> is its length; PCM is the byte image of the samples.
\<close>

abbreviation CQ_MP3DEC_MAX_SAMPLES :: nat where "CQ_MP3DEC_MAX_SAMPLES \<equiv> 2304"
abbreviation CQ_DECRING_STAGE :: nat where "CQ_DECRING_STAGE \<equiv> 65536"

subsection \<open>The decoder seam\<close>

record dec_out =
  o_samples :: int
  o_frame_bytes :: int
  o_channels :: int
  o_hz :: int
  o_pcm :: bytes

definition cq_mp3dec_frame :: "('w \<Rightarrow> bytes \<Rightarrow> 'w \<times> dec_out) \<Rightarrow> 'w \<Rightarrow> bytes \<Rightarrow> 'w \<times> dec_out" where
  "cq_mp3dec_frame dec w buf =
     (if buf = [] then (w, \<lparr>o_samples = 0, o_frame_bytes = 0, o_channels = 0, o_hz = 0, o_pcm = []\<rparr>)
      else dec w buf)"

text \<open>
  The documented behaviour of the decoder: it consumes at most what it is given, writes no more
  than the PCM buffer holds, and when it reports samples they are at most 1152 per channel, on one
  or two channels, and are what it wrote.
\<close>

definition out_ok :: "nat \<Rightarrow> dec_out \<Rightarrow> bool" where
  "out_ok n d \<longleftrightarrow> o_frame_bytes d \<le> int n \<and> length (o_pcm d) \<le> CQ_MP3DEC_MAX_SAMPLES * 2 \<and>
     (0 < o_samples d \<longrightarrow> o_samples d \<le> 1152 \<and> o_channels d \<in> {1, 2} \<and>
        int (length (o_pcm d)) = o_samples d * o_channels d * 2)"

definition dec_ok :: "('w \<Rightarrow> bytes \<Rightarrow> 'w \<times> dec_out) \<Rightarrow> bool" where
  "dec_ok dec \<longleftrightarrow> (\<forall>w buf. out_ok (length buf) (snd (dec w buf)))"

subsection \<open>The pipeline\<close>

record cq_decring =
  comp :: bytes
  comp_size :: nat
  comp_wr :: u32
  comp_rd :: u32
  eof :: bool
  stage :: bytes
  frame :: bytes
  pcm :: bytes
  pcm_size :: nat
  pcm_wr :: u32
  pcm_rd :: u32
  frames :: int
  resyncs :: int
  resync_bytes :: int
  flushes :: int
  pcm_total :: int
  dec_time :: "64 word"
  now :: bool

definition cq_decring_init :: "bytes \<Rightarrow> nat \<Rightarrow> bytes \<Rightarrow> nat \<Rightarrow> u32 \<Rightarrow> u32 \<Rightarrow> cq_decring" where
  "cq_decring_init c csize p psize pwr prd =
     \<lparr>comp = c, comp_size = csize, comp_wr = 0, comp_rd = 0, eof = False, stage = [],
      frame = replicate (CQ_MP3DEC_MAX_SAMPLES * 2) NUL, pcm = p, pcm_size = psize, pcm_wr = pwr, pcm_rd = prd,
      frames = 0, resyncs = 0, resync_bytes = 0, flushes = 0, pcm_total = 0, dec_time = 0, now = False\<rparr>"

definition cq_decring_space :: "cq_decring \<Rightarrow> u32" where
  "cq_decring_space r = of_nat (comp_size r) - (comp_wr r - comp_rd r)"

text \<open>The write position, as an offset into the ring, and the bytes writable there.\<close>

definition cq_decring_claim :: "cq_decring \<Rightarrow> nat \<times> nat" where
  "cq_decring_claim r =
     (let space = unat (cq_decring_space r);
          wr = unat (comp_wr r) mod comp_size r;
          lin = comp_size r - wr
      in (wr, if space < lin then space else lin))"

definition cq_decring_commit :: "cq_decring \<Rightarrow> u32 \<Rightarrow> cq_decring" where
  "cq_decring_commit r n = r\<lparr>comp_wr := comp_wr r + n\<rparr>"

definition cq_decring_eof :: "cq_decring \<Rightarrow> cq_decring" where
  "cq_decring_eof r = r\<lparr>eof := True\<rparr>"

definition cq_decring_idle :: "cq_decring \<Rightarrow> bool" where
  "cq_decring_idle r \<longleftrightarrow> comp_wr r = comp_rd r \<and> length (stage r) = 0"

definition cq_decring_reset :: "cq_decring \<Rightarrow> cq_decring" where
  "cq_decring_reset r = r\<lparr>comp_wr := 0, comp_rd := 0, eof := False, stage := [], frames := 0,
     resyncs := 0, resync_bytes := 0, flushes := 0, pcm_total := 0, dec_time := 0\<rparr>"

definition top_up :: "cq_decring \<Rightarrow> cq_decring \<times> bool" where
  "top_up r =
     (let avail = unat (comp_wr r - comp_rd r);
          room = CQ_DECRING_STAGE - length (stage r);
          take = (if avail < room then avail else room)
      in if take \<noteq> 0
         then (r\<lparr>stage := stage r @ ring_read (comp r) (comp_size r) (comp_rd r) take,
                 comp_rd := comp_rd r + of_nat take\<rparr>, True)
         else (r, False))"

definition timed_decode ::
  "('w \<Rightarrow> bytes \<Rightarrow> 'w \<times> dec_out) \<Rightarrow> ('w \<Rightarrow> 'w \<times> 64 word) \<Rightarrow> cq_decring \<Rightarrow> bytes \<Rightarrow> 'w \<Rightarrow>
     'w \<times> dec_out \<times> cq_decring" where
  "timed_decode dec clk r buf w =
     (if now r then
        (let (w, t0) = clk w; (w, out) = cq_mp3dec_frame dec w buf; (w, t1) = clk w
         in (w, out, r\<lparr>frame := memcpy_at (frame r) 0 (o_pcm out), dec_time := dec_time r + (t1 - t0)\<rparr>))
      else
        (let (w, out) = cq_mp3dec_frame dec w buf
         in (w, out, r\<lparr>frame := memcpy_at (frame r) 0 (o_pcm out)\<rparr>)))"

definition publish :: "cq_decring \<Rightarrow> nat \<Rightarrow> cq_decring" where
  "publish r bytes =
     r\<lparr>pcm := ring_write (pcm r) (pcm_size r) (pcm_wr r) (take bytes (frame r)),
       pcm_wr := pcm_wr r + of_nat bytes,
       pcm_total := wrap32 (pcm_total r + wrap32 (int bytes))\<rparr>"

text \<open>
  One turn of the decode loop: True in front asks for another turn.
\<close>

definition pump_turn ::
  "('w \<Rightarrow> bytes \<Rightarrow> 'w \<times> dec_out) \<Rightarrow> ('w \<Rightarrow> 'w \<times> 64 word) \<Rightarrow> cq_decring \<Rightarrow> nat \<Rightarrow> bool \<Rightarrow> 'w \<Rightarrow>
     bool \<times> cq_decring \<times> nat \<times> bool \<times> 'w" where
  "pump_turn dec clk r used progress w =
     (let space = of_nat (pcm_size r) - (pcm_wr r - pcm_rd r) in
      if space < of_nat (CQ_MP3DEC_MAX_SAMPLES * 2) then (False, r, used, progress, w)
      else if used \<ge> length (stage r) then (False, r, used, progress, w)
      else
        let tail = drop used (stage r); wf = snd (cq_mp3_walk tail 2) in
        if wf < (if eof r then 1 else 2) then
          if length tail > 8192 then
            (case cq_mp3_sync tail of
               Some (off, nf) \<Rightarrow>
                 if off > 0
                 then (True, r\<lparr>resyncs := wrap32 (resyncs r + 1),
                               resync_bytes := wrap32 (resync_bytes r + int off)\<rparr>, used + off, progress, w)
                 else (False, r, used, progress, w)
             | None \<Rightarrow> (False, r\<lparr>flushes := wrap32 (flushes r + 1)\<rparr>, length (stage r), progress, w))
          else (False, r, used, progress, w)
        else
          let (w, out, r) = timed_decode dec clk r tail w in
          if o_frame_bytes out \<le> 0 then (False, r, used, progress, w)
          else if o_samples out \<le> 0 then (True, r, used + nat (o_frame_bytes out), True, w)
          else
            let bytes = unat (of_int (o_samples out) * of_int (o_channels out) * 2 :: u32)
            in (True, publish (r\<lparr>frames := wrap32 (frames r + 1)\<rparr>) bytes,
                used + nat (o_frame_bytes out), True, w))"

lemma timed_decode_frame:
  "timed_decode dec clk r buf w = (w', out, r') \<Longrightarrow>
     \<exists>w0 t. out = snd (cq_mp3dec_frame dec w0 buf) \<and>
       r' = r\<lparr>frame := memcpy_at (frame r) 0 (o_pcm out), dec_time := t\<rparr>"
proof (cases "now r")
  case True
  assume "timed_decode dec clk r buf w = (w', out, r')"
  with True show ?thesis
    by (intro exI [of _ "fst (clk w)"]) (auto simp: timed_decode_def Let_def split_beta)
next
  case False
  assume "timed_decode dec clk r buf w = (w', out, r')"
  with False show ?thesis
    by (intro exI [of _ w] exI [of _ "dec_time r"]) (auto simp: timed_decode_def Let_def split_beta)
qed

lemma pump_turn_progress:
  assumes "pump_turn dec clk r used p w = (True, r', used', p', w')"
  shows "used < length (stage r)" "used < used'" "stage r' = stage r"
proof -
  have *: "used < length (stage r) \<and> used < used' \<and> stage r' = stage r"
    using assms unfolding pump_turn_def Let_def
    by (auto simp: publish_def split: if_splits option.splits prod.splits dest!: timed_decode_frame)
  then show "used < length (stage r)" "used < used'" "stage r' = stage r" by auto
qed

lemma pump_turn_measure:
  "(True, r', used', p', w') = pump_turn dec clk r used p w \<Longrightarrow>
     length (stage r') - used' < length (stage r) - used"
  using pump_turn_progress [of dec clk r used p w r' used' p' w'] by auto

function pump_loop ::
  "('w \<Rightarrow> bytes \<Rightarrow> 'w \<times> dec_out) \<Rightarrow> ('w \<Rightarrow> 'w \<times> 64 word) \<Rightarrow> cq_decring \<Rightarrow> nat \<Rightarrow> bool \<Rightarrow> 'w \<Rightarrow>
     cq_decring \<times> nat \<times> bool \<times> 'w" where
  "pump_loop dec clk r used progress w =
     (case pump_turn dec clk r used progress w of
        (True, r', used', progress', w') \<Rightarrow> pump_loop dec clk r' used' progress' w'
      | (False, result) \<Rightarrow> result)"
  by pat_completeness auto
termination
  by (relation "measure (\<lambda>(dec, clk, r, used, p, w). length (stage r) - used)") (auto dest: pump_turn_measure)

declare pump_loop.simps [simp del]

definition cq_decring_pump ::
  "('w \<Rightarrow> bytes \<Rightarrow> 'w \<times> dec_out) \<Rightarrow> ('w \<Rightarrow> 'w \<times> 64 word) \<Rightarrow> cq_decring \<Rightarrow> 'w \<Rightarrow>
     cq_decring \<times> bool \<times> 'w" where
  "cq_decring_pump dec clk r w =
     (let (r, progress) = top_up r;
          (r, used, progress, w) = pump_loop dec clk r 0 progress w
      in (if used \<noteq> 0 then r\<lparr>stage := drop used (stage r)\<rparr> else r, progress, w))"

subsection \<open>The invariant\<close>

definition decring_ok :: "cq_decring \<Rightarrow> bool" where
  "decring_ok r \<longleftrightarrow>
     byte_ring (comp_size r) \<and> comp_size r < 2 ^ 32 \<and> length (comp r) = comp_size r \<and>
     fill (comp_wr r) (comp_rd r) \<le> comp_size r \<and>
     byte_ring (pcm_size r) \<and> pcm_size r < 2 ^ 32 \<and> length (pcm r) = pcm_size r \<and>
     fill (pcm_wr r) (pcm_rd r) \<le> pcm_size r \<and>
     length (stage r) \<le> CQ_DECRING_STAGE \<and> length (frame r) = CQ_MP3DEC_MAX_SAMPLES * 2"

text \<open>The compressed bytes not yet decoded, and the PCM bytes not yet played.\<close>

definition comp_queue :: "cq_decring \<Rightarrow> bytes" where
  "comp_queue r = queued (comp r) (comp_size r) (comp_rd r) (comp_wr r)"

definition pcm_queue :: "cq_decring \<Rightarrow> bytes" where
  "pcm_queue r = queued (pcm r) (pcm_size r) (pcm_rd r) (pcm_wr r)"

definition input :: "cq_decring \<Rightarrow> bytes" where
  "input r = stage r @ comp_queue r"

lemma space_unat:
  assumes "fill wr rd \<le> n" "n < 2 ^ 32"
  shows "unat (of_nat n - (wr - rd) :: u32) = n - fill wr rd"
proof -
  have u: "unat (of_nat n :: u32) = n" using assms(2) by (simp add: unat_of_nat take_bit_eq_mod)
  have "wr - rd = of_nat (fill wr rd)" by (simp add: fill_def)
  then show ?thesis using unat_minus_nat [of "fill wr rd" "of_nat n"] u assms(1) by simp
qed

lemma idle_input: "decring_ok r \<Longrightarrow> cq_decring_idle r \<longleftrightarrow> input r = []"
  unfolding cq_decring_idle_def input_def comp_queue_def queued_def fill_def
  by (auto simp: unat_eq_0)

subsection \<open>The producer's side\<close>

lemma space_spec:
  "decring_ok r \<Longrightarrow> unat (cq_decring_space r) = comp_size r - length (comp_queue r)"
  by (simp add: cq_decring_space_def decring_ok_def space_unat comp_queue_def)

lemma claim_spec:
  assumes "decring_ok r" "cq_decring_claim r = (off, contig)"
  shows "off = unat (comp_wr r) mod comp_size r" "off + contig \<le> comp_size r"
    "contig \<le> comp_size r - length (comp_queue r)"
    "contig = 0 \<longleftrightarrow> length (comp_queue r) = comp_size r"
proof -
  have "0 < comp_size r" using assms(1) by (simp add: decring_ok_def byte_ring_def)
  then have m: "unat (comp_wr r) mod comp_size r < comp_size r" by simp
  have q: "length (comp_queue r) \<le> comp_size r" using assms(1) by (simp add: decring_ok_def comp_queue_def)
  show "off = unat (comp_wr r) mod comp_size r" "off + contig \<le> comp_size r"
    "contig \<le> comp_size r - length (comp_queue r)"
    "contig = 0 \<longleftrightarrow> length (comp_queue r) = comp_size r"
    using assms(2) m q by (auto simp: cq_decring_claim_def space_spec [OF assms(1)] Let_def split: if_splits)
qed

text \<open>The producer writes at the claimed position what it then commits.\<close>

definition put_claimed :: "cq_decring \<Rightarrow> bytes \<Rightarrow> cq_decring" where
  "put_claimed r bs =
     cq_decring_commit (r\<lparr>comp := memcpy_at (comp r) (fst (cq_decring_claim r)) bs\<rparr>) (of_nat (length bs))"

lemma put_claimed_spec:
  assumes "decring_ok r" "length bs \<le> snd (cq_decring_claim r)"
  shows "decring_ok (put_claimed r bs)" "comp_queue (put_claimed r bs) = comp_queue r @ bs"
    "input (put_claimed r bs) = input r @ bs" "pcm_queue (put_claimed r bs) = pcm_queue r"
proof -
  obtain off contig where c: "cq_decring_claim r = (off, contig)" by (cases "cq_decring_claim r")
  note sp = claim_spec [OF assms(1) c] and ok = assms(1) [unfolded decring_ok_def]
  have ring: "byte_ring (comp_size r)" using ok by blast
  have l: "off + length bs \<le> comp_size r" using sp(2) assms(2) c by simp
  have f: "fill (comp_wr r) (comp_rd r) + length bs \<le> comp_size r"
  proof -
    have "length bs \<le> comp_size r - fill (comp_wr r) (comp_rd r)"
      using sp(3) assms(2) c by (simp add: comp_queue_def)
    moreover have "fill (comp_wr r) (comp_rd r) \<le> comp_size r" using ok by blast
    ultimately show ?thesis by linarith
  qed
  have w: "memcpy_at (comp r) off bs = ring_write (comp r) (comp_size r) (comp_wr r) bs"
  proof -
    have "\<not> comp_size r - off < length bs" using l by linarith
    then show ?thesis by (simp add: ring_write_def Let_def sp(1))
  qed
  have f32: "fill (comp_wr r) (comp_rd r) + length bs < 2 ^ 32" using f ok by linarith
  have put: "put_claimed r bs = r\<lparr>comp := ring_write (comp r) (comp_size r) (comp_wr r) bs,
      comp_wr := comp_wr r + of_nat (length bs)\<rparr>"
    by (simp add: put_claimed_def cq_decring_commit_def c w)
  show q: "comp_queue (put_claimed r bs) = comp_queue r @ bs"
    using byte_ring.queued_write [OF ring _ f f32] ok by (simp add: put comp_queue_def)
  have "length (ring_write (comp r) (comp_size r) (comp_wr r) bs) = comp_size r"
    using byte_ring.length_ring_write [OF ring] ok l by simp
  then show "decring_ok (put_claimed r bs)"
    using ok f f32 by (simp add: put decring_ok_def fill_add_wr)
  show "input (put_claimed r bs) = input r @ bs" by (simp add: input_def q) (simp add: put)
  show "pcm_queue (put_claimed r bs) = pcm_queue r" by (simp add: put pcm_queue_def)
qed

subsection \<open>The consumer's side\<close>

lemma top_up_spec:
  assumes "decring_ok r" "top_up r = (r', p)"
  shows "decring_ok r'" "input r' = input r" "pcm_queue r' = pcm_queue r" "pcm_size r' = pcm_size r"
    "pcm_wr r' = pcm_wr r" "pcm_rd r' = pcm_rd r" "eof r' = eof r"
    "frames r' = frames r" "resyncs r' = resyncs r" "resync_bytes r' = resync_bytes r"
    "flushes r' = flushes r" "pcm_total r' = pcm_total r"
    "p \<longleftrightarrow> comp_queue r \<noteq> [] \<and> length (stage r) < CQ_DECRING_STAGE"
    "comp_queue r' = [] \<or> length (stage r') = CQ_DECRING_STAGE"
proof -
  note ok = assms(1) [unfolded decring_ok_def]
  define n where "n = (if fill (comp_wr r) (comp_rd r) < CQ_DECRING_STAGE - length (stage r)
    then fill (comp_wr r) (comp_rd r) else CQ_DECRING_STAGE - length (stage r))"
  have n: "n \<le> fill (comp_wr r) (comp_rd r)" "n \<le> CQ_DECRING_STAGE - length (stage r)"
    by (simp_all add: n_def)
  have r': "r' = (if n \<noteq> 0 then r\<lparr>stage := stage r @ ring_read (comp r) (comp_size r) (comp_rd r) n,
      comp_rd := comp_rd r + of_nat n\<rparr> else r)" "p = (n \<noteq> 0)"
    using assms(2) by (auto simp: top_up_def n_def fill_def Let_def split: if_splits)
  have rd: "ring_read (comp r) (comp_size r) (comp_rd r) n = take n (comp_queue r)"
    unfolding comp_queue_def using ok n(1) by (intro byte_ring.ring_read_queued) auto
  have q: "comp_queue r' = drop n (comp_queue r)"
    using ok byte_ring.queued_advance [OF _ n(1)] by (auto simp: r' comp_queue_def)
  show "input r' = input r" unfolding input_def q by (auto simp: r' rd)
  show "decring_ok r'" using ok n by (auto simp: r' decring_ok_def rd fill_add_rd comp_queue_def)
  show "pcm_queue r' = pcm_queue r" "pcm_size r' = pcm_size r" "pcm_wr r' = pcm_wr r"
    "pcm_rd r' = pcm_rd r" "eof r' = eof r" "frames r' = frames r" "resyncs r' = resyncs r"
    "resync_bytes r' = resync_bytes r" "flushes r' = flushes r" "pcm_total r' = pcm_total r"
    by (simp_all add: r' pcm_queue_def)
  show "p \<longleftrightarrow> comp_queue r \<noteq> [] \<and> length (stage r) < CQ_DECRING_STAGE"
    using ok by (auto simp: r' n_def comp_queue_def queued_def)
  show "comp_queue r' = [] \<or> length (stage r') = CQ_DECRING_STAGE"
  proof (cases "n = fill (comp_wr r) (comp_rd r)")
    case True
    then show ?thesis unfolding q by (simp add: comp_queue_def)
  next
    case False
    then have nr: "n = CQ_DECRING_STAGE - length (stage r)" by (simp add: n_def split: if_splits)
    have "length (stage r') = length (stage r) + n"
      using n(1) by (simp add: r' rd) (simp add: comp_queue_def)
    moreover have "length (stage r) \<le> CQ_DECRING_STAGE" using ok by blast
    ultimately show ?thesis using nr by simp
  qed
qed

text \<open>What a turn does to the streams: a segment of the input is passed, some PCM is appended.\<close>

datatype seg = Junk bytes | Flush bytes | Decoded bytes dec_out

fun seg_in :: "seg \<Rightarrow> bytes" where
  "seg_in (Junk bs) = bs"
| "seg_in (Flush bs) = bs"
| "seg_in (Decoded buf out) = take (nat (o_frame_bytes out)) buf"

fun seg_out :: "seg \<Rightarrow> bytes" where
  "seg_out (Decoded buf out) = (if 0 < o_samples out then o_pcm out else [])"
| "seg_out _ = []"

text \<open>A segment is legitimate: what was fed to the decoder passed the tail gate, and what was
  dropped could not be decoded where it stood.\<close>

definition gate :: "bool \<Rightarrow> nat" where
  "gate e = (if e then 1 else 2)"

fun seg_ok :: "('w \<Rightarrow> bytes \<Rightarrow> 'w \<times> dec_out) \<Rightarrow> bool \<Rightarrow> seg \<Rightarrow> bool" where
  "seg_ok dec e (Decoded buf out) =
     (gate e \<le> snd (cq_mp3_walk buf 2) \<and> 0 < o_frame_bytes out \<and> (\<exists>w. out = snd (dec w buf)))"
| "seg_ok dec e (Junk bs) =
     (bs \<noteq> [] \<and> (\<exists>rest a. cq_mp3_sync (bs @ rest) = Some (length bs, a) \<and> 8192 < length (bs @ rest) \<and>
        snd (cq_mp3_walk (bs @ rest) 2) < gate e))"
| "seg_ok dec e (Flush bs) =
     (8192 < length bs \<and> cq_mp3_sync bs = None \<and> snd (cq_mp3_walk bs 2) < gate e)"

text \<open>The telemetry a segment adds: frames, resyncs, resync bytes, flushes, PCM bytes.\<close>

fun tally :: "int \<times> int \<times> int \<times> int \<times> int \<Rightarrow> seg \<Rightarrow> int \<times> int \<times> int \<times> int \<times> int" where
  "tally (f, n, b, l, t) (Junk bs) = (f, wrap32 (n + 1), wrap32 (b + int (length bs)), l, t)"
| "tally (f, n, b, l, t) (Flush bs) = (f, n, b, wrap32 (l + 1), t)"
| "tally (f, n, b, l, t) (Decoded buf out) =
     (if 0 < o_samples out then (wrap32 (f + 1), n, b, l, wrap32 (t + int (length (o_pcm out))))
      else (f, n, b, l, t))"

definition counters :: "cq_decring \<Rightarrow> int \<times> int \<times> int \<times> int \<times> int" where
  "counters r = (frames r, resyncs r, resync_bytes r, flushes r, pcm_total r)"

text \<open>The loop's state after a turn, related to the one before it.\<close>

definition passes ::
  "('w \<Rightarrow> bytes \<Rightarrow> 'w \<times> dec_out) \<Rightarrow> cq_decring \<Rightarrow> nat \<Rightarrow> seg list \<Rightarrow> cq_decring \<Rightarrow> nat \<Rightarrow> bool" where
  "passes dec r used segs r' used' \<longleftrightarrow>
     decring_ok r' \<and> used' \<le> length (stage r') \<and> stage r' = stage r \<and> comp_queue r' = comp_queue r \<and>
     pcm_size r' = pcm_size r \<and> pcm_rd r' = pcm_rd r \<and> eof r' = eof r \<and>
     drop used (stage r) = concat (map seg_in segs) @ drop used' (stage r) \<and>
     pcm_queue r' = pcm_queue r @ concat (map seg_out segs) \<and>
     counters r' = foldl tally (counters r) segs \<and> (\<forall>s \<in> set segs. seg_ok dec (eof r) s)"

lemma passes_refl: "decring_ok r \<Longrightarrow> used \<le> length (stage r) \<Longrightarrow> passes dec r used [] r used"
  by (simp add: passes_def)

lemma passes_trans:
  "passes dec r used segs r' used' \<Longrightarrow> passes dec r' used' segs' r'' used'' \<Longrightarrow>
     passes dec r used (segs @ segs') r'' used''"
  by (auto simp: passes_def)

lemma frame_prefix: "length bs \<le> length m \<Longrightarrow> take (length bs) (memcpy_at m 0 bs) = bs"
  by (simp add: memcpy_at_def)

lemma decoded_bytes:
  assumes "out_ok n out" "0 < o_samples out"
  shows "unat (of_int (o_samples out) * of_int (o_channels out) * 2 :: u32) = length (o_pcm out)"
    and "length (o_pcm out) \<le> CQ_MP3DEC_MAX_SAMPLES * 2"
proof -
  have s: "o_samples out \<le> 1152" "o_channels out = 1 \<or> o_channels out = 2"
    "int (length (o_pcm out)) = o_samples out * o_channels out * 2"
    using assms by (auto simp: out_ok_def)
  show l: "length (o_pcm out) \<le> CQ_MP3DEC_MAX_SAMPLES * 2" using assms by (simp add: out_ok_def)
  have "of_int (o_samples out) * of_int (o_channels out) * 2 = (of_int (int (length (o_pcm out))) :: u32)"
    unfolding s(3) by simp
  also have "\<dots> = of_nat (length (o_pcm out))" by simp
  finally have "of_int (o_samples out) * of_int (o_channels out) * 2 = (of_nat (length (o_pcm out)) :: u32)" .
  moreover have "unat (of_nat (length (o_pcm out)) :: u32) = length (o_pcm out)"
    using l by (simp add: unat_of_nat take_bit_eq_mod)
  ultimately show "unat (of_int (o_samples out) * of_int (o_channels out) * 2 :: u32) = length (o_pcm out)" by simp
qed

lemma publish_spec:
  assumes "decring_ok r" "take (length bs) (frame r) = bs"
    "fill (pcm_wr r) (pcm_rd r) + length bs \<le> pcm_size r"
  shows "decring_ok (publish r (length bs))" "pcm_queue (publish r (length bs)) = pcm_queue r @ bs"
proof -
  note ok = assms(1) [unfolded decring_ok_def]
  have ring: "byte_ring (pcm_size r)" and lm: "length (pcm r) = pcm_size r" using ok by blast+
  have f32: "fill (pcm_wr r) (pcm_rd r) + length bs < 2 ^ 32" using assms(3) ok by linarith
  have p: "publish r (length bs) = r\<lparr>pcm := ring_write (pcm r) (pcm_size r) (pcm_wr r) bs,
      pcm_wr := pcm_wr r + of_nat (length bs), pcm_total := wrap32 (pcm_total r + wrap32 (int (length bs)))\<rparr>"
    by (simp add: publish_def assms(2))
  show "pcm_queue (publish r (length bs)) = pcm_queue r @ bs"
    using byte_ring.queued_write [OF ring lm assms(3) f32] by (simp add: p pcm_queue_def)
  have "length bs \<le> pcm_size r" using assms(3) by simp
  from byte_ring.length_ring_write [OF ring lm this] show "decring_ok (publish r (length bs))"
    using ok assms(3) f32 by (simp add: p decring_ok_def fill_add_wr)
qed

lemma decode_turn:
  assumes ok: "decring_ok r" and dec: "dec_ok dec" and u: "used < length (stage r)"
    and g: "gate (eof r) \<le> snd (cq_mp3_walk (drop used (stage r)) 2)"
    and room: "fill (pcm_wr r) (pcm_rd r) + CQ_MP3DEC_MAX_SAMPLES * 2 \<le> pcm_size r"
    and t: "timed_decode dec clk r (drop used (stage r)) w = (w', out, r1)"
    and pos: "0 < o_frame_bytes out"
  shows "passes dec r used [Decoded (drop used (stage r)) out]
    (if o_samples out \<le> 0 then r1
     else publish (r1\<lparr>frames := wrap32 (frames r1 + 1)\<rparr>)
       (unat (of_int (o_samples out) * of_int (o_channels out) * 2 :: u32)))
    (used + nat (o_frame_bytes out))"
proof -
  obtain w0 tm where o0: "out = snd (cq_mp3dec_frame dec w0 (drop used (stage r)))"
    and r1: "r1 = r\<lparr>frame := memcpy_at (frame r) 0 (o_pcm out), dec_time := tm\<rparr>"
    using timed_decode_frame [OF t] by blast
  have o: "out = snd (dec w0 (drop used (stage r)))" using o0 u by (simp add: cq_mp3dec_frame_def)
  have oo: "out_ok (length (drop used (stage r))) out" using dec unfolding dec_ok_def o by blast
  have lp: "length (o_pcm out) \<le> length (frame r)" using oo ok by (simp add: out_ok_def decring_ok_def)
  have ok1: "decring_ok r1" using ok lp by (simp add: r1 decring_ok_def)
  have "o_frame_bytes out \<le> int (length (stage r) - used)" using oo by (simp only: out_ok_def length_drop)
  then have fb: "used + nat (o_frame_bytes out) \<le> length (stage r)" using u by linarith
  have cut: "drop used (stage r) = take (nat (o_frame_bytes out)) (drop used (stage r)) @
      drop (used + nat (o_frame_bytes out)) (stage r)"
    by (metis append_take_drop_id drop_drop add.commute)
  have sok: "seg_ok dec (eof r) (Decoded (drop used (stage r)) out)" using g pos o by auto
  show ?thesis
  proof (cases "0 < o_samples out")
    case False
    then show ?thesis using ok1 fb cut sok by (simp add: passes_def r1 comp_queue_def pcm_queue_def counters_def)
  next
    case True
    let ?bs = "o_pcm out" and ?r2 = "r1\<lparr>frames := wrap32 (frames r1 + 1)\<rparr>"
    note db = decoded_bytes [OF oo True]
    have ok2: "decring_ok ?r2" using ok1 by (simp add: decring_ok_def)
    have tk: "take (length ?bs) (frame ?r2) = ?bs" using lp by (simp add: r1 frame_prefix)
    have fl: "fill (pcm_wr ?r2) (pcm_rd ?r2) + length ?bs \<le> pcm_size ?r2" using room db(2) by (simp add: r1)
    note pub = publish_spec [OF ok2 tk fl]
    have same: "stage (publish ?r2 n) = stage r" "comp_queue (publish ?r2 n) = comp_queue r"
      "pcm_size (publish ?r2 n) = pcm_size r" "pcm_rd (publish ?r2 n) = pcm_rd r" "eof (publish ?r2 n) = eof r"
      for n by (simp_all add: publish_def r1 comp_queue_def)
    have "wrap32 (int (length ?bs)) = int (length ?bs)" using db(2) by (intro wrap32_id) simp_all
    then have cnt: "counters (publish ?r2 (length ?bs)) = tally (counters r) (Decoded (drop used (stage r)) out)"
      using True by (simp add: counters_def publish_def r1)
    have "pcm_queue ?r2 = pcm_queue r" by (simp add: r1 pcm_queue_def)
    with pub same cnt fb cut sok True show ?thesis unfolding passes_def by (simp add: db(1))
  qed
qed

lemma junk_turn:
  assumes ok: "decring_ok r" and u: "used < length (stage r)"
    and g: "snd (cq_mp3_walk (drop used (stage r)) 2) < gate (eof r)"
    and deep: "8192 < length (drop used (stage r))"
    and s: "cq_mp3_sync (drop used (stage r)) = Some (off, nf)" and pos: "0 < off"
  shows "passes dec r used [Junk (take off (drop used (stage r)))]
    (r\<lparr>resyncs := wrap32 (resyncs r + 1), resync_bytes := wrap32 (resync_bytes r + int off)\<rparr>) (used + off)"
proof -
  have off: "off \<le> length (drop used (stage r))" using sync_Some(1) [OF s] by (auto simp: confirmed_def)
  have cut: "drop used (stage r) = take off (drop used (stage r)) @ drop (used + off) (stage r)"
    by (metis append_take_drop_id drop_drop add.commute)
  have lt: "length (take off (drop used (stage r))) = off" using off by simp
  have "seg_ok dec (eof r) (Junk (take off (drop used (stage r))))"
    using g deep s pos off unfolding seg_ok.simps lt
    by (intro conjI exI [of _ "drop (used + off) (stage r)"] exI [of _ nf]) (simp_all flip: cut)
  then show ?thesis
    using ok off cut lt u by (simp add: passes_def decring_ok_def comp_queue_def pcm_queue_def counters_def)
qed

lemma flush_turn:
  assumes "decring_ok r" "snd (cq_mp3_walk (drop used (stage r)) 2) < gate (eof r)"
    "8192 < length (drop used (stage r))" "cq_mp3_sync (drop used (stage r)) = None"
  shows "passes dec r used [Flush (drop used (stage r))] (r\<lparr>flushes := wrap32 (flushes r + 1)\<rparr>) (length (stage r))"
  using assms by (simp add: passes_def decring_ok_def comp_queue_def pcm_queue_def counters_def)

text \<open>Where the loop stops for good: the ring is full, the stage dry, the gate shut on a shallow
  tail, or the decoder asks for more bytes.\<close>

definition stuck :: "('w \<Rightarrow> bytes \<Rightarrow> 'w \<times> dec_out) \<Rightarrow> cq_decring \<Rightarrow> bytes \<Rightarrow> bool" where
  "stuck dec r tail \<longleftrightarrow>
     pcm_size r - length (pcm_queue r) < CQ_MP3DEC_MAX_SAMPLES * 2 \<or> tail = [] \<or>
     (length tail \<le> 8192 \<and> snd (cq_mp3_walk tail 2) < gate (eof r)) \<or>
     (gate (eof r) \<le> snd (cq_mp3_walk tail 2) \<and> (\<exists>w. o_frame_bytes (snd (dec w tail)) \<le> 0))"

lemma gate_le_2: "gate e \<le> 2"
  by (simp add: gate_def)

lemma turn_spec:
  assumes ok: "decring_ok r" and dec: "dec_ok dec" and u: "used \<le> length (stage r)"
    and t: "pump_turn dec clk r used p w = (c, r', used', p', w')"
  shows "\<exists>segs. passes dec r used segs r' used' \<and> (\<not> c \<longrightarrow> stuck dec r' (drop used' (stage r')))"
proof -
  let ?tail = "drop used (stage r)"
  have sp: "unat (of_nat (pcm_size r) - (pcm_wr r - pcm_rd r) :: u32) = pcm_size r - fill (pcm_wr r) (pcm_rd r)"
    using ok by (intro space_unat) (simp_all add: decring_ok_def)
  have lim: "unat (of_nat (CQ_MP3DEC_MAX_SAMPLES * 2) :: u32) = CQ_MP3DEC_MAX_SAMPLES * 2" by simp
  have spc: "(of_nat (pcm_size r) - (pcm_wr r - pcm_rd r) < (of_nat (CQ_MP3DEC_MAX_SAMPLES * 2) :: u32)) \<longleftrightarrow>
      pcm_size r - fill (pcm_wr r) (pcm_rd r) < CQ_MP3DEC_MAX_SAMPLES * 2"
    unfolding word_less_nat_alt sp lim ..
  note t' = t [unfolded pump_turn_def Let_def spc]
  have q: "length (pcm_queue r) = fill (pcm_wr r) (pcm_rd r)" by (simp add: pcm_queue_def)
  have stay: "passes dec r used [] r used" using ok u by (rule passes_refl)
  consider (full) "pcm_size r - fill (pcm_wr r) (pcm_rd r) < CQ_MP3DEC_MAX_SAMPLES * 2"
    | (dry) "\<not> pcm_size r - fill (pcm_wr r) (pcm_rd r) < CQ_MP3DEC_MAX_SAMPLES * 2" "length (stage r) \<le> used"
    | (gated) "\<not> pcm_size r - fill (pcm_wr r) (pcm_rd r) < CQ_MP3DEC_MAX_SAMPLES * 2" "used < length (stage r)"
        "snd (cq_mp3_walk ?tail 2) < gate (eof r)"
    | (fed) "\<not> pcm_size r - fill (pcm_wr r) (pcm_rd r) < CQ_MP3DEC_MAX_SAMPLES * 2" "used < length (stage r)"
        "gate (eof r) \<le> snd (cq_mp3_walk ?tail 2)" by linarith
  then show ?thesis
  proof cases
    case full
    then have "(c, r', used', p', w') = (False, r, used, p, w)" using t' by simp
    then show ?thesis using stay full by (auto simp: stuck_def q)
  next
    case dry
    then have "(c, r', used', p', w') = (False, r, used, p, w)" using t' by simp
    then show ?thesis using stay dry by (auto simp: stuck_def q)
  next
    case gated
    note g = gated(3) [unfolded gate_def]
    show ?thesis
    proof (cases "8192 < length ?tail")
      case False
      then have "(c, r', used', p', w') = (False, r, used, p, w)"
        using t' gated(1,2) g by simp
      then show ?thesis using stay gated(3) False by (auto simp: stuck_def)
    next
      case deep: True
      show ?thesis
      proof (cases "cq_mp3_sync ?tail")
        case None
        then have e: "(c, r', used', p', w') = (False, r\<lparr>flushes := wrap32 (flushes r + 1)\<rparr>, length (stage r), p, w)"
          using t' gated(1,2) g deep by simp
        from flush_turn [OF ok gated(3) deep None] e show ?thesis by (auto simp: stuck_def)
      next
        case (Some s)
        then obtain off nf where s: "cq_mp3_sync ?tail = Some (off, nf)" by (cases s) auto
        have "off \<noteq> 0"
        proof
          assume "off = 0"
          then have "snd (cq_mp3_walk ?tail 2) = 2" using sync_head_walk [of ?tail nf] s deep by simp
          then show False using gated(3) gate_le_2 [of "eof r"] by simp
        qed
        then have pos: "0 < off" by simp
        then have "(c, r', used', p', w') = (True, r\<lparr>resyncs := wrap32 (resyncs r + 1),
            resync_bytes := wrap32 (resync_bytes r + int off)\<rparr>, used + off, p, w)"
          using t' gated(1,2) g deep s by simp
        with junk_turn [OF ok gated(2,3) deep s pos] show ?thesis by auto
      qed
    qed
  next
    case fed
    note g = fed(3) [unfolded gate_def]
    obtain w1 out r1 where td: "timed_decode dec clk r ?tail w = (w1, out, r1)"
      by (cases "timed_decode dec clk r ?tail w") auto
    obtain w0 tm where r1: "out = snd (cq_mp3dec_frame dec w0 ?tail)"
      "r1 = r\<lparr>frame := memcpy_at (frame r) 0 (o_pcm out), dec_time := tm\<rparr>"
      using timed_decode_frame [OF td] by blast
    show ?thesis
    proof (cases "0 < o_frame_bytes out")
      case True
      have room: "fill (pcm_wr r) (pcm_rd r) + CQ_MP3DEC_MAX_SAMPLES * 2 \<le> pcm_size r" using fed(1) by linarith
      have "(c, r', used') = (True, if o_samples out \<le> 0 then r1
         else publish (r1\<lparr>frames := wrap32 (frames r1 + 1)\<rparr>)
           (unat (of_int (o_samples out) * of_int (o_channels out) * 2 :: u32)), used + nat (o_frame_bytes out))"
        using t' fed(1,2) g True by (simp add: td split: if_splits)
      with decode_turn [OF ok dec fed(2,3) room td True] show ?thesis by blast
    next
      case False
      then have e: "(c, r', used') = (False, r1, used)"
        using t' fed(1,2) g by (simp add: td)
      have o: "out = snd (dec w0 ?tail)" using r1(1) fed(2) by (simp add: cq_mp3dec_frame_def)
      have "length (o_pcm out) \<le> length (frame r)"
        using dec ok unfolding o dec_ok_def out_ok_def decring_ok_def by simp
      then have "passes dec r used [] r1 used"
        using ok u by (simp add: passes_def r1(2) decring_ok_def comp_queue_def pcm_queue_def counters_def)
      moreover have "stuck dec r1 ?tail" using False o fed(3) by (auto simp: stuck_def r1(2) not_less)
      ultimately show ?thesis using e r1(2) by auto
    qed
  qed
qed

lemma loop_spec:
  assumes "decring_ok r" "dec_ok dec" "used \<le> length (stage r)"
    "pump_loop dec clk r used p w = (r', used', p', w')"
  shows "\<exists>segs. passes dec r used segs r' used' \<and> stuck dec r' (drop used' (stage r'))"
  using assms
proof (induction dec clk r used p w rule: pump_loop.induct)
  case (1 dec clk r used p w)
  obtain c r1 used1 p1 w1 where t: "pump_turn dec clk r used p w = (c, r1, used1, p1, w1)"
    by (cases "pump_turn dec clk r used p w") auto
  obtain segs where segs: "passes dec r used segs r1 used1"
    "\<not> c \<Longrightarrow> stuck dec r1 (drop used1 (stage r1))"
    using turn_spec [OF "1.prems"(1-3) t] by blast
  show ?case
  proof (cases c)
    case False
    then have "(r', used') = (r1, used1)" using "1.prems"(4) t by (simp add: pump_loop.simps [of dec clk r])
    then show ?thesis using segs False by auto
  next
    case True
    have ok1: "decring_ok r1" "used1 \<le> length (stage r1)" 
      using segs(1) unfolding passes_def by blast+
    have "pump_loop dec clk r1 used1 p1 w1 = (r', used', p', w')"
      using "1.prems"(4) t True by (simp add: pump_loop.simps [of dec clk r])
    from "1.IH" [OF t [symmetric] _ refl refl refl ok1(1) "1.prems"(2) ok1(2) this] True
    obtain segs' where "passes dec r1 used1 segs' r' used'" "stuck dec r' (drop used' (stage r'))" by auto
    then show ?thesis using passes_trans [OF segs(1)] by blast
  qed
qed

lemma pump_spec:
  assumes "decring_ok r" "dec_ok dec" "cq_decring_pump dec clk r w = (r', p, w')"
  shows "\<exists>segs. decring_ok r' \<and> input r = concat (map seg_in segs) @ input r' \<and>
    pcm_queue r' = pcm_queue r @ concat (map seg_out segs) \<and>
    counters r' = foldl tally (counters r) segs \<and> (\<forall>s \<in> set segs. seg_ok dec (eof r) s) \<and>
    eof r' = eof r \<and> stuck dec r' (stage r')"
proof -
  obtain r1 p1 where t: "top_up r = (r1, p1)" by (cases "top_up r")
  note tu = top_up_spec [OF assms(1) t]
  obtain r2 used p2 w2 where l: "pump_loop dec clk r1 0 p1 w = (r2, used, p2, w2)"
    by (cases "pump_loop dec clk r1 0 p1 w") auto
  have r': "r' = (if used \<noteq> 0 then r2\<lparr>stage := drop used (stage r2)\<rparr> else r2)"
    using assms(3) by (simp add: cq_decring_pump_def t l)
  obtain segs where segs: "passes dec r1 0 segs r2 used" "stuck dec r2 (drop used (stage r2))"
    using loop_spec [OF tu(1) assms(2) _ l] by auto
  note ps = segs(1) [unfolded passes_def]
  have st: "stage r' = drop used (stage r2)" by (simp add: r')
  have same: "comp_queue r' = comp_queue r2" "pcm_queue r' = pcm_queue r2" "eof r' = eof r2"
    "counters r' = counters r2" "pcm_size r' = pcm_size r2"
    by (simp_all add: r' comp_queue_def pcm_queue_def counters_def)
  have ok2: "decring_ok r2" using ps by blast
  have "decring_ok r'" using ok2 by (auto simp: r' decring_ok_def)
  moreover have "input r = concat (map seg_in segs) @ input r'"
  proof -
    have a: "stage r1 = concat (map seg_in segs) @ drop used (stage r1)" using ps by (metis drop0)
    have b: "stage r2 = stage r1" "comp_queue r2 = comp_queue r1" using ps by blast+
    have "input r1 = concat (map seg_in segs) @ input r'"
      using arg_cong [OF a, of "\<lambda>x. x @ comp_queue r1"]
      by (simp only: input_def st same b append_assoc)
    then show ?thesis using tu(2) by simp
  qed
  moreover have "pcm_queue r' = pcm_queue r @ concat (map seg_out segs)" using ps tu(3) by (simp add: same)
  moreover have "counters r' = foldl tally (counters r) segs"
  proof -
    have "counters r1 = counters r" by (simp add: counters_def tu)
    then show ?thesis using ps same(4) by metis
  qed
  moreover have "stuck dec r' (stage r')" using segs(2) by (simp add: st stuck_def same)
  moreover have "\<forall>s \<in> set segs. seg_ok dec (eof r1) s" "eof r2 = eof r1" using ps by blast+
  then have "\<forall>s \<in> set segs. seg_ok dec (eof r) s" "eof r' = eof r" using tu(7) same(3) by simp_all
  ultimately show ?thesis by blast
qed

text \<open>The application's rings: both sizes divide the range of the cursors.\<close>

abbreviation CQ_AUD_RING_BYTES :: nat where "CQ_AUD_RING_BYTES \<equiv> 2097152"
abbreviation CQ_AUD_COMP_RING :: nat where "CQ_AUD_COMP_RING \<equiv> 262144"

interpretation pcm_ring: byte_ring CQ_AUD_RING_BYTES
  by unfold_locales (simp, rule dvdI [of _ _ 2048], simp)

interpretation comp_ring: byte_ring CQ_AUD_COMP_RING
  by unfold_locales (simp, rule dvdI [of _ _ 16384], simp)

lemma init_decring_ok:
  assumes "length c = CQ_AUD_COMP_RING" "length p = CQ_AUD_RING_BYTES" "fill wr rd \<le> CQ_AUD_RING_BYTES"
  shows "decring_ok (cq_decring_init c CQ_AUD_COMP_RING p CQ_AUD_RING_BYTES wr rd)"
  using assms pcm_ring.byte_ring_axioms comp_ring.byte_ring_axioms
  by (simp add: decring_ok_def cq_decring_init_def)

lemma reset_ok: "decring_ok r \<Longrightarrow> decring_ok (cq_decring_reset r) \<and> input (cq_decring_reset r) = [] \<and>
    cq_decring_idle (cq_decring_reset r) \<and> counters (cq_decring_reset r) = (0, 0, 0, 0, 0)"
  by (simp add: decring_ok_def cq_decring_reset_def input_def comp_queue_def queued_def counters_def
      cq_decring_idle_def)

subsection \<open>Properties\<close>

text \<open>C4. One pass of the pump moves bytes from the front of the compressed stream to the end of the
PCM stream and does nothing else: the input is split, in order and with nothing lost, into
segments and what is still staged or queued; every PCM byte appended is the output of a decoded
segment; what was fed to the decoder had passed the tail gate; only spliced junk in a deep stage is
dropped; the counters are the tally of the segments; and the rings stay within bounds whatever the
cursors' wrap-around.\<close>

theorem pump_streams:
  assumes "decring_ok r" "dec_ok dec"
  shows "\<exists>segs. decring_ok (fst (cq_decring_pump dec clk r w)) \<and>
    input r = concat (map seg_in segs) @ input (fst (cq_decring_pump dec clk r w)) \<and>
    pcm_queue (fst (cq_decring_pump dec clk r w)) = pcm_queue r @ concat (map seg_out segs) \<and>
    counters (fst (cq_decring_pump dec clk r w)) = foldl tally (counters r) segs \<and>
    (\<forall>s \<in> set segs. seg_ok dec (eof r) s)"
proof -
  obtain r' p w' where p: "cq_decring_pump dec clk r w = (r', p, w')" by (cases "cq_decring_pump dec clk r w") auto
  from pump_spec [OF assms p] show ?thesis unfolding p fst_conv by blast
qed

definition silent_dec :: "unit \<Rightarrow> bytes \<Rightarrow> unit \<times> dec_out" where
  "silent_dec w buf = (w, \<lparr>o_samples = 0, o_frame_bytes = min 417 (int (length buf)), o_channels = 0,
     o_hz = 0, o_pcm = []\<rparr>)"

lemma silent_dec_ok: "dec_ok silent_dec"
  by (simp add: dec_ok_def silent_dec_def out_ok_def)

definition app_ring :: cq_decring where
  "app_ring = cq_decring_init (replicate CQ_AUD_COMP_RING NUL) CQ_AUD_COMP_RING
     (replicate CQ_AUD_RING_BYTES NUL) CQ_AUD_RING_BYTES 0 0"

lemma app_ring_ok: "decring_ok app_ring"
  unfolding app_ring_def by (rule init_decring_ok) (simp_all only: length_replicate fill_self)

lemma app_ring_input: "input app_ring = []" "pcm_queue app_ring = []"
  by (simp_all add: app_ring_def cq_decring_init_def input_def comp_queue_def pcm_queue_def queued_def)

theorem pump_streams_witness:
  "input (fst (cq_decring_pump silent_dec (\<lambda>w. (w, 0)) app_ring ())) = []"
  using pump_streams [OF app_ring_ok silent_dec_ok, of "\<lambda>w. (w, 0)" "()"] by (auto simp: app_ring_input)

text \<open>C5. The pump never stalls on what it holds: with a decoder that consumes bytes whenever whole
frames are at the head of its buffer, a pass returns only when the PCM ring has no room for a frame,
the stage is dry, or the tail gate holds a tail of at most 8192 bytes. A deeper stage the gate
refuses is always realigned or flushed, because a frame confirmed at its head would have opened the
gate.\<close>

theorem pump_no_stall:
  assumes "decring_ok r" "dec_ok dec"
    "\<And>w buf. 1 \<le> snd (cq_mp3_walk buf 2) \<Longrightarrow> 0 < o_frame_bytes (snd (dec w buf))"
    "cq_decring_pump dec clk r w = (r', p, w')"
  shows "pcm_size r' - length (pcm_queue r') < CQ_MP3DEC_MAX_SAMPLES * 2 \<or> stage r' = [] \<or>
    length (stage r') \<le> 8192 \<and> snd (cq_mp3_walk (stage r') 2) < (if eof r then 1 else 2)"
proof -
  have g: "1 \<le> gate e" for e by (simp add: gate_def)
  have "stuck dec r' (stage r')" "eof r' = eof r" using pump_spec [OF assms(1,2,4)] by blast+
  moreover have False if "gate (eof r') \<le> snd (cq_mp3_walk (stage r') 2)"
    "o_frame_bytes (snd (dec w (stage r'))) \<le> 0" for w
    using assms(3) [OF order_trans [OF g that(1)], of w] that(2) by simp
  ultimately show ?thesis unfolding stuck_def gate_def by auto
qed

lemma walk_nonempty: "1 \<le> snd (cq_mp3_walk buf 2) \<Longrightarrow> buf \<noteq> []"
  by (auto simp: cq_mp3_walk_def walk_loop.simps cq_mp3_parse_def)

theorem pump_no_stall_witness:
  "\<exists>r'. r' = fst (cq_decring_pump silent_dec (Pair () \<circ> (\<lambda>w. 0)) app_ring ()) \<and>
     (pcm_size r' - length (pcm_queue r') < CQ_MP3DEC_MAX_SAMPLES * 2 \<or> length (stage r') \<le> 8192)"
proof -
  let ?clk = "Pair () \<circ> (\<lambda>w. 0)"
  obtain r' p w' where r: "cq_decring_pump silent_dec ?clk app_ring () = (r', p, w')"
    by (cases "cq_decring_pump silent_dec ?clk app_ring ()") auto
  have "0 < o_frame_bytes (snd (silent_dec w buf))" if "1 \<le> snd (cq_mp3_walk buf 2)" for w buf
    using walk_nonempty [OF that] by (cases buf) (simp_all add: silent_dec_def)
  from pump_no_stall [OF app_ring_ok silent_dec_ok this r]
  have "pcm_size r' - length (pcm_queue r') < CQ_MP3DEC_MAX_SAMPLES * 2 \<or> length (stage r') \<le> 8192" by auto
  moreover have "r' = fst (cq_decring_pump silent_dec ?clk app_ring ())" unfolding r by (rule fst_conv [symmetric])
  ultimately show ?thesis by blast
qed

text \<open>The producer's zero-copy put is safe: the claimed region lies inside the ring, is never
larger than the free space, is empty only when the ring is full, and bytes written there and
committed are appended to the compressed stream without disturbing what is queued.\<close>

lemma producer_appends:
  assumes "decring_ok r" "cq_decring_claim r = (off, contig)" "length bs \<le> contig"
  shows "off + contig \<le> comp_size r \<and> contig \<le> unat (cq_decring_space r) \<and>
    (contig = 0 \<longleftrightarrow> unat (cq_decring_space r) = 0) \<and>
    decring_ok (put_claimed r bs) \<and> input (put_claimed r bs) = input r @ bs \<and>
    pcm_queue (put_claimed r bs) = pcm_queue r"
proof -
  have "length (comp_queue r) \<le> comp_size r" using assms(1) by (simp add: decring_ok_def comp_queue_def)
  then show ?thesis
    using claim_spec [OF assms(1,2)] put_claimed_spec [OF assms(1), of bs] assms(2,3) space_spec [OF assms(1)]
    by auto
qed

text \<open>C24. A dead stream that ends inside a frame is never drained: once the connection has closed and
only a tail without a whole frame is staged, a pass of the pump changes nothing, and the pipeline
does not become idle.\<close>

theorem partial_tail_never_idle:
  assumes "decring_ok r" "eof r" "comp_queue r = []" "stage r \<noteq> []" "length (stage r) \<le> 8192"
    "snd (cq_mp3_walk (stage r) 2) = 0"
  shows "cq_decring_pump dec clk r w = (r, False, w) \<and> \<not> cq_decring_idle r"
proof -
  have f: "unat (comp_wr r - comp_rd r) = 0" using assms(3) by (simp add: comp_queue_def queued_def fill_def)
  have t: "top_up r = (r, False)" using f by (simp add: top_up_def)
  have "pump_turn dec clk r 0 False w = (False, r, 0, False, w)"
    using assms by (simp add: pump_turn_def Let_def)
  then have "pump_loop dec clk r 0 False w = (r, 0, False, w)" by (simp add: pump_loop.simps [of dec clk r])
  then show ?thesis using t assms(4) by (simp add: cq_decring_pump_def cq_decring_idle_def)
qed

theorem partial_tail_never_idle_witness:
  "\<not> cq_decring_idle (app_ring\<lparr>eof := True, stage := [char_of (0xFF :: nat)]\<rparr>)"
proof -
  let ?r = "app_ring\<lparr>eof := True, stage := [char_of (0xFF :: nat)]\<rparr>"
  have "decring_ok ?r" using app_ring_ok by (simp add: decring_ok_def)
  moreover have "comp_queue ?r = []" using app_ring_input(1) by (simp add: input_def comp_queue_def)
  moreover have "snd (cq_mp3_walk (stage ?r) 2) = 0"
    by (simp add: cq_mp3_walk_def walk_loop.simps cq_mp3_parse_def)
  ultimately show ?thesis
    using partial_tail_never_idle [of ?r "undefined" "undefined" "()"] by simp
qed

end
