(* ===== verification/View.thy ===== *)
theory View
  imports Now
begin

text \<open>
  The view model (\<open>cq_view.c\<close>): one pure function decides every word of the player area from
  one input value. Tick counts are 32-bit words and their differences are signed, as in the source;
  a fixed character buffer is the string it holds.
\<close>

abbreviation CQ_VIEW_ACK_TICKS :: int where "CQ_VIEW_ACK_TICKS \<equiv> 480"
abbreviation CQ_VIEW_STARVE_TICKS :: int where "CQ_VIEW_STARVE_TICKS \<equiv> 120"
abbreviation CQ_VIEW_DRY_TICKS :: int where "CQ_VIEW_DRY_TICKS \<equiv> 180"
abbreviation CQ_VIEW_FACT_STALE_MS :: int where "CQ_VIEW_FACT_STALE_MS \<equiv> 30000"

datatype cq_engine_phase = CQ_ENGINE_OFF | CQ_ENGINE_TUNING | CQ_ENGINE_BUFFERING | CQ_ENGINE_ON_AIR

datatype cq_intent_kind = CQ_INTENT_NONE | CQ_INTENT_SKIP | CQ_INTENT_PLAY | CQ_INTENT_PAUSE

record cq_view_in =
  in_snap :: "cq_now option"
  in_snap_ticks :: u32
  in_has_stream_fact :: bool
  in_live :: int
  in_fact_ts :: int
  in_engine :: cq_engine_phase
  in_ring_fill :: u32
  in_prebuf_target :: u32
  in_chunk_bytes :: u32
  in_rx_dry_ticks :: int
  in_starve_ticks :: int
  in_intent :: cq_intent_kind
  in_intent_ticks :: u32
  in_pre_track_id :: cstr
  in_pre_state :: cq_play_state
  in_now_ticks :: u32

record cq_view =
  v_state_word :: cstr
  v_ack_active :: bool
  v_title_green :: bool
  v_status :: cstr
  v_buffer_pct :: int
  v_show_progress :: bool
  v_position_ms :: int
  v_duration_ms :: int
  v_cover_key :: cstr

definition intent_reflected :: "cq_view_in \<Rightarrow> bool" where
  "intent_reflected i =
     (case in_snap i of
        None \<Rightarrow> False
      | Some s \<Rightarrow> (case in_intent i of
            CQ_INTENT_SKIP \<Rightarrow>
              if in_pre_track_id i \<noteq> []
              then now_track_id s \<noteq> None \<and> now_track_id s \<noteq> Some (in_pre_track_id i)
              else now_track_id s \<noteq> None \<and> now_state s = CQ_STATE_PLAYING
          | CQ_INTENT_PLAY \<Rightarrow> now_state s = CQ_STATE_PLAYING
          | CQ_INTENT_PAUSE \<Rightarrow> now_state s \<noteq> CQ_STATE_PLAYING
          | CQ_INTENT_NONE \<Rightarrow> True))"

definition fact_usable :: "cq_view_in \<Rightarrow> bool" where
  "fact_usable i =
     (if \<not> in_has_stream_fact i then False
      else case in_snap i of
          Some s \<Rightarrow> \<not> (now_ts s > 0 \<and> in_fact_ts i > 0 \<and> now_ts s - in_fact_ts i > CQ_VIEW_FACT_STALE_MS)
        | None \<Rightarrow> True)"

definition playing_active :: "cq_view_in \<Rightarrow> bool" where
  "playing_active i =
     (case in_snap i of
        None \<Rightarrow> False
      | Some s \<Rightarrow> now_state s = CQ_STATE_PLAYING \<and> now_device s = CQ_DEV_ACTIVE)"

definition mount_anomaly :: "cq_view_in \<Rightarrow> bool" where
  "mount_anomaly i =
     (if fact_usable i then in_live i = 0 \<and> playing_active i
      else (case in_snap i of
          None \<Rightarrow> False
        | Some s \<Rightarrow> now_state s = CQ_STATE_PLAYING \<and> in_rx_dry_ticks i \<ge> 0 \<and>
            in_rx_dry_ticks i \<ge> CQ_VIEW_DRY_TICKS))"

definition tail_status :: "cq_view_in \<Rightarrow> cq_view \<Rightarrow> cq_view" where
  "tail_status i out =
     out\<lparr>v_status := (if in_ring_fill i > in_chunk_bytes i then ''playing out...'' else ''standing by'')\<rparr>"

definition view_pending :: "cq_view_in \<Rightarrow> bool" where
  "view_pending i \<longleftrightarrow> in_intent i \<noteq> CQ_INTENT_NONE \<and>
     tick_diff (in_now_ticks i) (in_intent_ticks i) < CQ_VIEW_ACK_TICKS \<and> \<not> intent_reflected i"

definition render_word :: "cq_view_in \<Rightarrow> cq_view \<Rightarrow> cq_view" where
  "render_word i out =
     (if view_pending i
      then out\<lparr>v_ack_active := True,
               v_state_word := (if in_intent i = CQ_INTENT_SKIP then ''Skipping...''
                 else if in_intent i = CQ_INTENT_PLAY then ''Starting...'' else ''Pausing...'')\<rparr>
      else case in_snap i of
          Some s \<Rightarrow> out\<lparr>v_state_word := (if now_state s = CQ_STATE_PLAYING then ''Playing''
                 else if now_state s = CQ_STATE_PAUSED then ''Paused'' else ''Stopped'')\<rparr>
        | None \<Rightarrow> out)"

definition render_buffering :: "cq_view_in \<Rightarrow> cq_view \<Rightarrow> cq_view" where
  "render_buffering i out =
     (if fact_usable i \<and> in_live i = 0 \<and> playing_active i
      then out\<lparr>v_status := ''waiting for Spotify...''\<rparr>
      else
        let tgt = (if in_prebuf_target i \<noteq> 0 then in_prebuf_target i else 1);
            pct = sint (in_ring_fill i * 100 div tgt);
            pct = (if pct > 99 then 99 else pct)
        in out\<lparr>v_buffer_pct := pct, v_status := fits 40 (''buffering... '' @ int_str pct @ ''%'')\<rparr>)"

definition render_on_air :: "cq_view_in \<Rightarrow> cq_view \<Rightarrow> cq_view" where
  "render_on_air i out =
     (if (case in_snap i of Some s \<Rightarrow> now_state s \<noteq> CQ_STATE_PLAYING | None \<Rightarrow> False) then tail_status i out
      else if mount_anomaly i then out\<lparr>v_status := ''waiting for Spotify...''\<rparr>
      else if fact_usable i \<and> in_live i = 0 then tail_status i out
      else if in_starve_ticks i \<ge> 0 \<and> in_starve_ticks i < CQ_VIEW_STARVE_TICKS
      then out\<lparr>v_status := ''buffering...''\<rparr>
      else out\<lparr>v_status := ''on air''\<rparr>)"

definition render_status :: "cq_view_in \<Rightarrow> cq_view \<Rightarrow> cq_view" where
  "render_status i out =
     (case in_engine i of
        CQ_ENGINE_OFF \<Rightarrow> out
      | CQ_ENGINE_TUNING \<Rightarrow> out\<lparr>v_status := ''tuning in...''\<rparr>
      | CQ_ENGINE_BUFFERING \<Rightarrow> render_buffering i out
      | CQ_ENGINE_ON_AIR \<Rightarrow> render_on_air i out)"

definition view_position :: "cq_view_in \<Rightarrow> cq_now \<Rightarrow> int" where
  "view_position i s =
     (let pos = now_position_ms s;
          pos = (if now_state s = CQ_STATE_PLAYING
                 then wrap64 (pos + tdiv (wrap64 (int (unat (in_now_ticks i - in_snap_ticks i)) * 1000)) 60)
                 else pos);
          pos = (if pos < 0 then 0 else pos)
      in if now_duration_ms s > 0 \<and> pos > now_duration_ms s then now_duration_ms s else pos)"

definition render_progress :: "cq_view_in \<Rightarrow> cq_view \<Rightarrow> cq_view" where
  "render_progress i out =
     (case in_snap i of
        None \<Rightarrow> out
      | Some s \<Rightarrow>
          let out = out\<lparr>v_position_ms := view_position i s, v_duration_ms := now_duration_ms s,
                        v_show_progress := now_duration_ms s > 0\<rparr>
          in (case now_album_id s of
                Some a \<Rightarrow> out\<lparr>v_cover_key := fits 64 a\<rparr>
              | None \<Rightarrow> out))"

definition cq_view_zero :: cq_view where
  "cq_view_zero = \<lparr>v_state_word = [], v_ack_active = False, v_title_green = False, v_status = [],
     v_buffer_pct = 0, v_show_progress = False, v_position_ms = 0, v_duration_ms = 0, v_cover_key = []\<rparr>"

definition cq_view_render :: "cq_view_in \<Rightarrow> cq_view" where
  "cq_view_render i =
     (let out = cq_view_zero\<lparr>v_buffer_pct := -1\<rparr>;
          out = render_word i out;
          out = out\<lparr>v_title_green :=
                  (case in_snap i of Some s \<Rightarrow> now_state s = CQ_STATE_PLAYING | None \<Rightarrow> False)\<rparr>;
          out = render_status i out
      in render_progress i out)"

definition cq_view_differs :: "cq_view \<Rightarrow> cq_view \<Rightarrow> bool" where
  "cq_view_differs a b \<longleftrightarrow>
     v_state_word a \<noteq> v_state_word b \<or> v_status a \<noteq> v_status b \<or> v_cover_key a \<noteq> v_cover_key b \<or>
     v_ack_active a \<noteq> v_ack_active b \<or> v_title_green a \<noteq> v_title_green b \<or>
     v_buffer_pct a \<noteq> v_buffer_pct b \<or> v_show_progress a \<noteq> v_show_progress b \<or>
     v_duration_ms a \<noteq> v_duration_ms b \<or>
     tdiv (v_position_ms a) 1000 \<noteq> tdiv (v_position_ms b) 1000"

subsection \<open>The fields of a rendered view\<close>

definition view_word :: "cq_view_in \<Rightarrow> cstr" where
  "view_word i = v_state_word (render_word i cq_view_zero)"

definition view_status :: "cq_view_in \<Rightarrow> cstr" where
  "view_status i = v_status (render_status i cq_view_zero)"

named_theorems view_steps

lemma render_word_frame [view_steps]:
  "v_state_word (render_word i v) = (if view_pending i \<or> in_snap i \<noteq> None then view_word i else v_state_word v)"
  "v_ack_active (render_word i v) = (view_pending i \<or> v_ack_active v)"
  "v_title_green (render_word i v) = v_title_green v" "v_status (render_word i v) = v_status v"
  "v_buffer_pct (render_word i v) = v_buffer_pct v" "v_show_progress (render_word i v) = v_show_progress v"
  "v_position_ms (render_word i v) = v_position_ms v" "v_duration_ms (render_word i v) = v_duration_ms v"
  "v_cover_key (render_word i v) = v_cover_key v"
  by (simp_all add: render_word_def view_word_def split: option.split)

lemma render_status_frame [view_steps]:
  "v_state_word (render_status i v) = v_state_word v" "v_ack_active (render_status i v) = v_ack_active v"
  "v_title_green (render_status i v) = v_title_green v"
  "v_show_progress (render_status i v) = v_show_progress v"
  "v_position_ms (render_status i v) = v_position_ms v" "v_duration_ms (render_status i v) = v_duration_ms v"
  "v_cover_key (render_status i v) = v_cover_key v"
  "v_status (render_status i v) = (if in_engine i = CQ_ENGINE_OFF then v_status v else view_status i)"
  by (simp_all add: render_status_def view_status_def render_buffering_def render_on_air_def
      tail_status_def Let_def split: cq_engine_phase.split)

lemma render_progress_frame [view_steps]:
  "v_state_word (render_progress i v) = v_state_word v" "v_ack_active (render_progress i v) = v_ack_active v"
  "v_title_green (render_progress i v) = v_title_green v" "v_status (render_progress i v) = v_status v"
  "v_buffer_pct (render_progress i v) = v_buffer_pct v"
  by (simp_all add: render_progress_def Let_def split: option.split)

lemma render_progress_own [view_steps]:
  "v_position_ms (render_progress i v) =
     (case in_snap i of Some s \<Rightarrow> view_position i s | None \<Rightarrow> v_position_ms v)"
  "v_cover_key (render_progress i v) =
     (case in_snap i of Some s \<Rightarrow> (case now_album_id s of Some a \<Rightarrow> fits 64 a | None \<Rightarrow> v_cover_key v)
      | None \<Rightarrow> v_cover_key v)"
  "v_show_progress (render_progress i v) =
     (case in_snap i of Some s \<Rightarrow> now_duration_ms s > 0 | None \<Rightarrow> v_show_progress v)"
  "v_duration_ms (render_progress i v) =
     (case in_snap i of Some s \<Rightarrow> now_duration_ms s | None \<Rightarrow> v_duration_ms v)"
  by (simp_all add: render_progress_def Let_def split: option.split)

lemma view_word_idle: "\<not> view_pending i \<Longrightarrow> in_snap i = None \<Longrightarrow> view_word i = []"
  by (simp add: view_word_def render_word_def cq_view_zero_def)

lemma view_status_off: "in_engine i = CQ_ENGINE_OFF \<Longrightarrow> view_status i = []"
  by (simp add: view_status_def render_status_def cq_view_zero_def)

lemma view_fields:
  "v_state_word (cq_view_render i) = view_word i"
  "v_ack_active (cq_view_render i) = view_pending i"
  "v_title_green (cq_view_render i) = (case in_snap i of Some s \<Rightarrow> now_state s = CQ_STATE_PLAYING | None \<Rightarrow> False)"
  "v_status (cq_view_render i) = view_status i"
  "v_position_ms (cq_view_render i) = (case in_snap i of Some s \<Rightarrow> view_position i s | None \<Rightarrow> 0)"
  "v_cover_key (cq_view_render i) =
     (case in_snap i of Some s \<Rightarrow> (case now_album_id s of Some a \<Rightarrow> fits 64 a | None \<Rightarrow> []) | None \<Rightarrow> [])"
  "v_show_progress (cq_view_render i) = (case in_snap i of Some s \<Rightarrow> now_duration_ms s > 0 | None \<Rightarrow> False)"
  "v_duration_ms (cq_view_render i) = (case in_snap i of Some s \<Rightarrow> now_duration_ms s | None \<Rightarrow> 0)"
  unfolding cq_view_render_def Let_def
  by (simp_all add: view_steps view_word_idle view_status_off)
    (simp_all add: view_steps cq_view_zero_def split: option.split)

text \<open>The prebuffer count-up.\<close>

definition view_pct :: "cq_view_in \<Rightarrow> int" where
  "view_pct i = min 99 (sint (in_ring_fill i * 100 div (if in_prebuf_target i \<noteq> 0 then in_prebuf_target i else 1)))"

definition counting :: "cq_view_in \<Rightarrow> bool" where
  "counting i \<longleftrightarrow> in_engine i = CQ_ENGINE_BUFFERING \<and> \<not> (fact_usable i \<and> in_live i = 0 \<and> playing_active i)"

lemma on_air_pct [simp]: "v_buffer_pct (render_on_air i v) = v_buffer_pct v"
  by (simp add: render_on_air_def tail_status_def)

lemma view_pct_field: "v_buffer_pct (cq_view_render i) = (if counting i then view_pct i else -1)"
proof -
  have "v_buffer_pct (render_status i v) = (if counting i then view_pct i else v_buffer_pct v)" for v
    by (cases "in_engine i")
      (auto simp: render_status_def render_buffering_def counting_def view_pct_def Let_def min_def)
  then show ?thesis unfolding cq_view_render_def Let_def by (simp add: view_steps)
qed

lemma pct_range:
  assumes "2 \<le> in_prebuf_target i"
  shows "0 \<le> view_pct i" "view_pct i \<le> 99"
proof -
  let ?q = "in_ring_fill i * 100 div in_prebuf_target i"
  have t: "2 \<le> unat (in_prebuf_target i)" using assms by (simp add: word_le_nat_alt)
  have "unat ?q \<le> unat (in_ring_fill i * 100) div 2"
    using t by (simp add: unat_div div_le_mono2)
  moreover have "unat (in_ring_fill i * 100) < 4294967296"
    using unsigned_less [of "in_ring_fill i * 100", where ?'a = nat] by simp
  ultimately have "unat ?q < 2147483648" by linarith
  then have "sint ?q = int (unat ?q)"
    by (intro sint_small) simp
  moreover have "in_prebuf_target i \<noteq> 0" using t by auto
  ultimately show "0 \<le> view_pct i" "view_pct i \<le> 99" by (simp_all add: view_pct_def)
qed

text \<open>The status line, case by case.\<close>

lemma status_cases:
  "view_status i = (case in_engine i of
      CQ_ENGINE_OFF \<Rightarrow> []
    | CQ_ENGINE_TUNING \<Rightarrow> ''tuning in...''
    | CQ_ENGINE_BUFFERING \<Rightarrow> if counting i then fits 40 (''buffering... '' @ int_str (view_pct i) @ ''%'')
        else ''waiting for Spotify...''
    | CQ_ENGINE_ON_AIR \<Rightarrow> v_status (render_on_air i cq_view_zero))"
  by (cases "in_engine i")
    (auto simp: view_status_def render_status_def render_buffering_def counting_def view_pct_def
      Let_def min_def cq_view_zero_def)

lemma on_air_status:
  "v_status (render_on_air i v) \<in>
     {''playing out...'', ''standing by'', ''waiting for Spotify...'', ''buffering...'', ''on air''}"
  by (simp add: render_on_air_def tail_status_def)

lemma status_length: "length (view_status i) < 40"
proof (cases "in_engine i")
  case CQ_ENGINE_BUFFERING
  then show ?thesis using length_fits_less [of 40] by (simp add: status_cases)
next
  case CQ_ENGINE_ON_AIR
  then show ?thesis using on_air_status [of i cq_view_zero] by (auto simp: status_cases)
qed (simp_all add: status_cases)

lemma word_cases:
  "view_word i \<in> {[], ''Skipping...'', ''Starting...'', ''Pausing...'', ''Playing'', ''Paused'', ''Stopped''}"
  by (simp add: view_word_def render_word_def cq_view_zero_def split: option.split)

subsection \<open>Positions\<close>

lemma position_clamped:
  "0 \<le> view_position i s" "0 < now_duration_ms s \<Longrightarrow> view_position i s \<le> now_duration_ms s"
  by (auto simp: view_position_def Let_def)

lemma elapsed_ms:
  assumes "n < 2 ^ 32"
  shows "tdiv (wrap64 (int n * 1000)) 60 = int n * 1000 div 60" "0 \<le> int n * 1000 div 60"
    "int n * 1000 div 60 < 2 ^ 42"
proof -
  have n: "int n < 4294967296" using assms by simp
  then have "wrap64 (int n * 1000) = int n * 1000" by (intro wrap64_id) simp_all
  then show "tdiv (wrap64 (int n * 1000)) 60 = int n * 1000 div 60" by (simp add: tdiv_pos)
  show "0 \<le> int n * 1000 div 60" by simp
  show "int n * 1000 div 60 < 2 ^ 42" using n by simp
qed

lemma unat_bound: "unat (c :: u32) < 2 ^ 32"
  using unsigned_less [of c, where ?'a = nat] by simp

text \<open>While playing, the position is the one at adoption plus the elapsed ticks, clamped.\<close>

lemma position_playing:
  assumes "now_state s = CQ_STATE_PLAYING" "- (2 ^ 62) \<le> now_position_ms s" "now_position_ms s < 2 ^ 62"
  shows "view_position i s =
    (let p = max 0 (now_position_ms s + int (unat (in_now_ticks i - in_snap_ticks i)) * 1000 div 60)
     in if 0 < now_duration_ms s then min p (now_duration_ms s) else p)"
proof -
  define n where "n = unat (in_now_ticks i - in_snap_ticks i)"
  note e = elapsed_ms [OF unat_bound [of "in_now_ticks i - in_snap_ticks i"], folded n_def]
  have "wrap64 (now_position_ms s + int n * 1000 div 60) = now_position_ms s + int n * 1000 div 60"
    using assms(2,3) e(2,3) by (intro wrap64_id) simp_all
  then show ?thesis unfolding n_def [symmetric] using assms(1)
    by (auto simp: view_position_def n_def [symmetric] e(1) Let_def max_def min_def)
qed

subsection \<open>Properties\<close>

text \<open>Every rendering fits the fixed buffers of the view with its terminator, and the prebuffer
percentage is between 0 and 99 while the count-up is shown and -1 otherwise, for every input whose
prebuffer target is at least two bytes.\<close>

lemma view_buffers:
  assumes "2 \<le> in_prebuf_target i"
  shows "length (v_state_word (cq_view_render i)) < 16 \<and> length (v_status (cq_view_render i)) < 40 \<and>
    length (v_cover_key (cq_view_render i)) < 64 \<and>
    (if counting i then 0 \<le> v_buffer_pct (cq_view_render i) \<and> v_buffer_pct (cq_view_render i) \<le> 99 \<and>
        v_status (cq_view_render i) = ''buffering... '' @ int_str (v_buffer_pct (cq_view_render i)) @ ''%''
     else v_buffer_pct (cq_view_render i) = -1)"
proof -
  have w: "length (view_word i) < 16" using word_cases [of i] by auto
  have k: "length (v_cover_key (cq_view_render i)) < 64"
    using length_fits_less [of 64] by (simp add: view_fields split: option.split)
  note r = pct_range [OF assms]
  have "length (nat_str (nat (view_pct i))) \<le> 2" using r by (intro length_nat_str_le) auto
  then have "length (''buffering... '' @ int_str (view_pct i) @ ''%'') < 40" using r by (simp add: int_str_def)
  then have "counting i \<Longrightarrow> view_status i = ''buffering... '' @ int_str (view_pct i) @ ''%''"
    by (simp add: status_cases fits_id counting_def)
  then show ?thesis using w k r status_length [of i] by (simp add: view_fields(1,4) view_pct_field)
qed

definition demo_in :: cq_view_in where
  "demo_in = \<lparr>in_snap = Some (cq_now_zero\<lparr>now_state := CQ_STATE_PAUSED\<rparr>), in_snap_ticks = 0,
     in_has_stream_fact = False, in_live = 0, in_fact_ts = 0, in_engine = CQ_ENGINE_BUFFERING,
     in_ring_fill = 196608, in_prebuf_target = 393216, in_chunk_bytes = 32768, in_rx_dry_ticks = -1,
     in_starve_ticks = -1, in_intent = CQ_INTENT_PLAY, in_intent_ticks = 4294967290, in_pre_track_id = [],
     in_pre_state = CQ_STATE_PAUSED, in_now_ticks = 4\<rparr>"

text \<open>C18. The command acknowledgement is bounded: once a command has been issued the ack text wins
over the snapshot's state word exactly until the snapshot reflects the command or 480 ticks have
passed, and this holds across the wrap of the tick counter.\<close>

theorem view_ack_expires:
  assumes "in_intent i \<noteq> CQ_INTENT_NONE" "in_now_ticks i = in_intent_ticks i + of_nat d" "d < 2 ^ 31"
  shows "(v_ack_active (cq_view_render i) \<longleftrightarrow> d < 480 \<and> \<not> intent_reflected i) \<and>
    (v_ack_active (cq_view_render i) \<longleftrightarrow>
       v_state_word (cq_view_render i) \<in> {''Skipping...'', ''Starting...'', ''Pausing...''}) \<and>
    (d \<ge> 480 \<longrightarrow> v_state_word (cq_view_render i) =
       (case in_snap i of None \<Rightarrow> [] | Some s \<Rightarrow> (case now_state s of
          CQ_STATE_PLAYING \<Rightarrow> ''Playing'' | CQ_STATE_PAUSED \<Rightarrow> ''Paused'' | CQ_STATE_STOPPED \<Rightarrow> ''Stopped'')))"
proof -
  have p: "view_pending i \<longleftrightarrow> d < 480 \<and> \<not> intent_reflected i"
    using assms(1) tick_diff_later [OF assms(3), of "in_intent_ticks i"] by (simp add: view_pending_def assms(2))
  have w: "view_pending i \<longleftrightarrow> view_word i \<in> {''Skipping...'', ''Starting...'', ''Pausing...''}"
    by (simp add: view_word_def render_word_def cq_view_zero_def split: option.split)
  have n: "\<not> view_pending i \<Longrightarrow> view_word i = (case in_snap i of None \<Rightarrow> [] | Some s \<Rightarrow> (case now_state s of
      CQ_STATE_PLAYING \<Rightarrow> ''Playing'' | CQ_STATE_PAUSED \<Rightarrow> ''Paused'' | CQ_STATE_STOPPED \<Rightarrow> ''Stopped''))"
    by (simp add: view_word_def render_word_def cq_view_zero_def split: option.split cq_play_state.split)
  show ?thesis using p w n by (simp add: view_fields)
qed

theorem view_ack_expires_witness:
  "v_ack_active (cq_view_render demo_in)"
proof -
  have "in_now_ticks demo_in = in_intent_ticks demo_in + of_nat 10" by (simp add: demo_in_def)
  moreover have "\<not> intent_reflected demo_in" by (simp add: intent_reflected_def demo_in_def)
  moreover have "in_intent demo_in \<noteq> CQ_INTENT_NONE" by (simp add: demo_in_def)
  ultimately show ?thesis using view_ack_expires [of demo_in 10] by simp
qed



text \<open>The progress bar never runs backwards and never past the end: between two renderings of the
same snapshot the position only grows with the ticks since adoption, it is frozen unless playing,
and it stays between zero and the duration when one is known.\<close>

lemma view_position_monotone:
  assumes "in_snap i = Some s" "- (2 ^ 62) \<le> now_position_ms s" "now_position_ms s < 2 ^ 62"
    "in_now_ticks i - in_snap_ticks i \<le> t"
  shows "v_position_ms (cq_view_render i) \<le> v_position_ms (cq_view_render (i\<lparr>in_now_ticks := in_snap_ticks i + t\<rparr>)) \<and>
    (now_state s \<noteq> CQ_STATE_PLAYING \<longrightarrow>
       v_position_ms (cq_view_render (i\<lparr>in_now_ticks := in_snap_ticks i + t\<rparr>)) = v_position_ms (cq_view_render i)) \<and>
    0 \<le> v_position_ms (cq_view_render i) \<and>
    (0 < now_duration_ms s \<longrightarrow> v_position_ms (cq_view_render i) \<le> now_duration_ms s)"
proof -
  let ?j = "i\<lparr>in_now_ticks := in_snap_ticks i + t\<rparr>"
  have frozen: "now_state s \<noteq> CQ_STATE_PLAYING \<Longrightarrow> view_position ?j s = view_position i s"
    by (simp add: view_position_def)
  have "view_position i s \<le> view_position ?j s" if "now_state s = CQ_STATE_PLAYING"
  proof -
    have "unat (in_now_ticks i - in_snap_ticks i) \<le> unat t" using assms(4) by (simp only: word_le_nat_alt)
    then have "int (unat (in_now_ticks i - in_snap_ticks i)) * 1000 \<le> int (unat t) * 1000" by linarith
    then have "int (unat (in_now_ticks i - in_snap_ticks i)) * 1000 div 60 \<le> int (unat t) * 1000 div 60"
      by (rule zdiv_mono1) simp
    moreover have "in_now_ticks ?j - in_snap_ticks ?j = t" by simp
    ultimately show ?thesis
      unfolding position_playing [OF that assms(2,3)] Let_def by (auto simp: max_def min_def)
  qed
  then show ?thesis using assms(1) frozen position_clamped [where i = i and s = s] by (cases "now_state s") (auto simp: view_fields)
qed

end
