(* ===== verification/Transport.thy ===== *)
theory Transport
  imports Prelude
begin

text \<open>
  The transport seam (\<open>cq_transport.h\<close>): the status and error values both implementations
  report, and the contract of their receive buffer, which the audio path drains while the
  connection is still being read. The two implementations interpret the contract.
\<close>

abbreviation CQ_TX_READ_CHUNK :: nat where "CQ_TX_READ_CHUNK \<equiv> 8192"
abbreviation CQ_TX_STREAM_HIWAT :: nat where "CQ_TX_STREAM_HIWAT \<equiv> 65536"
abbreviation CQ_TX_DEADLINE_SECS :: nat where "CQ_TX_DEADLINE_SECS \<equiv> 2"
abbreviation CQ_TX_WATCHDOG_SECS :: nat where "CQ_TX_WATCHDOG_SECS \<equiv> 5"

datatype cq_tx_status = CQ_TX_RUNNING | CQ_TX_DONE | CQ_TX_FAILED

datatype cq_tx_error = CQ_TX_ERR_NONE | CQ_TX_ERR_CONNECT | CQ_TX_ERR_TIMEOUT | CQ_TX_ERR_STREAM

text \<open>The line a gopher request puts on the wire.\<close>

definition request :: "cstr \<Rightarrow> bytes" where
  "request sel = sel @ [CR, LF]"

lemma length_request [simp]: "length (request sel) = length sel + 2"
  by (simp add: request_def)

text \<open>
  The doubling loop of a growing buffer; the capacity it starts from is never 0.
\<close>

function double_to :: "nat \<Rightarrow> nat \<Rightarrow> nat" where
  "double_to cap need = (if 0 < cap \<and> cap < need then double_to (cap * 2) need else cap)"
  by pat_completeness auto
termination by (relation "measure (\<lambda>(cap, need). need - cap)") auto

declare double_to.simps [simp del]

lemma double_to_room: "0 < cap \<Longrightarrow> need \<le> double_to cap need"
proof (induction cap need rule: double_to.induct)
  case (1 cap need)
  then show ?case by (subst double_to.simps) simp
qed

lemma double_to_ge: "cap \<le> double_to cap need"
proof (induction cap need rule: double_to.induct)
  case (1 cap need)
  then show ?case
    by (cases "0 < cap \<and> cap < need") (auto simp: double_to.simps [of cap need])
qed

definition new_cap :: "nat \<Rightarrow> nat \<Rightarrow> nat \<Rightarrow> nat" where
  "new_cap len n cap =
     (if len + n > cap then double_to (if cap \<noteq> 0 then cap else CQ_TX_READ_CHUNK) (len + n) else cap)"

lemma new_cap_room: "len + n \<le> new_cap len n cap"
  using double_to_room [of "if cap \<noteq> 0 then cap else CQ_TX_READ_CHUNK" "len + n"]
  by (auto simp: new_cap_def)

subsection \<open>The receive buffer's contract\<close>

datatype rx_event = Arrive bytes | Drain nat

definition arrivals :: "rx_event list \<Rightarrow> bytes" where
  "arrivals es = concat (map (\<lambda>e. case e of Arrive bs \<Rightarrow> bs | Drain n \<Rightarrow> []) es)"

lemma arrivals_simps [simp]:
  "arrivals [] = []" "arrivals (Arrive bs # es) = bs @ arrivals es" "arrivals (Drain n # es) = arrivals es"
  by (simp_all add: arrivals_def)

locale rx_buffer =
  fixes put :: "'t \<Rightarrow> bytes \<Rightarrow> 't" and drain :: "'t \<Rightarrow> nat \<Rightarrow> bytes \<times> 't" and content :: "'t \<Rightarrow> bytes"
  assumes content_put: "content (put t bs) = content t @ bs"
    and drained: "fst (drain t n) = take n (content t)"
    and content_drain: "content (snd (drain t n)) = drop n (content t)"
begin

fun session :: "'t \<Rightarrow> rx_event list \<Rightarrow> bytes \<times> 't" where
  "session t [] = ([], t)"
| "session t (Arrive bs # es) = session (put t bs) es"
| "session t (Drain n # es) = (case drain t n of (out, t') \<Rightarrow>
     case session t' es of (out', t'') \<Rightarrow> (out @ out', t''))"

text \<open>However arrivals and drains interleave, no byte is lost, duplicated or reordered.\<close>

lemma session_fifo: "fst (session t es) @ content (snd (session t es)) = content t @ arrivals es"
proof (induction es arbitrary: t)
  case (Cons e es)
  show ?case
  proof (cases e)
    case (Arrive bs)
    then show ?thesis using Cons.IH [of "put t bs"] by (simp add: content_put)
  next
    case (Drain n)
    obtain out t' where d: "drain t n = (out, t')" by (cases "drain t n")
    have "out @ content t' = content t" using drained [of t n] content_drain [of t n] by (simp add: d)
    then show ?thesis using Cons.IH [of t'] Drain d by (simp add: split_beta)
  qed
qed simp

end

end
