(* ===== verification/TransportPosix.thy ===== *)
theory TransportPosix
  imports Transport
begin

text \<open>
  The BSD-socket implementation (\<open>cq_transport_posix.c\<close>). The operating system is a
  parameter: \<open>sys\<close> answers a call on a world \<open>'w\<close>. A connected descriptor is a natural
  number, no descriptor (-1) is None; allocation is taken to succeed.
\<close>

record px_tx =
  host :: cstr
  port :: int
  selector :: cstr
  status :: cq_tx_status
  error :: cq_tx_error
  message :: cstr
  data :: bytes
  cap :: nat
  started :: bool
  cancelled :: bool
  streaming :: bool
  fd :: "nat option"

text \<open>
  The calls the file makes: resolution gives the candidate addresses; opening a socket to one
  covers \<open>socket\<close>, the non-blocking mode and the \<open>connect\<close> issue; waiting is the
  \<open>select\<close> with the deadline.
\<close>

datatype px_call = Resolve cstr int | Socket nat | Connect nat | SelectWritable nat | SoError nat |
  Send nat bytes | Recv nat nat | Close nat

datatype px_answer = Ok nat | Bytes bytes | Again | Fail

text \<open>The answer to \<open>Resolve\<close> is the number of candidate addresses.\<close>

definition cq_tx_new :: "cstr option \<Rightarrow> int \<Rightarrow> cstr option \<Rightarrow> px_tx" where
  "cq_tx_new h p sel =
     \<lparr>host = (case h of Some s \<Rightarrow> s | None \<Rightarrow> []), port = p,
      selector = (case sel of Some s \<Rightarrow> s | None \<Rightarrow> []), status = CQ_TX_RUNNING, error = CQ_TX_ERR_NONE,
      message = [], data = [], cap = 0, started = False, cancelled = False, streaming = False, fd = None\<rparr>"

definition cq_tx_stream_new :: "cstr option \<Rightarrow> int \<Rightarrow> cstr option \<Rightarrow> px_tx" where
  "cq_tx_stream_new h p sel = (cq_tx_new h p sel)\<lparr>streaming := True\<rparr>"

definition fail_tx :: "px_tx \<Rightarrow> cq_tx_error \<Rightarrow> cstr \<Rightarrow> px_tx" where
  "fail_tx t e what = t\<lparr>status := CQ_TX_FAILED, error := e,
     message := fits 256 (what @ '' '' @ host t @ '':'' @ int_str (port t) @ ''.'')\<rparr>"

definition append_rx :: "px_tx \<Rightarrow> bytes \<Rightarrow> px_tx" where
  "append_rx t bs = t\<lparr>cap := new_cap (length (data t)) (length bs) (cap t), data := data t @ bs\<rparr>"

definition connect_deadline ::
  "('w \<Rightarrow> px_call \<Rightarrow> 'w \<times> px_answer) \<Rightarrow> nat \<Rightarrow> 'w \<Rightarrow> 'w \<times> (cq_tx_error + nat)" where
  "connect_deadline sys ai w =
     (case sys w (Socket ai) of
        (w, Ok s) \<Rightarrow>
          (case sys w (Connect s) of
             (w, Ok _) \<Rightarrow> (w, Inr s)
           | (w, Again) \<Rightarrow>
               (case sys w (SelectWritable s) of
                  (w, Ok n) \<Rightarrow>
                    if n = 0 then (fst (sys w (Close s)), Inl CQ_TX_ERR_TIMEOUT)
                    else (case sys w (SoError s) of
                        (w, Ok e) \<Rightarrow> if e \<noteq> 0 then (fst (sys w (Close s)), Inl CQ_TX_ERR_CONNECT) else (w, Inr s)
                      | (w, _) \<Rightarrow> (fst (sys w (Close s)), Inl CQ_TX_ERR_CONNECT))
                | (w, _) \<Rightarrow> (fst (sys w (Close s)), Inl CQ_TX_ERR_CONNECT))
           | (w, _) \<Rightarrow> (fst (sys w (Close s)), Inl CQ_TX_ERR_CONNECT))
      | (w, _) \<Rightarrow> (w, Inl CQ_TX_ERR_CONNECT))"

text \<open>The candidates in order, the last error being the one reported.\<close>

fun connect_any ::
  "('w \<Rightarrow> px_call \<Rightarrow> 'w \<times> px_answer) \<Rightarrow> nat list \<Rightarrow> cq_tx_error \<Rightarrow> 'w \<Rightarrow> 'w \<times> (cq_tx_error + nat)" where
  "connect_any sys [] err w = (w, Inl err)"
| "connect_any sys (ai # ais) err w =
     (case connect_deadline sys ai w of
        (w, Inr s) \<Rightarrow> (w, Inr s)
      | (w, Inl e) \<Rightarrow> connect_any sys ais e w)"

text \<open>
  Writing the request fully. A write that accepts nothing is a failure, so the loop ends.
\<close>

function send_all ::
  "('w \<Rightarrow> px_call \<Rightarrow> 'w \<times> px_answer) \<Rightarrow> nat \<Rightarrow> bytes \<Rightarrow> nat \<Rightarrow> 'w \<Rightarrow> 'w \<times> bool" where
  "send_all sys s line off w =
     (if off < length line then
        (case sys w (Send s (drop off line)) of
           (w', Ok n) \<Rightarrow> if n = 0 then (w', False) else send_all sys s line (off + n) w'
         | (w', _) \<Rightarrow> (w', False))
      else (w, True))"
  by pat_completeness auto
termination by (relation "measure (\<lambda>(sys, s, line, off, w). length line - off)") auto

declare send_all.simps [simp del]

definition connect_and_send ::
  "('w \<Rightarrow> px_call \<Rightarrow> 'w \<times> px_answer) \<Rightarrow> px_tx \<Rightarrow> 'w \<Rightarrow> 'w \<times> px_tx \<times> nat option" where
  "connect_and_send sys t w =
     (case sys w (Resolve (host t) (port t)) of
        (w, Ok n) \<Rightarrow>
          if n = 0 then (w, fail_tx t CQ_TX_ERR_CONNECT ''Could not resolve'', None)
          else (case connect_any sys [0..<n] CQ_TX_ERR_CONNECT w of
              (w, Inl err) \<Rightarrow>
                (w, fail_tx t err (if err = CQ_TX_ERR_TIMEOUT then ''Timed out connecting to''
                                   else ''Could not connect to''), None)
            | (w, Inr s) \<Rightarrow>
                (case send_all sys s (request (selector t)) 0 w of
                   (w, True) \<Rightarrow> (w, t, Some s)
                 | (w, False) \<Rightarrow>
                     (fst (sys w (Close s)), fail_tx t CQ_TX_ERR_STREAM ''Write failed to'', None)))
      | (w, _) \<Rightarrow> (w, fail_tx t CQ_TX_ERR_CONNECT ''Could not resolve'', None))"

text \<open>
  Reading to the end of file, with fuel: the peer decides how long it sends.
\<close>

fun read_loop ::
  "nat \<Rightarrow> ('w \<Rightarrow> px_call \<Rightarrow> 'w \<times> px_answer) \<Rightarrow> nat \<Rightarrow> px_tx \<Rightarrow> 'w \<Rightarrow> ('w \<times> px_tx) option" where
  "read_loop 0 sys s t w = None"
| "read_loop (Suc k) sys s t w =
     (case sys w (Recv s CQ_TX_READ_CHUNK) of
        (w, Bytes bs) \<Rightarrow>
          if bs = [] then Some (fst (sys w (Close s)), t\<lparr>status := CQ_TX_DONE\<rparr>)
          else read_loop k sys s (append_rx t bs) w
      | (w, _) \<Rightarrow>
          if data t = []
          then Some (fst (sys w (Close s)), fail_tx t CQ_TX_ERR_STREAM ''Read failed from'')
          else Some (fst (sys w (Close s)), t\<lparr>status := CQ_TX_DONE\<rparr>))"

definition run_tx ::
  "nat \<Rightarrow> ('w \<Rightarrow> px_call \<Rightarrow> 'w \<times> px_answer) \<Rightarrow> px_tx \<Rightarrow> 'w \<Rightarrow> ('w \<times> px_tx) option" where
  "run_tx k sys t w =
     (case connect_and_send sys t w of
        (w, t, None) \<Rightarrow> Some (w, t)
      | (w, t, Some s) \<Rightarrow> read_loop k sys s t w)"

definition cq_tx_start :: "px_tx \<Rightarrow> px_tx" where
  "cq_tx_start t = t\<lparr>started := True\<rparr>"

text \<open>
  The streaming slice: it reads until nothing is there or the high-water mark is reached.
\<close>

function stream_loop ::
  "('w \<Rightarrow> px_call \<Rightarrow> 'w \<times> px_answer) \<Rightarrow> nat \<Rightarrow> px_tx \<Rightarrow> 'w \<Rightarrow> 'w \<times> px_tx" where
  "stream_loop sys s t w =
     (if length (data t) \<ge> CQ_TX_STREAM_HIWAT then (w, t)
      else (case sys w (Recv s CQ_TX_READ_CHUNK) of
          (w', Bytes bs) \<Rightarrow>
            if bs = [] then (fst (sys w' (Close s)), t\<lparr>fd := None, status := CQ_TX_DONE\<rparr>)
            else stream_loop sys s (append_rx t bs) w'
        | (w', Again) \<Rightarrow> (w', t)
        | (w', _) \<Rightarrow> (fst (sys w' (Close s)), fail_tx (t\<lparr>fd := None\<rparr>) CQ_TX_ERR_STREAM ''Read failed from'')))"
  by pat_completeness auto
termination
  by (relation "measure (\<lambda>(sys, s, t, w). CQ_TX_STREAM_HIWAT - length (data t))")
    (auto simp: append_rx_def intro: diff_less_mono2)

declare stream_loop.simps [simp del]

definition pump_stream ::
  "('w \<Rightarrow> px_call \<Rightarrow> 'w \<times> px_answer) \<Rightarrow> px_tx \<Rightarrow> 'w \<Rightarrow> 'w \<times> px_tx" where
  "pump_stream sys t w =
     (case fd t of
        Some s \<Rightarrow> stream_loop sys s t w
      | None \<Rightarrow>
          (case connect_and_send sys t w of
             (w, t, None) \<Rightarrow> (w, t)
           | (w, t, Some s) \<Rightarrow> stream_loop sys s (t\<lparr>fd := Some s\<rparr>) w))"

definition cq_tx_poll ::
  "nat \<Rightarrow> ('w \<Rightarrow> px_call \<Rightarrow> 'w \<times> px_answer) \<Rightarrow> px_tx \<Rightarrow> 'w \<Rightarrow> ('w \<times> px_tx) option" where
  "cq_tx_poll k sys t w =
     (if cancelled t then Some (w, t)
      else if streaming t then
        (if started t \<and> status t = CQ_TX_RUNNING then Some (pump_stream sys t w) else Some (w, t))
      else if started t \<and> status t = CQ_TX_RUNNING then run_tx k sys (t\<lparr>started := False\<rparr>) w
      else Some (w, t))"

definition cq_tx_drain :: "px_tx \<Rightarrow> nat \<Rightarrow> bytes \<times> px_tx" where
  "cq_tx_drain t n =
     (if n = 0 \<or> length (data t) = 0 then ([], t)
      else let k = (if length (data t) < n then length (data t) else n)
           in (take k (data t), t\<lparr>data := drop k (data t)\<rparr>))"

definition cq_tx_cancel :: "('w \<Rightarrow> px_call \<Rightarrow> 'w \<times> px_answer) \<Rightarrow> px_tx \<Rightarrow> 'w \<Rightarrow> 'w \<times> px_tx" where
  "cq_tx_cancel sys t w =
     (case fd t of
        Some s \<Rightarrow> (fst (sys w (Close s)), t\<lparr>cancelled := True, fd := None\<rparr>)
      | None \<Rightarrow> (w, t\<lparr>cancelled := True\<rparr>))"

definition cq_tx_free :: "('w \<Rightarrow> px_call \<Rightarrow> 'w \<times> px_answer) \<Rightarrow> px_tx \<Rightarrow> 'w \<Rightarrow> 'w" where
  "cq_tx_free sys t w = (case fd t of Some s \<Rightarrow> fst (sys w (Close s)) | None \<Rightarrow> w)"

interpretation px: rx_buffer append_rx cq_tx_drain data
  by unfold_locales (auto simp: append_rx_def cq_tx_drain_def Let_def)

fun px_session :: "px_tx \<Rightarrow> rx_event list \<Rightarrow> bytes \<times> px_tx" where
  "px_session t [] = ([], t)"
| "px_session t (Arrive bs # es) = px_session (append_rx t bs) es"
| "px_session t (Drain n # es) = (case cq_tx_drain t n of (out, t') \<Rightarrow>
     case px_session t' es of (out', t'') \<Rightarrow> (out @ out', t''))"

lemma px_session_eq: "px_session t es = px.session t es"
  by (induction t es rule: px_session.induct) (simp_all split: prod.splits)

subsection \<open>The operating system's contract\<close>

text \<open>
  \<open>rx\<close> and \<open>tx\<close> observe what a world has delivered and accepted so far. A read delivers at
  most what was asked for, a write accepts a prefix of what it was given, and nothing else moves
  stream bytes.
\<close>

fun rx_gain :: "px_call \<Rightarrow> px_answer \<Rightarrow> bytes" where
  "rx_gain (Recv s n) (Bytes bs) = bs"
| "rx_gain _ _ = []"

fun tx_gain :: "px_call \<Rightarrow> px_answer \<Rightarrow> bytes" where
  "tx_gain (Send s buf) (Ok n) = take n buf"
| "tx_gain _ _ = []"

fun answer_ok :: "px_call \<Rightarrow> px_answer \<Rightarrow> bool" where
  "answer_ok (Recv s n) (Bytes bs) = (length bs \<le> n)"
| "answer_ok (Send s buf) (Ok n) = (n \<le> length buf)"
| "answer_ok _ _ = True"

definition sys_ok ::
  "('w \<Rightarrow> px_call \<Rightarrow> 'w \<times> px_answer) \<Rightarrow> ('w \<Rightarrow> bytes) \<Rightarrow> ('w \<Rightarrow> bytes) \<Rightarrow> bool" where
  "sys_ok sys rx tx \<longleftrightarrow> (\<forall>w c w' a. sys w c = (w', a) \<longrightarrow>
     rx w' = rx w @ rx_gain c a \<and> tx w' = tx w @ tx_gain c a \<and> answer_ok c a)"

lemma sys_okD:
  assumes "sys_ok sys rx tx" "sys w c = (w', a)"
  shows "rx w' = rx w @ rx_gain c a" "tx w' = tx w @ tx_gain c a" "answer_ok c a"
  using assms unfolding sys_ok_def by blast+

text \<open>A call that moves no stream bytes.\<close>

lemma sys_quiet:
  assumes "sys_ok sys rx tx" "\<And>a. rx_gain c a = [] \<and> tx_gain c a = []"
  shows "rx (fst (sys w c)) = rx w" "tx (fst (sys w c)) = tx w"
  using sys_okD [OF assms(1), of w c "fst (sys w c)" "snd (sys w c)"] assms(2) by simp_all

lemma quiet_calls:
  assumes "sys_ok sys rx tx"
  shows "sys w (Resolve h p) = (w', a) \<Longrightarrow> rx w' = rx w \<and> tx w' = tx w"
    "sys w (Socket n) = (w', a) \<Longrightarrow> rx w' = rx w \<and> tx w' = tx w"
    "sys w (Connect n) = (w', a) \<Longrightarrow> rx w' = rx w \<and> tx w' = tx w"
    "sys w (SelectWritable n) = (w', a) \<Longrightarrow> rx w' = rx w \<and> tx w' = tx w"
    "sys w (SoError n) = (w', a) \<Longrightarrow> rx w' = rx w \<and> tx w' = tx w"
  using sys_okD(1,2) [OF assms] by fastforce+

lemma quiet_close:
  assumes "sys_ok sys rx tx"
  shows "rx (fst (sys w (Close s))) = rx w" "tx (fst (sys w (Close s))) = tx w"
  by (rule sys_quiet [OF assms], simp)+

lemma connect_deadline_quiet:
  assumes "sys_ok sys rx tx" "connect_deadline sys ai w = (w', res)"
  shows "rx w' = rx w \<and> tx w' = tx w"
proof -
  note q = quiet_calls [OF assms(1)] and c = quiet_close [OF assms(1)]
  obtain w1 a1 where s1: "sys w (Socket ai) = (w1, a1)" by (cases "sys w (Socket ai)")
  show ?thesis
  proof (cases a1)
    case (Ok s)
    obtain w2 a2 where s2: "sys w1 (Connect s) = (w2, a2)" by (cases "sys w1 (Connect s)")
    obtain w3 a3 where s3: "sys w2 (SelectWritable s) = (w3, a3)" by (cases "sys w2 (SelectWritable s)")
    obtain w4 a4 where s4: "sys w3 (SoError s) = (w4, a4)" by (cases "sys w3 (SoError s)")
    have e: "rx w1 = rx w" "tx w1 = tx w" "rx w2 = rx w" "tx w2 = tx w" "rx w3 = rx w" "tx w3 = tx w"
      "rx w4 = rx w" "tx w4 = tx w"
      using q(2) [OF s1] q(3) [OF s2] q(4) [OF s3] q(5) [OF s4] by simp_all
    have "w' \<in> {w1, w2, w3, w4, fst (sys w2 (Close s)), fst (sys w3 (Close s)), fst (sys w4 (Close s))}"
      using assms(2) by (auto simp: connect_deadline_def s1 Ok s2 s3 s4 split: px_answer.splits if_splits)
    then show ?thesis using e c by auto
  qed (use assms(2) q(2) [OF s1] in \<open>simp_all add: connect_deadline_def s1\<close>)
qed

lemma connect_any_quiet:
  assumes "sys_ok sys rx tx"
  shows "connect_any sys ais err w = (w', res) \<Longrightarrow> rx w' = rx w \<and> tx w' = tx w"
proof (induction ais arbitrary: err w)
  case (Cons ai ais)
  obtain w1 r1 where d: "connect_deadline sys ai w = (w1, r1)" by (cases "connect_deadline sys ai w")
  note dq = connect_deadline_quiet [OF assms d]
  show ?case
  proof (cases r1)
    case (Inl e)
    then have "connect_any sys ais e w1 = (w', res)" using Cons.prems by (simp add: d)
    from Cons.IH [OF this] dq show ?thesis by simp
  next
    case (Inr s)
    then show ?thesis using Cons.prems dq by (simp add: d)
  qed
qed simp

lemma take_take_drop:
  assumes "off + n \<le> m"
  shows "take n (drop off l) @ take (m - (off + n)) (drop (off + n) l) = take (m - off) (drop off l)"
  using take_add [of n "m - (off + n)" "drop off l"] assms by (simp add: add.commute)

lemma send_all_spec:
  assumes "sys_ok sys rx tx" "send_all sys s line off w = (w', ok)" "off \<le> length line"
  shows "rx w' = rx w \<and> (\<exists>n. off \<le> n \<and> n \<le> length line \<and> tx w' = tx w @ take (n - off) (drop off line) \<and>
    (ok \<longrightarrow> n = length line))" "ok \<Longrightarrow> tx w' = tx w @ drop off line"
proof -
  have "rx w' = rx w \<and> (\<exists>n. off \<le> n \<and> n \<le> length line \<and> tx w' = tx w @ take (n - off) (drop off line) \<and>
      (ok \<longrightarrow> n = length line))"
    using assms(2,3)
  proof (induction "length line - off" arbitrary: off w rule: less_induct)
    case less
    show ?case
    proof (cases "off < length line")
      case False
      then have "send_all sys s line off w = (w, True)" by (simp add: send_all.simps [of sys s line off w])
      then have "w' = w" using less.prems by simp
      with False less.prems show ?thesis by (intro conjI exI [of _ off]) auto
    next
      case True
      obtain w1 a where c: "sys w (Send s (drop off line)) = (w1, a)" by (cases "sys w (Send s (drop off line))")
      note ok = sys_okD [OF assms(1) c]
      show ?thesis
      proof (cases "\<exists>n. a = Ok n \<and> n \<noteq> 0")
        case False
        then have "w' = w1 \<and> \<not> ok \<and> tx_gain (Send s (drop off line)) a = []"
          using less.prems True c by (cases a) (auto simp: send_all.simps [of sys s line off w])
        with ok True show ?thesis by (intro conjI exI [of _ off]) simp_all
      next
        case t: True
        then obtain n where n: "a = Ok n" "n \<noteq> 0" by blast
        have b: "n \<le> length line - off" using ok(3) by (simp add: n)
        have r: "send_all sys s line (off + n) w1 = (w', ok)"
          using less.prems(1) True c n by (simp add: send_all.simps [of sys s line off w])
        have sm: "length line - (off + n) < length line - off" using True n(2) by simp
        have le: "off + n \<le> length line" using b True by simp
        from less.hyps [OF sm r le] obtain m where m: "rx w' = rx w1" "off + n \<le> m" "m \<le> length line"
          "tx w' = tx w1 @ take (m - (off + n)) (drop (off + n) line)" "ok \<longrightarrow> m = length line" by blast
        have "tx w' = tx w @ take (m - off) (drop off line)"
          using m(4) ok(2) take_take_drop [OF m(2), of line] by (simp add: n(1))
        moreover have "rx w' = rx w" using m(1) ok(1) by (simp add: n(1))
        moreover have "off \<le> m" using m(2) by simp
        ultimately show ?thesis using m(3,5) by blast
      qed
    qed
  qed
  then show "rx w' = rx w \<and> (\<exists>n. off \<le> n \<and> n \<le> length line \<and> tx w' = tx w @ take (n - off) (drop off line) \<and>
      (ok \<longrightarrow> n = length line))" "ok \<Longrightarrow> tx w' = tx w @ drop off line" by auto
qed

lemma connect_and_send_spec:
  assumes "sys_ok sys rx tx" "connect_and_send sys t w = (w', t', res)"
  shows "rx w' = rx w" "data t' = data t" "streaming t' = streaming t" "cancelled t' = cancelled t" "fd t' = fd t"
    "res = None \<Longrightarrow> status t' = CQ_TX_FAILED"
    "res \<noteq> None \<Longrightarrow> t' = t \<and> tx w' = tx w @ request (selector t)"
proof -
  obtain w1 a1 where s1: "sys w (Resolve (host t) (port t)) = (w1, a1)"
    by (cases "sys w (Resolve (host t) (port t))")
  note q1 = quiet_calls(1) [OF assms(1) s1]
  have all: "rx w' = rx w \<and> data t' = data t \<and> streaming t' = streaming t \<and> cancelled t' = cancelled t \<and>
    fd t' = fd t \<and> (res = None \<longrightarrow> status t' = CQ_TX_FAILED) \<and>
    (res \<noteq> None \<longrightarrow> t' = t \<and> tx w' = tx w @ request (selector t))"
  proof (cases "\<exists>n. a1 = Ok n \<and> n \<noteq> 0")
    case False
    then have "w' = w1 \<and> t' = fail_tx t CQ_TX_ERR_CONNECT ''Could not resolve'' \<and> res = None"
      using assms(2) by (cases a1) (auto simp: connect_and_send_def s1)
    then show ?thesis using q1 by (simp add: fail_tx_def)
  next
    case True
    then obtain n where n: "a1 = Ok n" "n \<noteq> 0" by blast
    obtain w2 r2 where s2: "connect_any sys [0..<n] CQ_TX_ERR_CONNECT w1 = (w2, r2)"
      by (cases "connect_any sys [0..<n] CQ_TX_ERR_CONNECT w1")
    note q2 = connect_any_quiet [OF assms(1) s2]
    show ?thesis
    proof (cases r2)
      case (Inl err)
      then have "w' = w2 \<and> res = None \<and> (\<exists>m. t' = fail_tx t err m)"
        using assms(2) n by (auto simp: connect_and_send_def s1 s2)
      then show ?thesis using q1 q2 by (auto simp: fail_tx_def)
    next
      case (Inr s)
      obtain w3 ok where s3: "send_all sys s (request (selector t)) 0 w2 = (w3, ok)"
        by (cases "send_all sys s (request (selector t)) 0 w2")
      note q3 = send_all_spec [OF assms(1) s3]
      show ?thesis
      proof (cases ok)
        case True
        then show ?thesis using assms(2) n Inr q1 q2 q3 by (auto simp: connect_and_send_def s1 s2 s3)
      next
        case False
        then show ?thesis using assms(2) n Inr q1 q2 q3 quiet_close [OF assms(1)]
          by (auto simp: connect_and_send_def s1 s2 s3 fail_tx_def)
      qed
    qed
  qed
  then show "rx w' = rx w" "data t' = data t" "streaming t' = streaming t" "cancelled t' = cancelled t" "fd t' = fd t"
    "res = None \<Longrightarrow> status t' = CQ_TX_FAILED"
    "res \<noteq> None \<Longrightarrow> t' = t \<and> tx w' = tx w @ request (selector t)" by auto
qed

lemma read_loop_spec:
  assumes "sys_ok sys rx tx"
  shows "read_loop k sys s t w = Some (w', t') \<Longrightarrow>
    tx w' = tx w \<and> status t' \<in> {CQ_TX_DONE, CQ_TX_FAILED} \<and>
    (\<exists>got. rx w' = rx w @ got \<and> data t' = data t @ got) \<and>
    (status t' = CQ_TX_FAILED \<longrightarrow> data t' = [] \<and> error t' = CQ_TX_ERR_STREAM)"
proof (induction k arbitrary: t w)
  case (Suc k)
  obtain w1 a where c: "sys w (Recv s CQ_TX_READ_CHUNK) = (w1, a)" by (cases "sys w (Recv s CQ_TX_READ_CHUNK)")
  note ok = sys_okD [OF assms c]
  show ?case
  proof (cases "\<exists>bs. a = Bytes bs \<and> bs \<noteq> []")
    case True
    then obtain bs where bs: "a = Bytes bs" "bs \<noteq> []" by blast
    then have "read_loop k sys s (append_rx t bs) w1 = Some (w', t')" using Suc.prems c by simp
    from Suc.IH [OF this] ok bs show ?thesis by (auto simp: append_rx_def)
  next
    case False
    then have "w' = fst (sys w1 (Close s)) \<and> (t' = t\<lparr>status := CQ_TX_DONE\<rparr> \<or>
        data t = [] \<and> t' = fail_tx t CQ_TX_ERR_STREAM ''Read failed from'')"
      using Suc.prems c by (cases a) (auto split: if_splits)
    moreover have "rx_gain (Recv s CQ_TX_READ_CHUNK) a = []" using False by (cases a) auto
    ultimately show ?thesis using ok quiet_close [OF assms] by (auto simp: fail_tx_def)
  qed
qed simp

text \<open>Fuel: one more than the number of reads that deliver bytes is enough.\<close>

fun reads_left :: "('w \<Rightarrow> px_call \<Rightarrow> 'w \<times> px_answer) \<Rightarrow> nat \<Rightarrow> nat \<Rightarrow> 'w \<Rightarrow> bool" where
  "reads_left sys s 0 w = (case snd (sys w (Recv s CQ_TX_READ_CHUNK)) of Bytes bs \<Rightarrow> bs = [] | _ \<Rightarrow> True)"
| "reads_left sys s (Suc n) w =
     (case sys w (Recv s CQ_TX_READ_CHUNK) of
        (w', Bytes bs) \<Rightarrow> bs = [] \<or> reads_left sys s n w'
      | (w', _) \<Rightarrow> True)"

lemma read_loop_returns: "reads_left sys s n w \<Longrightarrow> n < k \<Longrightarrow> read_loop k sys s t w \<noteq> None"
proof (induction n arbitrary: k t w)
  case 0
  then show ?case by (cases k) (auto split: prod.splits px_answer.splits)
next
  case (Suc n)
  then obtain k' where k: "k = Suc k'" "n < k'" by (cases k) auto
  obtain w1 a where c: "sys w (Recv s CQ_TX_READ_CHUNK) = (w1, a)" by (cases "sys w (Recv s CQ_TX_READ_CHUNK)")
  then show ?case using Suc.prems(1) Suc.IH [of w1 k'] k(2) by (cases a) (auto simp: k(1))
qed

lemma stream_loop_spec:
  assumes "sys_ok sys rx tx" "stream_loop sys s t w = (w', t')"
    "length (data t) < CQ_TX_STREAM_HIWAT + CQ_TX_READ_CHUNK"
  shows "length (data t') < CQ_TX_STREAM_HIWAT + CQ_TX_READ_CHUNK \<and> tx w' = tx w \<and>
    (\<exists>got. rx w' = rx w @ got \<and> data t' = data t @ got) \<and>
    (status t' = status t \<and> fd t' = fd t \<or> status t' \<in> {CQ_TX_DONE, CQ_TX_FAILED} \<and> fd t' = None)"
  using assms(2,3)
proof (induction "CQ_TX_STREAM_HIWAT - length (data t)" arbitrary: t w rule: less_induct)
  case less
  show ?case
  proof (cases "CQ_TX_STREAM_HIWAT \<le> length (data t)")
    case True
    then have "(w', t') = (w, t)" using less.prems(1) by (simp add: stream_loop.simps [of sys s t w])
    then show ?thesis using less.prems(2) by simp
  next
    case room: False
    obtain w1 a where c: "sys w (Recv s CQ_TX_READ_CHUNK) = (w1, a)" by (cases "sys w (Recv s CQ_TX_READ_CHUNK)")
    note ok = sys_okD [OF assms(1) c]
    show ?thesis
    proof (cases "\<exists>bs. a = Bytes bs \<and> bs \<noteq> []")
      case True
      then obtain bs where bs: "a = Bytes bs" "bs \<noteq> []" by blast
      let ?t = "append_rx t bs"
      have r: "stream_loop sys s ?t w1 = (w', t')"
        using less.prems(1) room c bs by (simp add: stream_loop.simps [of sys s t w])
      have l: "length (data ?t) = length (data t) + length bs" "0 < length bs" "length bs \<le> CQ_TX_READ_CHUNK"
        using bs ok(3) by (simp_all add: append_rx_def)
      then have "CQ_TX_STREAM_HIWAT - length (data ?t) < CQ_TX_STREAM_HIWAT - length (data t)"
        "length (data ?t) < CQ_TX_STREAM_HIWAT + CQ_TX_READ_CHUNK" using room by linarith+
      from less.hyps [OF this(1) r this(2)]
      have ih: "length (data t') < CQ_TX_STREAM_HIWAT + CQ_TX_READ_CHUNK" "tx w' = tx w1"
        "\<exists>got. rx w' = rx w1 @ got \<and> data t' = data ?t @ got"
        "status t' = status ?t \<and> fd t' = fd ?t \<or> status t' \<in> {CQ_TX_DONE, CQ_TX_FAILED} \<and> fd t' = None"
        by blast+
      then show ?thesis using ih ok bs by (auto simp: append_rx_def)
    next
      case False
      then have g: "rx_gain (Recv s CQ_TX_READ_CHUNK) a = []" by (cases a) auto
      have "(w' = w1 \<and> t' = t) \<or> w' = fst (sys w1 (Close s)) \<and>
          (t' = t\<lparr>fd := None, status := CQ_TX_DONE\<rparr> \<or>
           t' = fail_tx (t\<lparr>fd := None\<rparr>) CQ_TX_ERR_STREAM ''Read failed from'')"
        using less.prems(1) room c False by (cases a) (auto simp: stream_loop.simps [of sys s t w])
      then show ?thesis using ok g less.prems(2) quiet_close [OF assms(1)] by (auto simp: fail_tx_def)
    qed
  qed
qed

lemma run_once:
  assumes "sys_ok sys rx tx" "status t = CQ_TX_RUNNING" "started t" "\<not> streaming t" "\<not> cancelled t" "data t = []"
  shows "(\<forall>w' t'. cq_tx_poll k sys t w = Some (w', t') \<longrightarrow>
      (status t' = CQ_TX_DONE \<and> tx w' = tx w @ request (selector t) \<and> rx w' = rx w @ data t' \<or>
       status t' = CQ_TX_FAILED \<and> data t' = []) \<and>
      cq_tx_poll k sys t' w' = Some (w', t')) \<and>
    ((\<forall>s v. reads_left sys s n v) \<and> n < k \<longrightarrow> cq_tx_poll k sys t w \<noteq> None)"
proof -
  let ?t = "t\<lparr>started := False\<rparr>"
  have p: "cq_tx_poll k sys t w = run_tx k sys ?t w" using assms by (simp add: cq_tx_poll_def)
  obtain w1 t1 res where c: "connect_and_send sys ?t w = (w1, t1, res)"
    by (cases "connect_and_send sys ?t w") auto
  note cs = connect_and_send_spec [OF assms(1) c]
  have flags: "streaming t' = streaming t1 \<Longrightarrow> cancelled t' = cancelled t1 \<Longrightarrow> status t' \<noteq> CQ_TX_RUNNING \<Longrightarrow>
      cq_tx_poll k sys t' w' = Some (w', t')" for t' w'
    using assms cs(3,4) by (simp add: cq_tx_poll_def)
  show ?thesis
  proof (cases res)
    case None
    then have "cq_tx_poll k sys t w = Some (w1, t1)" by (simp add: p run_tx_def c)
    then show ?thesis using cs(2,6) None assms(6) flags [of t1] by auto
  next
    case (Some s)
    then have q: "cq_tx_poll k sys t w = read_loop k sys s t1 w1" by (simp add: p run_tx_def c)
    have t1: "t1 = ?t" "tx w1 = tx w @ request (selector t)" "rx w1 = rx w"
      using cs(1,7) Some by simp_all
    have keep: "streaming t' = streaming t1 \<and> cancelled t' = cancelled t1"
      if "read_loop k sys s t1 w1 = Some (w', t')" for w' t'
    proof -
      have "read_loop k sys s u v = Some (w', t') \<Longrightarrow> streaming t' = streaming u \<and> cancelled t' = cancelled u" for u v
        by (induction k arbitrary: u v)
          (auto split: prod.splits px_answer.splits if_splits simp: append_rx_def fail_tx_def)
      then show ?thesis using that .
    qed
    have fin: "(status t' = CQ_TX_DONE \<and> tx w' = tx w @ request (selector t) \<and> rx w' = rx w @ data t' \<or>
         status t' = CQ_TX_FAILED \<and> data t' = []) \<and> cq_tx_poll k sys t' w' = Some (w', t')"
      if r: "read_loop k sys s t1 w1 = Some (w', t')" for w' t'
      using read_loop_spec [OF assms(1) r] flags [of t' w'] keep [OF r] t1 assms(6) by auto
    show ?thesis using fin read_loop_returns [of sys s n w1 k t1] unfolding q by blast
  qed
qed

subsection \<open>Properties\<close>


text \<open>A system that resolves, connects, accepts every write, and answers one read with a line.\<close>

definition demo_sys :: "bytes \<times> bytes \<times> bytes \<Rightarrow> px_call \<Rightarrow> (bytes \<times> bytes \<times> bytes) \<times> px_answer" where
  "demo_sys w c = (case w of (todo, got, sent) \<Rightarrow> case c of
       Resolve h p \<Rightarrow> (w, Ok 1)
     | Send s buf \<Rightarrow> ((todo, got, sent @ buf), Ok (length buf))
     | Recv s n \<Rightarrow> ((drop n todo, got @ take n todo, sent), Bytes (take n todo))
     | _ \<Rightarrow> (w, Ok 0))"

lemma demo_sys_ok: "sys_ok demo_sys (\<lambda>w. fst (snd w)) (\<lambda>w. snd (snd w))"
  unfolding sys_ok_def
proof (intro allI impI)
  fix w c w' a
  assume "demo_sys w c = (w', a)"
  then show "fst (snd w') = fst (snd w) @ rx_gain c a \<and> snd (snd w') = snd (snd w) @ tx_gain c a \<and> answer_ok c a"
    by (cases c) (auto simp: demo_sys_def split: prod.splits)
qed


text \<open>The streaming variant is bounded and loses nothing: a poll slice always returns with less than
the high-water mark plus one chunk buffered, what it adds to the buffer is exactly what the
connection delivered, and it leaves RUNNING only with the socket closed.\<close>

lemma posix_stream_bounded:
  assumes "sys_ok sys rx tx" "pump_stream sys t w = (w', t')" "status t = CQ_TX_RUNNING"
    "length (data t) < CQ_TX_STREAM_HIWAT + CQ_TX_READ_CHUNK"
  shows "length (data t') < CQ_TX_STREAM_HIWAT + CQ_TX_READ_CHUNK \<and>
    (\<exists>got. rx w' = rx w @ got \<and> data t' = data t @ got) \<and>
    (status t' \<noteq> CQ_TX_RUNNING \<longrightarrow> fd t' = None)"
proof (cases "fd t")
  case (Some s)
  then have "stream_loop sys s t w = (w', t')" using assms(2) by (simp add: pump_stream_def)
  from stream_loop_spec [OF assms(1) this assms(4)] assms(3) show ?thesis by auto
next
  case None
  obtain w1 t1 res where c: "connect_and_send sys t w = (w1, t1, res)" by (cases "connect_and_send sys t w") auto
  note cs = connect_and_send_spec [OF assms(1) c]
  show ?thesis
  proof (cases res)
    case N: None
    then have "w' = w1 \<and> t' = t1" using assms(2) None by (simp add: pump_stream_def c)
    then show ?thesis using cs(1,2,5) None assms(4) by auto
  next
    case (Some s)
    have t1: "t1 = t" "rx w1 = rx w" using cs(1,7) Some by simp_all
    then have r: "stream_loop sys s (t\<lparr>fd := Some s\<rparr>) w1 = (w', t')"
      using assms(2) None Some by (simp add: pump_stream_def c)
    have "length (data (t\<lparr>fd := Some s\<rparr>)) < CQ_TX_STREAM_HIWAT + CQ_TX_READ_CHUNK" using assms(4) by simp
    from stream_loop_spec [OF assms(1) r this] assms(3) t1(2) show ?thesis by auto
  qed
qed

text \<open>The audio path's drain loses nothing: over any interleaving of arrivals and drains, the
drained bytes followed by the buffered ones are the bytes that arrived, in order.\<close>

lemma posix_drain_fifo:
  "fst (px_session t es) @ data (snd (px_session t es)) = data t @ arrivals es"
  unfolding px_session_eq by (rule px.session_fifo)

end
