(* ===== verification/TransportOt.thy ===== *)
theory TransportOt
  imports Transport
begin

text \<open>
  The Open Transport implementation (\<open>cq_transport_ot.c\<close>): a transaction advanced in slices by
  \<open>cq_tx_poll\<close>, with every deadline a difference of tick counts. Open Transport itself is a
  parameter \<open>ot\<close> that answers a provider call on a world \<open>'w\<close>, and \<open>ticks\<close> reads the
  tick count of a world. A valid endpoint is the flag \<open>ep\<close>; the globals of the file are the
  machine. The built-in probe log is not part of the model; asynchronous connect is on, as the file
  configures it. Loops whose length the network decides carry fuel; allocation is taken to succeed.
\<close>

abbreviation DEADLINE_TICKS :: u32 where "DEADLINE_TICKS \<equiv> 120"
abbreviation WATCHDOG_TICKS :: u32 where "WATCHDOG_TICKS \<equiv> 300"

datatype ot_state = ST_INIT | ST_CONNECTING | ST_SENDING | ST_RECEIVING | ST_DONE | ST_FAILED

datatype ot_event = T_CONNECT | T_DISCONNECT | T_ORDREL | T_UDERR | T_OTHER

datatype ot_call = InitOpenTransport | NewOTNotifyUPP | OTOpenEndpoint | OTOpenUdpEndpoint | OTSetSynchronous |
  OTSetAsynchronous | OTSetNonBlocking | OTUseSyncIdleEvents | OTBind | OTOpenInternetServices |
  OTInetStringToAddress cstr | OTCloseServices | OTInstallNotifier | OTRemoveNotifier | OTConnect u32 int |
  OTLook | OTRcvConnect | OTRcvDisconnect | OTSnd bytes | OTRcv nat | OTRcvOrderlyDisconnect |
  OTSndOrderlyDisconnect | OTUnbind | OTCloseProvider | OTSndUData bytes u32 int | OTRcvUDErr

text \<open>
  What a call answers: \<open>kOTNoError\<close>, a byte count, received bytes, one of the negative codes the
  source tests for, any other error, an event or an address.
\<close>

datatype ot_result = NoError | Count nat | Received bytes | NoDataErr | FlowErr | LookErr | OtherErr int |
  Event ot_event | Address u32

record ot_tx =
  host :: cstr
  port :: int
  selector :: cstr
  status :: cq_tx_status
  error :: cq_tx_error
  message :: cstr
  data :: bytes
  cap :: nat
  ep :: bool
  st :: ot_state
  req :: "bytes option"
  reqoff :: nat
  start_tick :: u32
  connect_tick :: u32
  cancelled :: bool
  streaming :: bool
  async :: bool
  conn_event :: "ot_event option"

record 'w ot_mach =
  world :: 'w
  g_ot_up :: bool
  g_conn_upp :: bool
  g_udp_ep :: bool
  g_udp_state :: int
  g_udp_to :: "u32 \<times> int"
  g_udp_host :: cstr
  g_udp_ok :: int
  g_udp_fail :: int
  g_udp_lasterr :: int

type_synonym 'w ot_sys = "'w \<Rightarrow> ot_call \<Rightarrow> 'w \<times> ot_result"

definition trap :: "'w ot_sys \<Rightarrow> 'w ot_mach \<Rightarrow> ot_call \<Rightarrow> 'w ot_mach \<times> ot_result" where
  "trap ot m c = (case ot (world m) c of (w, r) \<Rightarrow> (m\<lparr>world := w\<rparr>, r))"

text \<open>A call whose answer the source ignores.\<close>

definition call :: "'w ot_sys \<Rightarrow> 'w ot_mach \<Rightarrow> ot_call \<Rightarrow> 'w ot_mach" where
  "call ot m c = fst (trap ot m c)"

definition ot_teardown :: "'w ot_sys \<Rightarrow> 'w ot_mach \<Rightarrow> 'w ot_mach" where
  "ot_teardown ot m = call ot (call ot (call ot m OTRemoveNotifier) OTUnbind) OTCloseProvider"

text \<open>The notifier, which runs at interrupt time between two polls.\<close>

definition conn_notifier :: "ot_event \<Rightarrow> ot_tx \<Rightarrow> ot_tx" where
  "conn_notifier code t =
     (if code = T_CONNECT \<or> code = T_DISCONNECT then t\<lparr>conn_event := Some code\<rparr> else t)"

definition ot_ensure_up :: "'w ot_sys \<Rightarrow> 'w ot_mach \<Rightarrow> 'w ot_mach \<times> bool" where
  "ot_ensure_up ot m =
     (if \<not> g_ot_up m then
        (case trap ot m InitOpenTransport of (m, r) \<Rightarrow>
           if r \<noteq> NoError then (m, False)
           else
             (case (if \<not> g_conn_upp m
                    then (case trap ot m NewOTNotifyUPP of (m, r) \<Rightarrow> m\<lparr>g_conn_upp := (r = NoError)\<rparr>) else m)
              of m \<Rightarrow> (m\<lparr>g_ot_up := True\<rparr>, True)))
      else (m, True))"

definition cq_tx_new :: "cstr \<Rightarrow> int \<Rightarrow> cstr option \<Rightarrow> ot_tx" where
  "cq_tx_new h p sel =
     \<lparr>host = h, port = p, selector = (case sel of Some s \<Rightarrow> s | None \<Rightarrow> []),
      status = CQ_TX_RUNNING, error = CQ_TX_ERR_NONE, message = [], data = [], cap = 0, ep = False,
      st = ST_INIT, req = None, reqoff = 0, start_tick = 0, connect_tick = 0, cancelled = False,
      streaming = False, async = False, conn_event = None\<rparr>"

definition fail_tx :: "ot_tx \<Rightarrow> cq_tx_error \<Rightarrow> cstr \<Rightarrow> ot_tx" where
  "fail_tx t e what = t\<lparr>status := CQ_TX_FAILED, st := ST_FAILED, error := e,
     message := fits 256 (what @ '' '' @ host t @ '':'' @ int_str (port t) @ ''.''), ep := False\<rparr>"

definition fail :: "'w ot_sys \<Rightarrow> 'w ot_mach \<Rightarrow> ot_tx \<Rightarrow> cq_tx_error \<Rightarrow> cstr \<Rightarrow> 'w ot_mach \<times> ot_tx" where
  "fail ot m t e what =
     (if ep t then ot_teardown ot (call ot m OTSndOrderlyDisconnect) else m, fail_tx t e what)"

definition append_rx :: "ot_tx \<Rightarrow> bytes \<Rightarrow> ot_tx" where
  "append_rx t bs = t\<lparr>cap := new_cap (length (data t)) (length bs) (cap t), data := data t @ bs\<rparr>"

text \<open>
  One number of a dotted quad: the digits at the front, accumulated in an \<open>unsigned long\<close>, and
  what follows them.
\<close>

definition quad_part :: "cstr \<Rightarrow> (u32 \<times> cstr) option" where
  "quad_part p =
     (let ds = takeWhile is_digit p; v = foldl (\<lambda>v c. v * 10 + of_int (u8 c - 48)) (0 :: u32) ds
      in if ds = [] \<or> v > 255 then None else Some (v, dropWhile is_digit p))"

fun quad_dot :: "cstr \<Rightarrow> cstr option" where
  "quad_dot (c # p) = (if c = CHR ''.'' then Some p else None)"
| "quad_dot [] = None"

definition parse_dotted_quad :: "cstr \<Rightarrow> u32 option" where
  "parse_dotted_quad s =
     (case quad_part s of None \<Rightarrow> None | Some (a, p) \<Rightarrow>
      case quad_dot p of None \<Rightarrow> None | Some p \<Rightarrow>
      case quad_part p of None \<Rightarrow> None | Some (b, p) \<Rightarrow>
      case quad_dot p of None \<Rightarrow> None | Some p \<Rightarrow>
      case quad_part p of None \<Rightarrow> None | Some (c, p) \<Rightarrow>
      case quad_dot p of None \<Rightarrow> None | Some p \<Rightarrow>
      case quad_part p of None \<Rightarrow> None | Some (d, p) \<Rightarrow>
      if p \<noteq> [] then None
      else Some (push_bit 24 a OR push_bit 16 b OR push_bit 8 c OR d))"

definition resolve_host :: "'w ot_sys \<Rightarrow> 'w ot_mach \<Rightarrow> cstr \<Rightarrow> 'w ot_mach \<times> u32 option" where
  "resolve_host ot m h =
     (case parse_dotted_quad h of
        Some ip \<Rightarrow> (m, Some ip)
      | None \<Rightarrow>
          (case trap ot m OTOpenInternetServices of (m, r) \<Rightarrow>
             if r \<noteq> NoError then (m, None)
             else (case trap ot m (OTInetStringToAddress h) of (m, r) \<Rightarrow>
               (call ot m OTCloseServices,
                case r of Address a \<Rightarrow> if a = 0 then None else Some a | _ \<Rightarrow> None))))"

definition arm_async :: "'w ot_sys \<Rightarrow> 'w ot_mach \<Rightarrow> ot_tx \<Rightarrow> 'w ot_mach \<times> ot_tx" where
  "arm_async ot m t =
     (let t = t\<lparr>conn_event := None\<rparr> in
      if g_conn_upp m then
        (case trap ot m OTInstallNotifier of (m, r) \<Rightarrow>
           if r = NoError then (call ot m OTSetAsynchronous, t\<lparr>async := True\<rparr>) else (m, t))
      else (m, t))"

definition issue_connect :: "'w ot_sys \<Rightarrow> 'w ot_mach \<Rightarrow> ot_tx \<Rightarrow> u32 \<Rightarrow> 'w ot_mach \<times> ot_tx" where
  "issue_connect ot m t ip =
     (case arm_async ot m t of (m, t) \<Rightarrow>
      case trap ot m (OTConnect ip (port t)) of (m, r) \<Rightarrow>
        if async t then
          if r = NoError \<or> r = NoDataErr then (m, t\<lparr>st := ST_CONNECTING\<rparr>)
          else fail ot m t CQ_TX_ERR_CONNECT ''Could not connect to''
        else if r = NoError then (m, t\<lparr>st := ST_SENDING\<rparr>)
        else if r = NoDataErr then (m, t\<lparr>st := ST_CONNECTING\<rparr>)
        else fail ot m t CQ_TX_ERR_CONNECT ''Could not connect to'')"

definition open_and_connect :: "'w ot_sys \<Rightarrow> 'w ot_mach \<Rightarrow> ot_tx \<Rightarrow> 'w ot_mach \<times> ot_tx" where
  "open_and_connect ot m t =
     (case ot_ensure_up ot m of (m, up) \<Rightarrow>
      if \<not> up then fail ot m t CQ_TX_ERR_CONNECT ''Open Transport unavailable for''
      else case trap ot m OTOpenEndpoint of (m, r) \<Rightarrow>
      if r \<noteq> NoError
      then fail ot m (t\<lparr>ep := False\<rparr>) CQ_TX_ERR_CONNECT ''Could not open a TCP endpoint to''
      else
        (let t = t\<lparr>ep := True\<rparr>;
             m = call ot (call ot (call ot m OTSetSynchronous) OTSetNonBlocking) OTUseSyncIdleEvents
         in case trap ot m OTBind of (m, r) \<Rightarrow>
            if r \<noteq> NoError then fail ot m t CQ_TX_ERR_CONNECT ''Could not bind a socket to''
            else case resolve_host ot m (host t) of
                (m, None) \<Rightarrow> fail ot m t CQ_TX_ERR_CONNECT ''Could not resolve''
              | (m, Some ip) \<Rightarrow> issue_connect ot m t ip))"

definition pump_connect :: "'w ot_sys \<Rightarrow> 'w ot_mach \<Rightarrow> ot_tx \<Rightarrow> 'w ot_mach \<times> ot_tx" where
  "pump_connect ot m t =
     (case trap ot m OTLook of (m, look) \<Rightarrow>
      case (if look \<noteq> Event T_CONNECT \<and> look \<noteq> Event T_DISCONNECT
            then (case conn_event t of Some e \<Rightarrow> Event e | None \<Rightarrow> look) else look) of look \<Rightarrow>
      if look = Event T_CONNECT then
        (case trap ot m OTRcvConnect of (m, r) \<Rightarrow>
           if r = NoError then
             (if async t then (call ot m OTSetSynchronous, t\<lparr>async := False, st := ST_SENDING\<rparr>)
              else (m, t\<lparr>st := ST_SENDING\<rparr>))
           else fail ot m t CQ_TX_ERR_CONNECT ''Could not connect to'')
      else if look = Event T_DISCONNECT
      then fail ot (call ot m OTRcvDisconnect) t CQ_TX_ERR_CONNECT ''Connection refused by''
      else (m, t))"

fun send_loop :: "nat \<Rightarrow> 'w ot_sys \<Rightarrow> 'w ot_mach \<Rightarrow> ot_tx \<Rightarrow> bytes \<Rightarrow> ('w ot_mach \<times> ot_tx) option" where
  "send_loop 0 ot m t rq = None"
| "send_loop (Suc k) ot m t rq =
     (if reqoff t < length rq then
        (case trap ot m (OTSnd (drop (reqoff t) rq)) of
           (m, Count n) \<Rightarrow> send_loop k ot m (t\<lparr>reqoff := reqoff t + n\<rparr>) rq
         | (m, NoError) \<Rightarrow> send_loop k ot m t rq
         | (m, FlowErr) \<Rightarrow> Some (m, t)
         | (m, _) \<Rightarrow> Some (fail ot m t CQ_TX_ERR_STREAM ''Write failed to''))
      else Some (m, t\<lparr>st := ST_RECEIVING\<rparr>))"

definition pump_send :: "nat \<Rightarrow> 'w ot_sys \<Rightarrow> 'w ot_mach \<Rightarrow> ot_tx \<Rightarrow> ('w ot_mach \<times> ot_tx) option" where
  "pump_send k ot m t =
     (case req t of
        None \<Rightarrow> send_loop k ot m (t\<lparr>req := Some (request (selector t)), reqoff := 0\<rparr>) (request (selector t))
      | Some rq \<Rightarrow> send_loop k ot m t rq)"

text \<open>The end of a connection that delivered bytes, with and without our half of the release.\<close>

definition finish :: "'w ot_sys \<Rightarrow> 'w ot_mach \<Rightarrow> ot_tx \<Rightarrow> 'w ot_mach \<times> ot_tx" where
  "finish ot m t = (ot_teardown ot m, t\<lparr>ep := False, status := CQ_TX_DONE, st := ST_DONE\<rparr>)"

fun recv_loop :: "nat \<Rightarrow> 'w ot_sys \<Rightarrow> 'w ot_mach \<Rightarrow> ot_tx \<Rightarrow> ('w ot_mach \<times> ot_tx) option" where
  "recv_loop 0 ot m t = None"
| "recv_loop (Suc k) ot m t =
     (if streaming t \<and> length (data t) \<ge> CQ_TX_STREAM_HIWAT then Some (m, t)
      else case trap ot m (OTRcv CQ_TX_READ_CHUNK) of (m, r) \<Rightarrow>
        (case r of
           Received (b # bs) \<Rightarrow> recv_loop k ot m (append_rx t (b # bs))
         | NoDataErr \<Rightarrow> Some (m, t)
         | LookErr \<Rightarrow>
             (case trap ot m OTLook of (m, look) \<Rightarrow>
                if look = Event T_ORDREL
                then Some (finish ot (call ot (call ot m OTRcvOrderlyDisconnect) OTSndOrderlyDisconnect) t)
                else if look = Event T_DISCONNECT then
                  (let m = call ot m OTRcvDisconnect in
                   if data t \<noteq> [] then Some (finish ot m t)
                   else Some (fail ot m t CQ_TX_ERR_STREAM ''Read failed from''))
                else Some (m, t))
         | _ \<Rightarrow>
             if data t \<noteq> [] then Some (finish ot (call ot m OTSndOrderlyDisconnect) t)
             else Some (fail ot m t CQ_TX_ERR_STREAM ''Read failed from'')))"

definition cq_tx_start :: "u32 \<Rightarrow> ot_tx \<Rightarrow> ot_tx" where
  "cq_tx_start now t = t\<lparr>start_tick := now, connect_tick := now\<rparr>"

definition pump_state :: "nat \<Rightarrow> 'w ot_sys \<Rightarrow> 'w ot_mach \<Rightarrow> ot_tx \<Rightarrow> ('w ot_mach \<times> ot_tx) option" where
  "pump_state k ot m t =
     (case st t of
        ST_INIT \<Rightarrow> Some (open_and_connect ot m t)
      | ST_CONNECTING \<Rightarrow> Some (pump_connect ot m t)
      | ST_SENDING \<Rightarrow> pump_send k ot m t
      | ST_RECEIVING \<Rightarrow> recv_loop k ot m t
      | _ \<Rightarrow> Some (m, t))"

definition check_deadlines :: "'w ot_sys \<Rightarrow> u32 \<Rightarrow> 'w ot_mach \<Rightarrow> ot_tx \<Rightarrow> 'w ot_mach \<times> ot_tx" where
  "check_deadlines ot now m t =
     (if status t = CQ_TX_RUNNING then
        if st t = ST_CONNECTING \<and> now - connect_tick t > DEADLINE_TICKS
        then fail ot m t CQ_TX_ERR_TIMEOUT ''Timed out connecting to''
        else if \<not> (streaming t \<and> st t = ST_RECEIVING) \<and> now - start_tick t > WATCHDOG_TICKS
        then fail ot m t CQ_TX_ERR_TIMEOUT ''Timed out talking to''
        else (m, t)
      else (m, t))"

definition cq_tx_poll ::
  "nat \<Rightarrow> 'w ot_sys \<Rightarrow> ('w \<Rightarrow> u32) \<Rightarrow> 'w ot_mach \<Rightarrow> ot_tx \<Rightarrow> ('w ot_mach \<times> ot_tx) option" where
  "cq_tx_poll k ot ticks m t =
     (if cancelled t \<or> status t \<noteq> CQ_TX_RUNNING then Some (m, t)
      else
        (let now = ticks (world m) in
         case pump_state k ot m t of
           None \<Rightarrow> None
         | Some (m, t) \<Rightarrow> Some (check_deadlines ot now m t)))"

definition cq_tx_stream_new :: "cstr \<Rightarrow> int \<Rightarrow> cstr option \<Rightarrow> ot_tx" where
  "cq_tx_stream_new h p sel = (cq_tx_new h p sel)\<lparr>streaming := True\<rparr>"

definition cq_tx_drain :: "ot_tx \<Rightarrow> nat \<Rightarrow> bytes \<times> ot_tx" where
  "cq_tx_drain t n =
     (if n = 0 \<or> length (data t) = 0 then ([], t)
      else let k = (if length (data t) < n then length (data t) else n)
           in (take k (data t), t\<lparr>data := drop k (data t)\<rparr>))"

definition cq_tx_cancel :: "'w ot_sys \<Rightarrow> 'w ot_mach \<Rightarrow> ot_tx \<Rightarrow> 'w ot_mach \<times> ot_tx" where
  "cq_tx_cancel ot m t =
     (let t = t\<lparr>cancelled := True\<rparr> in
      if ep t then (ot_teardown ot (call ot m OTSndOrderlyDisconnect), t\<lparr>ep := False\<rparr>) else (m, t))"

text \<open>Releasing a transaction closes an endpoint that is still open.\<close>

definition cq_tx_free :: "'w ot_sys \<Rightarrow> 'w ot_mach \<Rightarrow> ot_tx \<Rightarrow> 'w ot_mach" where
  "cq_tx_free ot m t = (if ep t then ot_teardown ot m else m)"

interpretation otb: rx_buffer append_rx cq_tx_drain data
  by unfold_locales (auto simp: append_rx_def cq_tx_drain_def Let_def)

subsection \<open>The log mirror\<close>

text \<open>
  One datagram through a lazily opened endpoint; the endpoint, the resolved address and the health
  counters are globals of the file.
\<close>

definition udp_endpoint :: "'w ot_sys \<Rightarrow> 'w ot_mach \<Rightarrow> 'w ot_mach \<times> bool" where
  "udp_endpoint ot m =
     (if g_udp_ep m then (m, True)
      else case trap ot m OTOpenUdpEndpoint of (m, r) \<Rightarrow>
        if r \<noteq> NoError then (m\<lparr>g_udp_state := -1\<rparr>, False)
        else (case trap ot (call ot (call ot m OTSetSynchronous) OTSetNonBlocking) OTBind of (m, r) \<Rightarrow>
          if r \<noteq> NoError then ((call ot m OTCloseProvider)\<lparr>g_udp_state := -1\<rparr>, False)
          else (m\<lparr>g_udp_ep := True\<rparr>, True)))"

definition udp_setup :: "'w ot_sys \<Rightarrow> 'w ot_mach \<Rightarrow> cstr \<Rightarrow> int \<Rightarrow> 'w ot_mach \<times> bool" where
  "udp_setup ot m h p =
     (case udp_endpoint ot m of (m, ok) \<Rightarrow>
      if \<not> ok then (m, False)
      else case resolve_host ot m h of
          (m, None) \<Rightarrow> (m\<lparr>g_udp_state := -1\<rparr>, False)
        | (m, Some ip) \<Rightarrow> (m\<lparr>g_udp_to := (ip, p), g_udp_host := fits 64 h, g_udp_state := 1\<rparr>, True))"

definition result_code :: "ot_result \<Rightarrow> int" where
  "result_code r = (case r of OtherErr e \<Rightarrow> e | _ \<Rightarrow> -1)"

definition udp_send :: "'w ot_sys \<Rightarrow> 'w ot_mach \<Rightarrow> bytes \<Rightarrow> 'w ot_mach" where
  "udp_send ot m bs =
     (case trap ot m (OTSndUData bs (fst (g_udp_to m)) (snd (g_udp_to m))) of (m, r) \<Rightarrow>
      case (if r = LookErr then
              (case trap ot m OTLook of (m, look) \<Rightarrow>
               case (if look = Event T_UDERR then call ot m OTRcvUDErr else m) of m \<Rightarrow>
                 trap ot m (OTSndUData bs (fst (g_udp_to m)) (snd (g_udp_to m))))
            else (m, r)) of (m, r) \<Rightarrow>
        if r = NoError then m\<lparr>g_udp_ok := wrap32 (g_udp_ok m + 1)\<rparr>
        else m\<lparr>g_udp_fail := wrap32 (g_udp_fail m + 1), g_udp_lasterr := result_code r\<rparr>)"

definition cq_tx_udp :: "'w ot_sys \<Rightarrow> 'w ot_mach \<Rightarrow> cstr \<Rightarrow> int \<Rightarrow> bytes \<Rightarrow> 'w ot_mach" where
  "cq_tx_udp ot m h p bs =
     (if bs = [] \<or> g_udp_state m < 0 then m
      else if \<not> g_ot_up m then m
      else case (if g_udp_state m = 0 \<or> g_udp_host m \<noteq> h then udp_setup ot m h p else (m, True)) of (m, ok) \<Rightarrow>
        if \<not> ok then m else udp_send ot m bs)"

definition cq_tx_udp_stats :: "'w ot_mach \<Rightarrow> int \<times> int \<times> int" where
  "cq_tx_udp_stats m = (g_udp_ok m, g_udp_fail m, g_udp_lasterr m)"

subsection \<open>The life of a transaction\<close>

text \<open>
  The machine state and the reported status agree; the endpoint is open exactly while connecting,
  sending or receiving; the request in flight is the selector's line, and receiving starts only
  after all of it has been accepted.
\<close>

definition tx_ok :: "ot_tx \<Rightarrow> bool" where
  "tx_ok t \<longleftrightarrow>
     (status t = CQ_TX_DONE \<longleftrightarrow> st t = ST_DONE) \<and> (status t = CQ_TX_FAILED \<longleftrightarrow> st t = ST_FAILED) \<and>
     (error t \<noteq> CQ_TX_ERR_NONE \<longleftrightarrow> status t = CQ_TX_FAILED) \<and>
     (ep t \<longleftrightarrow> st t \<in> {ST_CONNECTING, ST_SENDING, ST_RECEIVING} \<and> \<not> cancelled t) \<and>
     (st t \<in> {ST_INIT, ST_CONNECTING} \<longrightarrow> req t = None \<and> data t = []) \<and>
     (st t = ST_SENDING \<longrightarrow> data t = []) \<and>
     (case req t of None \<Rightarrow> st t \<noteq> ST_RECEIVING | Some rq \<Rightarrow> rq = request (selector t) \<and> reqoff t \<le> length rq) \<and>
     (st t \<in> {ST_RECEIVING, ST_DONE} \<longrightarrow> req t \<noteq> None \<and> reqoff t = length (request (selector t)))"

lemma new_ok: "tx_ok (cq_tx_new h p sel)" "tx_ok (cq_tx_stream_new h p sel)"
  by (simp_all add: tx_ok_def cq_tx_new_def cq_tx_stream_new_def)

lemma start_ok: "tx_ok t \<Longrightarrow> tx_ok (cq_tx_start now t)"
  by (simp add: tx_ok_def cq_tx_start_def split: option.splits)

lemma notify_ok: "tx_ok t \<Longrightarrow> tx_ok (conn_notifier e t)"
  by (simp add: tx_ok_def conn_notifier_def split: option.splits)

lemma cancel_ok: "tx_ok t \<Longrightarrow> tx_ok (snd (cq_tx_cancel ot m t))"
  by (auto simp: tx_ok_def cq_tx_cancel_def Let_def split: option.splits)

lemma drain_ok: "tx_ok t \<Longrightarrow> tx_ok (snd (cq_tx_drain t n))"
  by (auto simp: tx_ok_def cq_tx_drain_def Let_def split: option.splits)

text \<open>What a failure leaves: the shape every error path ends in.\<close>

lemma snd_fail [simp]: "snd (fail ot m t e what) = fail_tx t e what"
  by (simp add: fail_def)

lemma fail_tx_fields [simp]:
  "status (fail_tx t e what) = CQ_TX_FAILED" "st (fail_tx t e what) = ST_FAILED" "error (fail_tx t e what) = e"
  "ep (fail_tx t e what) = False" "data (fail_tx t e what) = data t" "selector (fail_tx t e what) = selector t"
  "req (fail_tx t e what) = req t" "reqoff (fail_tx t e what) = reqoff t" "cancelled (fail_tx t e what) = cancelled t"
  "streaming (fail_tx t e what) = streaming t" "start_tick (fail_tx t e what) = start_tick t"
  "connect_tick (fail_tx t e what) = connect_tick t"
  by (simp_all add: fail_tx_def)

lemma fail_ok:
  assumes "tx_ok t" "st t \<noteq> ST_DONE" "e \<noteq> CQ_TX_ERR_NONE" shows "tx_ok (fail_tx t e what)"
  using assms by (simp add: tx_ok_def split: option.splits)

lemma finish_ok:
  assumes "tx_ok t" "st t = ST_RECEIVING" shows "tx_ok (snd (finish ot m t))"
  using assms by (simp add: tx_ok_def finish_def split: option.splits)

definition same_tx :: "ot_tx \<Rightarrow> ot_tx \<Rightarrow> bool" where
  "same_tx t t' \<longleftrightarrow> selector t' = selector t \<and> streaming t' = streaming t \<and> cancelled t' = cancelled t \<and>
     start_tick t' = start_tick t \<and> connect_tick t' = connect_tick t"

lemma same_fail [simp]: "same_tx t (fail_tx t' e what) = same_tx t t'"
  by (simp add: same_tx_def)

lemma same_refl [simp]: "same_tx t t"
  by (simp add: same_tx_def)

lemma arm_async_frame:
  assumes "arm_async ot m t = (m', t')"
  shows "\<exists>a. t' = t\<lparr>conn_event := None, async := a\<rparr>"
  using assms by (auto simp: arm_async_def Let_def split: if_splits prod.splits intro: exI [of _ "async t"])

lemma issue_connect_shape:
  assumes "issue_connect ot m t ip = (m', t')"
  shows "(\<exists>a s. s \<in> {ST_CONNECTING, ST_SENDING} \<and> t' = t\<lparr>conn_event := None, async := a, st := s\<rparr>) \<or>
    (\<exists>a. t' = fail_tx (t\<lparr>conn_event := None, async := a\<rparr>) CQ_TX_ERR_CONNECT ''Could not connect to'')"
proof -
  obtain m1 t1 where a: "arm_async ot m t = (m1, t1)" by (cases "arm_async ot m t")
  obtain m2 r where c: "trap ot m1 (OTConnect ip (port t1)) = (m2, r)" by (cases "trap ot m1 (OTConnect ip (port t1))")
  obtain b where t1: "t1 = t\<lparr>conn_event := None, async := b\<rparr>" using arm_async_frame [OF a] by blast
  have "t' = t1\<lparr>st := ST_CONNECTING\<rparr> \<or> t' = t1\<lparr>st := ST_SENDING\<rparr> \<or>
      t' = fail_tx t1 CQ_TX_ERR_CONNECT ''Could not connect to''"
    using assms unfolding issue_connect_def a c prod.case fail_def by (auto split: if_splits)
  then show ?thesis unfolding t1 by auto
qed

lemma open_and_connect_shape:
  assumes "open_and_connect ot m t = (m', t')"
  shows "(\<exists>a s. s \<in> {ST_CONNECTING, ST_SENDING} \<and> t' = t\<lparr>ep := True, conn_event := None, async := a, st := s\<rparr>) \<or>
    (\<exists>t1 what. t' = fail_tx t1 CQ_TX_ERR_CONNECT what \<and>
       (t1 = t \<or> (\<exists>e. t1 = t\<lparr>ep := e\<rparr>) \<or> (\<exists>a. t1 = t\<lparr>ep := True, conn_event := None, async := a\<rparr>)))"
proof -
  obtain m1 up where u: "ot_ensure_up ot m = (m1, up)" by (cases "ot_ensure_up ot m")
  obtain m2 r2 where o: "trap ot m1 OTOpenEndpoint = (m2, r2)" by (cases "trap ot m1 OTOpenEndpoint")
  define m3 where "m3 = call ot (call ot (call ot m2 OTSetSynchronous) OTSetNonBlocking) OTUseSyncIdleEvents"
  obtain m4 r4 where b: "trap ot m3 OTBind = (m4, r4)" by (cases "trap ot m3 OTBind")
  obtain m5 ip where h: "resolve_host ot m4 (host t) = (m5, ip)" by (cases "resolve_host ot m4 (host t)")
  note e = assms [unfolded open_and_connect_def u o prod.case Let_def, folded m3_def, unfolded b prod.case]
  show ?thesis
  proof (cases "up \<and> r2 = NoError \<and> r4 = NoError")
    case False
    then show ?thesis using e unfolding fail_def by (auto split: if_splits)
  next
    case True
    then have e': "(case ip of None \<Rightarrow> fail ot m5 (t\<lparr>ep := True\<rparr>) CQ_TX_ERR_CONNECT ''Could not resolve''
        | Some ip \<Rightarrow> issue_connect ot m5 (t\<lparr>ep := True\<rparr>) ip) = (m', t')"
      using e h by (simp add: b split: option.splits)
    show ?thesis
    proof (cases ip)
      case None
      then show ?thesis using e' unfolding fail_def by auto
    next
      case (Some i)
      then have "issue_connect ot m5 (t\<lparr>ep := True\<rparr>) i = (m', t')" using e' by simp
      from issue_connect_shape [OF this] show ?thesis by auto
    qed
  qed
qed

lemma open_ok:
  assumes "tx_ok t" "st t = ST_INIT" "\<not> cancelled t" "open_and_connect ot m t = (m', t')"
  shows "tx_ok t' \<and> same_tx t t' \<and> st t' \<in> {ST_CONNECTING, ST_SENDING, ST_FAILED} \<and> data t' = data t"
  using open_and_connect_shape [OF assms(4)] assms(1-3)
  by (elim disjE exE conjE) (auto simp: tx_ok_def same_tx_def split: option.splits)

lemma pump_connect_shape:
  assumes "pump_connect ot m t = (m', t')"
  shows "t' = t \<or> (\<exists>a. t' = t\<lparr>async := a, st := ST_SENDING\<rparr>) \<or> (\<exists>what. t' = fail_tx t CQ_TX_ERR_CONNECT what)"
proof -
  obtain m1 l1 where l: "trap ot m OTLook = (m1, l1)" by (cases "trap ot m OTLook")
  obtain m2 r where c: "trap ot m1 OTRcvConnect = (m2, r)" by (cases "trap ot m1 OTRcvConnect")
  have "t = t\<lparr>async := async t\<rparr>" by simp
  then have "t\<lparr>st := ST_SENDING\<rparr> = t\<lparr>async := async t, st := ST_SENDING\<rparr>" by simp
  then show ?thesis
    using assms unfolding pump_connect_def l c prod.case fail_def by (auto split: if_splits; metis)
qed

lemma connect_ok:
  assumes "tx_ok t" "st t = ST_CONNECTING" "\<not> cancelled t" "pump_connect ot m t = (m', t')"
  shows "tx_ok t' \<and> same_tx t t' \<and> st t' \<in> {ST_CONNECTING, ST_SENDING, ST_FAILED} \<and> data t' = data t"
  using pump_connect_shape [OF assms(4)] assms(1-3)
  by (elim disjE exE) (auto simp: tx_ok_def same_tx_def split: option.splits)

text \<open>The send loop: it advances the offset, never past the end when each write accepts a prefix.\<close>

definition sends_prefix :: "'w ot_sys \<Rightarrow> bool" where
  "sends_prefix ot \<longleftrightarrow> (\<forall>w bs n. snd (ot w (OTSnd bs)) = Count n \<longrightarrow> n \<le> length bs)"

lemma trap_snd: "snd (trap ot m c) = snd (ot (world m) c)"
  by (simp add: trap_def split: prod.split)

lemma send_loop_ok:
  assumes "sends_prefix ot"
  shows "send_loop k ot m t rq = Some (m', t') \<Longrightarrow> tx_ok t \<Longrightarrow> st t = ST_SENDING \<Longrightarrow> \<not> cancelled t \<Longrightarrow>
    req t = Some rq \<Longrightarrow>
    tx_ok t' \<and> same_tx t t' \<and> st t' \<in> {ST_SENDING, ST_RECEIVING, ST_FAILED} \<and> data t' = data t"
proof (induction k arbitrary: m t)
  case (Suc k)
  have rq: "rq = request (selector t)" "reqoff t \<le> length rq" using Suc.prems(2,5) by (auto simp: tx_ok_def)
  show ?case
  proof (cases "reqoff t < length rq")
    case False
    then have "t' = t\<lparr>st := ST_RECEIVING\<rparr>" using Suc.prems(1) by simp
    then show ?thesis using Suc.prems(2-5) rq False by (auto simp: tx_ok_def same_tx_def)
  next
    case True
    obtain m1 r where c: "trap ot m (OTSnd (drop (reqoff t) rq)) = (m1, r)"
      by (cases "trap ot m (OTSnd (drop (reqoff t) rq))")
    show ?thesis
    proof (cases r)
      case (Count n)
      have "n \<le> length rq - reqoff t"
        using assms Count trap_snd [of ot m "OTSnd (drop (reqoff t) rq)"] c
        unfolding sends_prefix_def by (metis length_drop snd_conv)
      then have "reqoff t + n \<le> length rq" using rq(2) by linarith
      then have "tx_ok (t\<lparr>reqoff := reqoff t + n\<rparr>)" using Suc.prems(2-5) rq by (simp add: tx_ok_def)
      moreover have "send_loop k ot m1 (t\<lparr>reqoff := reqoff t + n\<rparr>) rq = Some (m', t')"
        using Suc.prems(1) True c Count by simp
      ultimately show ?thesis using Suc.IH [of m1 "t\<lparr>reqoff := reqoff t + n\<rparr>"] Suc.prems(3-5)
        by (simp add: same_tx_def)
    next
      case NoError
      then have "send_loop k ot m1 t rq = Some (m', t')" using Suc.prems(1) True c by simp
      then show ?thesis using Suc.IH [of m1 t] Suc.prems(2-5) by simp
    next
      case FlowErr
      then have "t' = t" using Suc.prems(1) True c by simp
      then show ?thesis using Suc.prems(2,3) by simp
    qed (use Suc.prems True c fail_ok [OF Suc.prems(2)] in \<open>auto simp: fail_def\<close>)
  qed
qed simp

lemma send_ok:
  assumes "sends_prefix ot" "tx_ok t" "st t = ST_SENDING" "\<not> cancelled t" "pump_send k ot m t = Some (m', t')"
  shows "tx_ok t' \<and> same_tx t t' \<and> st t' \<in> {ST_SENDING, ST_RECEIVING, ST_FAILED} \<and> data t' = data t"
proof (cases "req t")
  case None
  let ?t = "t\<lparr>req := Some (request (selector t)), reqoff := 0\<rparr>"
  have "send_loop k ot m ?t (request (selector t)) = Some (m', t')" using assms(5) None by (simp add: pump_send_def)
  moreover have "tx_ok ?t" using assms(2,3) None by (simp add: tx_ok_def)
  ultimately show ?thesis using send_loop_ok [OF assms(1), of k m ?t] assms(3,4) by (simp add: same_tx_def)
next
  case (Some rq)
  then show ?thesis using send_loop_ok [OF assms(1), of k m t rq] assms by (simp add: pump_send_def)
qed

lemma append_ok: "tx_ok t \<Longrightarrow> st t = ST_RECEIVING \<Longrightarrow> tx_ok (append_rx t bs)"
  by (simp add: tx_ok_def append_rx_def split: option.splits)

lemma finish_fields [simp]:
  "status (snd (finish ot m t)) = CQ_TX_DONE" "st (snd (finish ot m t)) = ST_DONE"
  "data (snd (finish ot m t)) = data t" "same_tx t0 (snd (finish ot m t)) = same_tx t0 t"
  by (simp_all add: finish_def same_tx_def)

text \<open>Where a receive pass can leave off.\<close>

lemma recv_step:
  assumes "recv_loop (Suc k) ot m t = Some (m', t')"
  shows "t' = t \<or> t' = snd (finish ot m t) \<or> (data t = [] \<and> t' = fail_tx t CQ_TX_ERR_STREAM ''Read failed from'') \<or>
    (\<exists>bs m1. bs \<noteq> [] \<and> trap ot m (OTRcv CQ_TX_READ_CHUNK) = (m1, Received bs) \<and>
       \<not> (streaming t \<and> CQ_TX_STREAM_HIWAT \<le> length (data t)) \<and>
       recv_loop k ot m1 (append_rx t bs) = Some (m', t'))"
proof -
  obtain m1 r where c: "trap ot m (OTRcv CQ_TX_READ_CHUNK) = (m1, r)" by (cases "trap ot m (OTRcv CQ_TX_READ_CHUNK)")
  obtain m2 l where lk: "trap ot m1 OTLook = (m2, l)" by (cases "trap ot m1 OTLook")
  show ?thesis
  proof (cases "streaming t \<and> CQ_TX_STREAM_HIWAT \<le> length (data t)")
    case True
    then show ?thesis using assms by simp
  next
    case False
    show ?thesis
    proof (cases r)
      case (Received bs)
      then show ?thesis using assms False c by (cases bs) (auto simp: finish_def fail_def split: if_splits)
    next
      case LookErr
      then show ?thesis using assms False c lk by (auto simp: finish_def fail_def Let_def split: if_splits)
    qed (use assms False c in \<open>auto simp: finish_def fail_def split: if_splits\<close>)
  qed
qed

lemma recv_loop_ok:
  "recv_loop k ot m t = Some (m', t') \<Longrightarrow> tx_ok t \<Longrightarrow> st t = ST_RECEIVING \<Longrightarrow> \<not> cancelled t \<Longrightarrow>
    tx_ok t' \<and> same_tx t t' \<and> st t' \<in> {ST_RECEIVING, ST_DONE, ST_FAILED}"
proof (induction k arbitrary: m t)
  case (Suc k)
  from recv_step [OF Suc.prems(1)] consider "t' = t" | "t' = snd (finish ot m t)"
    | "t' = fail_tx t CQ_TX_ERR_STREAM ''Read failed from''"
    | bs m1 where "recv_loop k ot m1 (append_rx t bs) = Some (m', t')" by blast
  then show ?case
  proof cases
    case 4
    have "st (append_rx t bs) = ST_RECEIVING" "\<not> cancelled (append_rx t bs)" "same_tx t (append_rx t bs)"
      using Suc.prems by (simp_all add: append_rx_def same_tx_def)
    with Suc.IH [OF 4 append_ok [OF Suc.prems(2,3)]] show ?thesis by (auto simp: same_tx_def)
  qed (use Suc.prems finish_ok [OF Suc.prems(2,3)] fail_ok [OF Suc.prems(2)] in auto)
qed simp

lemma pump_state_ok:
  assumes "sends_prefix ot" "tx_ok t" "status t = CQ_TX_RUNNING" "\<not> cancelled t" "pump_state k ot m t = Some (m', t')"
  shows "tx_ok t' \<and> same_tx t t'"
proof (cases "st t")
  case ST_INIT
  then show ?thesis using open_ok [OF assms(2) ST_INIT assms(4), of ot m m' t'] assms(5) by (simp add: pump_state_def)
next
  case ST_CONNECTING
  then show ?thesis using connect_ok [OF assms(2) ST_CONNECTING assms(4), of ot m m' t'] assms(5) by (simp add: pump_state_def)
next
  case ST_SENDING
  then show ?thesis using send_ok [OF assms(1,2) ST_SENDING assms(4)] assms(5) by (simp add: pump_state_def)
next
  case ST_RECEIVING
  then show ?thesis using recv_loop_ok [OF _ assms(2) ST_RECEIVING assms(4), of k ot m m' t'] assms(5) by (simp add: pump_state_def)
qed (use assms in \<open>simp_all add: pump_state_def tx_ok_def\<close>)

lemma deadlines_ok:
  assumes "tx_ok t" shows "tx_ok (snd (check_deadlines ot now m t)) \<and> same_tx t (snd (check_deadlines ot now m t))"
  using assms fail_ok [OF assms] by (auto simp: check_deadlines_def) (simp_all add: tx_ok_def)

lemma poll_ok:
  assumes "sends_prefix ot" "tx_ok t" "cq_tx_poll k ot ticks m t = Some (m', t')"
  shows "tx_ok t' \<and> same_tx t t'"
proof (cases "cancelled t \<or> status t \<noteq> CQ_TX_RUNNING")
  case True
  then show ?thesis using assms by (simp add: cq_tx_poll_def)
next
  case False
  then obtain m1 t1 where p: "pump_state k ot m t = Some (m1, t1)"
    and d: "check_deadlines ot (ticks (world m)) m1 t1 = (m', t')"
    using assms(3) by (auto simp: cq_tx_poll_def Let_def split: option.splits prod.splits)
  have "tx_ok t1 \<and> same_tx t t1" using pump_state_ok [OF assms(1,2) _ _ p] False by simp
  with deadlines_ok [of t1 ot "ticks (world m)" m1] d show ?thesis by (simp add: same_tx_def)
qed

subsection \<open>The wire\<close>

text \<open>
  The provider's contract: \<open>rx\<close> and \<open>tx\<close> observe what a world has delivered and accepted. A
  send accepts a prefix, a receive delivers at most what was asked for, nothing else moves bytes.
\<close>

fun rx_gain :: "ot_call \<Rightarrow> ot_result \<Rightarrow> bytes" where
  "rx_gain (OTRcv n) (Received bs) = bs"
| "rx_gain _ _ = []"

fun tx_gain :: "ot_call \<Rightarrow> ot_result \<Rightarrow> bytes" where
  "tx_gain (OTSnd buf) (Count n) = take n buf"
| "tx_gain _ _ = []"

fun answer_ok :: "ot_call \<Rightarrow> ot_result \<Rightarrow> bool" where
  "answer_ok (OTRcv n) (Received bs) = (length bs \<le> n)"
| "answer_ok (OTSnd buf) (Count n) = (n \<le> length buf)"
| "answer_ok _ _ = True"

definition ot_ok :: "'w ot_sys \<Rightarrow> ('w \<Rightarrow> bytes) \<Rightarrow> ('w \<Rightarrow> bytes) \<Rightarrow> bool" where
  "ot_ok ot rx tx \<longleftrightarrow> (\<forall>w c w' r. ot w c = (w', r) \<longrightarrow>
     rx w' = rx w @ rx_gain c r \<and> tx w' = tx w @ tx_gain c r \<and> answer_ok c r)"

lemma ot_ok_sends: "ot_ok ot rx tx \<Longrightarrow> sends_prefix ot"
  unfolding ot_ok_def sends_prefix_def by (metis answer_ok.simps(2) prod.collapse)

lemma trap_ok:
  assumes "ot_ok ot rx tx" "trap ot m c = (m', r)"
  shows "rx (world m') = rx (world m) @ rx_gain c r" "tx (world m') = tx (world m) @ tx_gain c r" "answer_ok c r"
  using assms unfolding ot_ok_def trap_def by (auto split: prod.splits)

text \<open>Bytes on the wire so far, for the calls that move none.\<close>

definition wire :: "('w \<Rightarrow> bytes) \<Rightarrow> ('w \<Rightarrow> bytes) \<Rightarrow> 'w ot_mach \<Rightarrow> bytes \<times> bytes" where
  "wire rx tx m = (rx (world m), tx (world m))"

lemma trap_quiet:
  assumes "ot_ok ot rx tx" "trap ot m c = (m', r)" "rx_gain c r = []" "tx_gain c r = []"
  shows "wire rx tx m' = wire rx tx m"
  using trap_ok [OF assms(1,2)] assms(3,4) by (simp add: wire_def)

fun moves_bytes :: "ot_call \<Rightarrow> bool" where
  "moves_bytes (OTSnd bs) = True"
| "moves_bytes (OTRcv n) = True"
| "moves_bytes _ = False"

lemma quiet_gain: "\<not> moves_bytes c \<Longrightarrow> rx_gain c r = [] \<and> tx_gain c r = []"
  by (cases c) auto

lemma trap_still: "ot_ok ot rx tx \<Longrightarrow> trap ot m c = (m', r) \<Longrightarrow> \<not> moves_bytes c \<Longrightarrow> wire rx tx m' = wire rx tx m"
  using trap_quiet quiet_gain by metis

lemma call_still [simp]: "ot_ok ot rx tx \<Longrightarrow> \<not> moves_bytes c \<Longrightarrow> wire rx tx (call ot m c) = wire rx tx m"
  using trap_still [of ot rx tx m c] by (metis call_def prod.collapse)

lemma teardown_still [simp]: "ot_ok ot rx tx \<Longrightarrow> wire rx tx (ot_teardown ot m) = wire rx tx m"
  by (simp add: ot_teardown_def)

lemma fail_still [simp]: "ot_ok ot rx tx \<Longrightarrow> wire rx tx (fst (fail ot m t e what)) = wire rx tx m"
  by (simp add: fail_def)

lemma finish_still [simp]: "ot_ok ot rx tx \<Longrightarrow> wire rx tx (fst (finish ot m t)) = wire rx tx m"
  by (simp add: finish_def)

lemma wire_globals [simp]: "wire rx tx (m\<lparr>g_ot_up := a\<rparr>) = wire rx tx m"
  "wire rx tx (m\<lparr>g_conn_upp := a\<rparr>) = wire rx tx m"
  by (simp_all add: wire_def)

lemma ensure_up_still:
  assumes "ot_ok ot rx tx" "ot_ensure_up ot m = (m', up)" shows "wire rx tx m' = wire rx tx m"
proof -
  obtain m1 r1 where i: "trap ot m InitOpenTransport = (m1, r1)" by (cases "trap ot m InitOpenTransport")
  obtain m2 r2 where n: "trap ot m1 NewOTNotifyUPP = (m2, r2)" by (cases "trap ot m1 NewOTNotifyUPP")
  have "wire rx tx m1 = wire rx tx m" "wire rx tx m2 = wire rx tx m1"
    using trap_still [OF assms(1) i] trap_still [OF assms(1) n] by simp_all
  then show ?thesis using assms(2) by (auto simp: ot_ensure_up_def i n split: if_splits)
qed

lemma resolve_still:
  assumes "ot_ok ot rx tx" "resolve_host ot m h = (m', ip)" shows "wire rx tx m' = wire rx tx m"
proof -
  obtain m1 r1 where i: "trap ot m OTOpenInternetServices = (m1, r1)" by (cases "trap ot m OTOpenInternetServices")
  obtain m2 r2 where n: "trap ot m1 (OTInetStringToAddress h) = (m2, r2)" by (cases "trap ot m1 (OTInetStringToAddress h)")
  have "wire rx tx m1 = wire rx tx m" "wire rx tx m2 = wire rx tx m1"
    using trap_still [OF assms(1) i] trap_still [OF assms(1) n] by simp_all
  then show ?thesis using assms by (auto simp: resolve_host_def i n split: if_splits option.splits)
qed

lemma issue_connect_still:
  assumes "ot_ok ot rx tx" "issue_connect ot m t ip = (m', t')" shows "wire rx tx m' = wire rx tx m"
proof -
  obtain m1 t1 where a: "arm_async ot m t = (m1, t1)" by (cases "arm_async ot m t")
  obtain m2 r where c: "trap ot m1 (OTConnect ip (port t1)) = (m2, r)" by (cases "trap ot m1 (OTConnect ip (port t1))")
  obtain m3 r3 where i: "trap ot m OTInstallNotifier = (m3, r3)" by (cases "trap ot m OTInstallNotifier")
  have "wire rx tx m3 = wire rx tx m" using trap_still [OF assms(1) i] by simp
  then have "wire rx tx m1 = wire rx tx m" using a assms(1) by (auto simp: arm_async_def Let_def i split: if_splits)
  moreover have "wire rx tx m2 = wire rx tx m1" using trap_still [OF assms(1) c] by simp
  moreover have "m' = m2 \<or> m' = fst (fail ot m2 t1 CQ_TX_ERR_CONNECT ''Could not connect to'')"
    using assms(2) unfolding issue_connect_def a c prod.case fail_def by (auto split: if_splits)
  ultimately show ?thesis using fail_still [OF assms(1)] by auto
qed

lemma open_still:
  assumes "ot_ok ot rx tx" "open_and_connect ot m t = (m', t')" shows "wire rx tx m' = wire rx tx m"
proof -
  obtain m1 up where u: "ot_ensure_up ot m = (m1, up)" by (cases "ot_ensure_up ot m")
  obtain m2 r2 where o: "trap ot m1 OTOpenEndpoint = (m2, r2)" by (cases "trap ot m1 OTOpenEndpoint")
  define m3 where "m3 = call ot (call ot (call ot m2 OTSetSynchronous) OTSetNonBlocking) OTUseSyncIdleEvents"
  obtain m4 r4 where b: "trap ot m3 OTBind = (m4, r4)" by (cases "trap ot m3 OTBind")
  obtain m5 ip where h: "resolve_host ot m4 (host t) = (m5, ip)" by (cases "resolve_host ot m4 (host t)")
  have w: "wire rx tx m1 = wire rx tx m" "wire rx tx m2 = wire rx tx m" "wire rx tx m4 = wire rx tx m"
    "wire rx tx m5 = wire rx tx m"
    using ensure_up_still [OF assms(1) u] trap_still [OF assms(1) o] trap_still [OF assms(1) b]
      resolve_still [OF assms(1) h] assms(1) by (simp_all add: m3_def)
  note e = assms(2) [unfolded open_and_connect_def u o prod.case Let_def, folded m3_def, unfolded b prod.case]
  have f: "wire rx tx (fst (fail ot n s er what)) = wire rx tx n" for n s er what using assms(1) by simp
  consider "\<exists>er what s. m' = fst (fail ot m1 s er what) \<or> m' = fst (fail ot m2 s er what) \<or>
      m' = fst (fail ot m4 s er what) \<or> m' = fst (fail ot m5 s er what)"
    | i where "issue_connect ot m5 (t\<lparr>ep := True\<rparr>) i = (m', t')"
    using e h by (auto split: if_splits option.splits simp: b) (metis fst_conv)+
  then show ?thesis
  proof cases
    case 1
    then show ?thesis using f w by auto
  next
    case 2
    then show ?thesis using issue_connect_still [OF assms(1) 2] w by simp
  qed
qed

end
