(* ===== verification/OtWire.thy ===== *)
theory OtWire
  imports TransportOt
begin

text \<open>
  What the Open Transport transaction does on the wire: the bytes sent and received by each state of
  the machine, whole runs of polls, notifications, drains and a cancel, the deadlines, the end of the
  loops, and the dotted-quad parser. Runs start from a transaction as \<open>cq_tx_new\<close> and
  \<open>cq_tx_start\<close> leave it.
\<close>

subsection \<open>Bytes moved by each state\<close>

lemma pump_connect_still:
  assumes "ot_ok ot rx tx" "pump_connect ot m t = (m', t')" shows "wire rx tx m' = wire rx tx m"
proof -
  obtain m1 l1 where l: "trap ot m OTLook = (m1, l1)" by (cases "trap ot m OTLook")
  obtain m2 r where c: "trap ot m1 OTRcvConnect = (m2, r)" by (cases "trap ot m1 OTRcvConnect")
  have w: "wire rx tx m1 = wire rx tx m" "wire rx tx m2 = wire rx tx m"
    using trap_still [OF assms(1) l] trap_still [OF assms(1) c] by simp_all
  have "m' = m1 \<or> m' = m2 \<or> m' = call ot m2 OTSetSynchronous \<or>
      (\<exists>e what. m' = fst (fail ot m2 t e what) \<or> m' = fst (fail ot (call ot m1 OTRcvDisconnect) t e what))"
    using assms(2) unfolding pump_connect_def l c prod.case by (auto split: if_splits) (metis fst_conv)+
  then show ?thesis using w assms(1) by auto
qed

text \<open>The part of the request the connection has accepted.\<close>

definition sent_part :: "ot_tx \<Rightarrow> bytes" where
  "sent_part t = (case req t of None \<Rightarrow> [] | Some rq \<Rightarrow> take (reqoff t) rq)"

lemma sent_part_fields [simp]:
  "sent_part (fail_tx t e what) = sent_part t" "sent_part (t\<lparr>st := s\<rparr>) = sent_part t"
  "sent_part (t\<lparr>async := a\<rparr>) = sent_part t" "sent_part (t\<lparr>ep := b\<rparr>) = sent_part t"
  "sent_part (t\<lparr>status := x\<rparr>) = sent_part t" "sent_part (append_rx t bs) = sent_part t"
  "sent_part (t\<lparr>conn_event := v\<rparr>) = sent_part t" "sent_part (t\<lparr>cancelled := d\<rparr>) = sent_part t"
  "sent_part (t\<lparr>data := ds\<rparr>) = sent_part t" "sent_part (t\<lparr>start_tick := a1, connect_tick := a2\<rparr>) = sent_part t"
  by (simp_all add: sent_part_def append_rx_def fail_tx_def split: option.split)

lemma send_loop_wire:
  assumes "ot_ok ot rx tx"
  shows "send_loop k ot m t rq = Some (m', t') \<Longrightarrow> req t = Some rq \<Longrightarrow> reqoff t \<le> length rq \<Longrightarrow>
    tx (world m) = w0 @ sent_part t \<Longrightarrow>
    tx (world m') = w0 @ sent_part t' \<and> rx (world m') = rx (world m)"
proof (induction k arbitrary: m t)
  case (Suc k)
  obtain m1 r where c: "trap ot m (OTSnd (drop (reqoff t) rq)) = (m1, r)"
    by (cases "trap ot m (OTSnd (drop (reqoff t) rq))")
  note ok = trap_ok [OF assms c]
  show ?case
  proof (cases "reqoff t < length rq")
    case False
    then show ?thesis using Suc.prems by auto
  next
    case True
    show ?thesis
    proof (cases r)
      case (Count n)
      let ?t = "t\<lparr>reqoff := reqoff t + n\<rparr>"
      have n: "n \<le> length rq - reqoff t" using ok(3) Count by simp
      have "tx (world m1) = w0 @ sent_part ?t"
        using ok(2) Count Suc.prems(2,4) by (simp add: sent_part_def take_add)
      moreover have "send_loop k ot m1 ?t rq = Some (m', t')" using Suc.prems(1) True c Count by simp
      ultimately show ?thesis using Suc.IH [of m1 ?t] Suc.prems(2,3) n True ok(1) by simp
    next
      case NoError
      then have "send_loop k ot m1 t rq = Some (m', t')" using Suc.prems(1) True c by simp
      then show ?thesis using Suc.IH [of m1 t] Suc.prems(2-4) ok NoError by simp
    next
      case FlowErr
      then show ?thesis using Suc.prems True c ok by auto
    qed (use Suc.prems True c ok fail_still [OF assms, of m1 t CQ_TX_ERR_STREAM "''Write failed to''"] in
        \<open>auto simp: fail_def wire_def\<close>)
  qed
qed simp

lemma pump_send_wire:
  assumes "ot_ok ot rx tx" "tx_ok t" "pump_send k ot m t = Some (m', t')" "tx (world m) = w0 @ sent_part t"
  shows "tx (world m') = w0 @ sent_part t' \<and> rx (world m') = rx (world m)"
proof (cases "req t")
  case None
  let ?t = "t\<lparr>req := Some (request (selector t)), reqoff := 0\<rparr>"
  have "send_loop k ot m ?t (request (selector t)) = Some (m', t')" using assms(3) None by (simp add: pump_send_def)
  then show ?thesis using send_loop_wire [OF assms(1), of k m ?t _ m' t' w0] assms(4) None
    by (simp add: sent_part_def)
next
  case (Some rq)
  then have "reqoff t \<le> length rq" using assms(2) unfolding tx_ok_def by auto
  moreover have "send_loop k ot m t rq = Some (m', t')" using assms(3) Some by (simp add: pump_send_def)
  ultimately show ?thesis using send_loop_wire [OF assms(1) _ Some] assms(4) by blast
qed

lemma recv_step_wire:
  assumes "ot_ok ot rx tx" "recv_loop (Suc k) ot m t = Some (m', t')"
  shows "(\<exists>bs m1. trap ot m (OTRcv CQ_TX_READ_CHUNK) = (m1, Received bs) \<and>
       recv_loop k ot m1 (append_rx t bs) = Some (m', t')) \<or>
    wire rx tx m' = wire rx tx m \<and> data t' = data t \<and> sent_part t' = sent_part t"
proof -
  obtain m1 r where c: "trap ot m (OTRcv CQ_TX_READ_CHUNK) = (m1, r)" by (cases "trap ot m (OTRcv CQ_TX_READ_CHUNK)")
  obtain m2 l where lk: "trap ot m1 OTLook = (m2, l)" by (cases "trap ot m1 OTLook")
  have q: "wire rx tx m2 = wire rx tx m1" using trap_still [OF assms(1) lk] by simp
  have p: "wire rx tx m1 = wire rx tx m" if "\<forall>b bs. r \<noteq> Received (b # bs)"
    using trap_quiet [OF assms(1) c] that by (cases r) (auto, metis list.exhaust)
  have sf: "sent_part (snd (finish ot n t)) = sent_part t" for n by (simp add: finish_def)
  show ?thesis
  proof (cases "streaming t \<and> CQ_TX_STREAM_HIWAT \<le> length (data t)")
    case True
    then show ?thesis using assms(2) by simp
  next
    case False
    show ?thesis
    proof (cases r)
      case (Received bs)
      then show ?thesis using assms False c p sf fail_still [OF assms(1)]
        by (cases bs) (auto simp: finish_def fail_def split: if_splits)
    next
      case LookErr
      then show ?thesis using assms False c lk p q sf
        by (auto simp: finish_def fail_def Let_def split: if_splits)
    qed (use assms False c p sf in \<open>auto simp: finish_def fail_def split: if_splits\<close>)
  qed
qed

lemma recv_loop_wire:
  assumes "ot_ok ot rx tx"
  shows "recv_loop k ot m t = Some (m', t') \<Longrightarrow>
    tx (world m') = tx (world m) \<and> sent_part t' = sent_part t \<and>
    (\<exists>got. rx (world m') = rx (world m) @ got \<and> data t' = data t @ got)"
proof (induction k arbitrary: m t)
  case (Suc k)
  from recv_step_wire [OF assms Suc.prems] show ?case
  proof (elim disjE exE conjE)
    fix bs m1
    assume c: "trap ot m (OTRcv CQ_TX_READ_CHUNK) = (m1, Received bs)"
      and r: "recv_loop k ot m1 (append_rx t bs) = Some (m', t')"
    from Suc.IH [OF r] trap_ok [OF assms c] show ?thesis by (auto simp: sent_part_fields(6)) (simp add: append_rx_def)
  qed (auto simp: wire_def)
qed simp

lemma pump_state_wire:
  assumes "ot_ok ot rx tx" "tx_ok t" "pump_state k ot m t = Some (m', t')" "tx (world m) = w0 @ sent_part t"
  shows "tx (world m') = w0 @ sent_part t' \<and>
    (\<exists>got. rx (world m') = rx (world m) @ got \<and> data t' = data t @ got)"
proof (cases "st t")
  case ST_INIT
  then have o: "open_and_connect ot m t = (m', t')" using assms(3) by (simp add: pump_state_def)
  have "sent_part t' = sent_part t \<and> data t' = data t" using open_and_connect_shape [OF o] by auto
  then show ?thesis using open_still [OF assms(1) o] assms(4) by (simp add: wire_def)
next
  case ST_CONNECTING
  then have o: "pump_connect ot m t = (m', t')" using assms(3) by (simp add: pump_state_def)
  have "sent_part t' = sent_part t \<and> data t' = data t" using pump_connect_shape [OF o] by auto
  then show ?thesis using pump_connect_still [OF assms(1) o] assms(4) by (simp add: wire_def)
next
  case ST_SENDING
  then have o: "pump_send k ot m t = Some (m', t')" using assms(3) by (simp add: pump_state_def)
  have "data t' = data t"
  proof -
    have "send_loop n ot s u rq = Some (m', t') \<Longrightarrow> data t' = data u" for n s u rq
      by (induction n arbitrary: s u) (auto simp: fail_def split: if_splits prod.splits ot_result.splits)
    from this [of k m "t\<lparr>req := Some (request (selector t)), reqoff := 0\<rparr>"] this [of k m t] o
    show ?thesis by (auto simp: pump_send_def split: option.splits)
  qed
  then show ?thesis using pump_send_wire [OF assms(1,2) o assms(4)] by simp
next
  case ST_RECEIVING
  then have "recv_loop k ot m t = Some (m', t')" using assms(3) by (simp add: pump_state_def)
  from recv_loop_wire [OF assms(1) this] assms(4) show ?thesis by simp
qed (use assms in \<open>auto simp: pump_state_def\<close>)

lemma deadlines_wire:
  assumes "ot_ok ot rx tx" "check_deadlines ot now m t = (m', t')"
  shows "wire rx tx m' = wire rx tx m \<and> data t' = data t \<and> sent_part t' = sent_part t"
  using assms(2) assms(1) unfolding check_deadlines_def
  by (auto simp: fail_def split: if_splits)

lemma poll_wire:
  assumes "ot_ok ot rx tx" "tx_ok t" "cq_tx_poll k ot ticks m t = Some (m', t')"
    "tx (world m) = w0 @ sent_part t"
  shows "tx (world m') = w0 @ sent_part t' \<and>
    (\<exists>got. rx (world m') = rx (world m) @ got \<and> data t' = data t @ got)"
proof (cases "cancelled t \<or> status t \<noteq> CQ_TX_RUNNING")
  case True
  then show ?thesis using assms by (simp add: cq_tx_poll_def)
next
  case False
  then obtain m1 t1 where p: "pump_state k ot m t = Some (m1, t1)"
    and d: "check_deadlines ot (ticks (world m)) m1 t1 = (m', t')"
    using assms(3) by (auto simp: cq_tx_poll_def Let_def split: option.splits prod.splits)
  from pump_state_wire [OF assms(1,2) p assms(4)] deadlines_wire [OF assms(1) d]
  show ?thesis by (simp add: wire_def)
qed

lemma cancel_wire:
  assumes "ot_ok ot rx tx" "cq_tx_cancel ot m t = (m', t')"
  shows "wire rx tx m' = wire rx tx m \<and> data t' = data t \<and> sent_part t' = sent_part t"
  using assms(2) assms(1) unfolding cq_tx_cancel_def Let_def by (auto split: if_splits)

subsection \<open>Runs\<close>

text \<open>
  What the application and the system do to one transaction: a poll, a notifier callback, a drain
  into a buffer of \<open>n\<close> bytes, a cancel. A run collects the bytes the drains handed over.
\<close>

datatype ot_step = Poll | Notify ot_event | Take nat | Cancel

fun ot_run :: "nat \<Rightarrow> 'w ot_sys \<Rightarrow> ('w \<Rightarrow> u32) \<Rightarrow> ot_step list \<Rightarrow> 'w ot_mach \<Rightarrow> ot_tx \<Rightarrow>
    (bytes \<times> 'w ot_mach \<times> ot_tx) option" where
  "ot_run k ot ticks [] m t = Some ([], m, t)"
| "ot_run k ot ticks (Poll # es) m t =
     (case cq_tx_poll k ot ticks m t of None \<Rightarrow> None | Some (m', t') \<Rightarrow> ot_run k ot ticks es m' t')"
| "ot_run k ot ticks (Notify e # es) m t = ot_run k ot ticks es m (conn_notifier e t)"
| "ot_run k ot ticks (Take n # es) m t =
     (case cq_tx_drain t n of (out, t') \<Rightarrow>
        map_option (\<lambda>(out', m', t''). (out @ out', m', t'')) (ot_run k ot ticks es m t'))"
| "ot_run k ot ticks (Cancel # es) m t =
     (case cq_tx_cancel ot m t of (m', t') \<Rightarrow> ot_run k ot ticks es m' t')"

lemma run_wire:
  assumes "ot_ok ot rx tx"
  shows "ot_run k ot ticks es m t = Some (out, m', t') \<Longrightarrow> tx_ok t \<Longrightarrow> tx (world m) = w0 @ sent_part t \<Longrightarrow>
    tx_ok t' \<and> selector t' = selector t \<and> tx (world m') = w0 @ sent_part t' \<and>
    (\<exists>got. rx (world m') = rx (world m) @ got \<and> data t @ got = out @ data t')"
proof (induction es arbitrary: m t out)
  case (Cons e es)
  show ?case
  proof (cases e)
    case Poll
    then obtain m1 t1 where p: "cq_tx_poll k ot ticks m t = Some (m1, t1)"
      and r: "ot_run k ot ticks es m1 t1 = Some (out, m', t')"
      using Cons.prems(1) by (auto split: option.splits)
    note o = poll_ok [OF ot_ok_sends [OF assms] Cons.prems(2) p] and w = poll_wire [OF assms Cons.prems(2) p Cons.prems(3)]
    from Cons.IH [OF r] o w show ?thesis by (auto simp: same_tx_def)
  next
    case (Notify ev)
    have "sent_part (conn_notifier ev t) = sent_part t" "data (conn_notifier ev t) = data t"
      "selector (conn_notifier ev t) = selector t" by (simp_all add: conn_notifier_def)
    then show ?thesis using Cons.IH [of m "conn_notifier ev t" out] Notify Cons.prems notify_ok [OF Cons.prems(2), of ev]
      by simp
  next
    case (Take n)
    obtain b t1 where d: "cq_tx_drain t n = (b, t1)" by (cases "cq_tx_drain t n")
    obtain out' where r: "ot_run k ot ticks es m t1 = Some (out', m', t')" "out = b @ out'"
      using Cons.prems(1) Take d by auto
    have t1: "t1 = t\<lparr>data := drop n (data t)\<rparr>" "b = take n (data t)"
      using d by (auto simp: cq_tx_drain_def Let_def split: if_splits)
    have "tx_ok t1" using drain_ok [OF Cons.prems(2), of n] d by simp
    from Cons.IH [OF r(1) this] Cons.prems(3) t1
    obtain got where g: "rx (world m') = rx (world m) @ got" "drop n (data t) @ got = out' @ data t'"
      and keep: "tx_ok t' \<and> selector t' = selector t \<and> tx (world m') = w0 @ sent_part t'" by auto
    have "data t @ got = take n (data t) @ (drop n (data t) @ got)" by simp
    then have "data t @ got = out @ data t'" using g(2) r(2) t1(2) by simp
    then show ?thesis using g(1) keep by blast
  next
    case Cancel
    obtain m1 t1 where c: "cq_tx_cancel ot m t = (m1, t1)" by (cases "cq_tx_cancel ot m t")
    then have r: "ot_run k ot ticks es m1 t1 = Some (out, m', t')" using Cons.prems(1) Cancel by simp
    have s: "selector t1 = selector t" using c by (auto simp: cq_tx_cancel_def Let_def split: if_splits)
    have "tx_ok t1" using cancel_ok [OF Cons.prems(2), of ot m] c by simp
    from Cons.IH [OF r this] cancel_wire [OF assms c] s Cons.prems(3) show ?thesis by (auto simp: wire_def)
  qed
qed auto

text \<open>A transaction that has ended stays as it is: no call is made and only drains take bytes.\<close>

lemma run_ended:
  assumes "status t \<noteq> CQ_TX_RUNNING" "\<not> ep t"
  shows "\<exists>out t'. ot_run k ot ticks es m t = Some (out, m, t') \<and> status t' = status t \<and> error t' = error t \<and>
    out @ data t' = data t"
  using assms
proof (induction es arbitrary: t)
  case (Cons e es)
  define t1 where "t1 = (case e of Poll \<Rightarrow> t | Notify ev \<Rightarrow> conn_notifier ev t | Take n \<Rightarrow> snd (cq_tx_drain t n)
    | Cancel \<Rightarrow> t\<lparr>cancelled := True\<rparr>)"
  have t1: "status t1 = status t" "error t1 = error t" "\<not> ep t1"
    using Cons.prems(2) by (simp_all add: t1_def conn_notifier_def cq_tx_drain_def Let_def split: ot_step.split)
  from Cons.IH [OF _ t1(3)] Cons.prems(1) t1 obtain out t' where
    i: "ot_run k ot ticks es m t1 = Some (out, m, t')" "status t' = status t" "error t' = error t"
      "out @ data t' = data t1" by auto
  show ?case
  proof (cases e)
    case (Take n)
    have "fst (cq_tx_drain t n) @ data t1 = data t"
      using Take by (simp add: t1_def cq_tx_drain_def Let_def)
    then show ?thesis using Take i by (auto simp: t1_def split_beta)
  qed (use i Cons.prems in \<open>auto simp: t1_def cq_tx_poll_def cq_tx_cancel_def conn_notifier_def\<close>)
qed simp

subsection \<open>The end of the loops\<close>

lemma recv_streaming_returns:
  "streaming t \<Longrightarrow> CQ_TX_STREAM_HIWAT - length (data t) < k \<Longrightarrow>
    \<exists>m' t'. recv_loop k ot m t = Some (m', t')"
proof (induction k arbitrary: m t)
  case (Suc k)
  show ?case
  proof (cases "CQ_TX_STREAM_HIWAT \<le> length (data t)")
    case True
    then show ?thesis using Suc.prems by simp
  next
    case False
    obtain m1 r where c: "trap ot m (OTRcv CQ_TX_READ_CHUNK) = (m1, r)" by (cases "trap ot m (OTRcv CQ_TX_READ_CHUNK)")
    obtain m2 l where lk: "trap ot m1 OTLook = (m2, l)" by (cases "trap ot m1 OTLook")
    show ?thesis
    proof (cases "\<exists>b bs. r = Received (b # bs)")
      case True
      then obtain b bs where r: "r = Received (b # bs)" by blast
      have "\<exists>m' t'. recv_loop k ot m1 (append_rx t (b # bs)) = Some (m', t')"
        using Suc.prems False by (intro Suc.IH) (simp_all add: append_rx_def)
      then show ?thesis using False c r by simp
    next
      case no: False
      have "recv_loop (Suc k) ot m t \<noteq> None"
      proof (cases r)
        case (Received bs)
        then show ?thesis using False c no by (cases bs) auto
      qed (use False c lk in \<open>auto simp: Let_def\<close>)
      then show ?thesis by auto
    qed
  qed
qed simp

lemma recv_streaming_bounded:
  assumes "ot_ok ot rx tx"
  shows "recv_loop k ot m t = Some (m', t') \<Longrightarrow> streaming t \<Longrightarrow>
    length (data t) < CQ_TX_STREAM_HIWAT + CQ_TX_READ_CHUNK \<Longrightarrow>
    length (data t') < CQ_TX_STREAM_HIWAT + CQ_TX_READ_CHUNK"
proof (induction k arbitrary: m t)
  case (Suc k)
  from recv_step [OF Suc.prems(1)] show ?case
  proof (elim disjE exE conjE)
    fix bs m1
    assume c: "trap ot m (OTRcv CQ_TX_READ_CHUNK) = (m1, Received bs)" and r: "recv_loop k ot m1 (append_rx t bs) = Some (m', t')"
      and h: "\<not> (streaming t \<and> CQ_TX_STREAM_HIWAT \<le> length (data t))"
    have "length bs \<le> CQ_TX_READ_CHUNK" using trap_ok(3) [OF assms c] by simp
    then show ?thesis using Suc.IH [OF r] h Suc.prems(2) by (simp add: append_rx_def)
  qed (use Suc.prems in auto)
qed simp

text \<open>A send that is not refused accepts at least one byte.\<close>

definition sends_progress :: "'w ot_sys \<Rightarrow> bool" where
  "sends_progress ot \<longleftrightarrow> (\<forall>w bs. bs \<noteq> [] \<longrightarrow> snd (ot w (OTSnd bs)) \<notin> {Count 0, NoError})"

lemma send_loop_returns:
  assumes "sends_progress ot"
  shows "length rq - reqoff t < k \<Longrightarrow> \<exists>m' t'. send_loop k ot m t rq = Some (m', t')"
proof (induction k arbitrary: m t)
  case (Suc k)
  obtain m1 r where c: "trap ot m (OTSnd (drop (reqoff t) rq)) = (m1, r)"
    by (cases "trap ot m (OTSnd (drop (reqoff t) rq))")
  show ?case
  proof (cases "reqoff t < length rq")
    case True
    then have p: "r \<notin> {Count 0, NoError}"
      using assms trap_snd [of ot m "OTSnd (drop (reqoff t) rq)"] c unfolding sends_progress_def
      by (metis drop_eq_Nil2 leD snd_conv)
    show ?thesis
    proof (cases r)
      case (Count n)
      have "\<exists>m' t'. send_loop k ot m1 (t\<lparr>reqoff := reqoff t + n\<rparr>) rq = Some (m', t')"
        using Suc.prems True p Count by (intro Suc.IH) (cases n; simp)
      then show ?thesis using True c Count by simp
    qed (use True c p in auto)
  qed simp
qed simp

lemma poll_returns:
  assumes "sends_progress ot" "streaming t" "tx_ok t"
    "CQ_TX_STREAM_HIWAT + length (request (selector t)) < k"
  shows "\<exists>m' t'. cq_tx_poll k ot ticks m t = Some (m', t')"
proof -
  have "\<exists>p. pump_state k ot m t = Some p"
  proof (cases "st t")
    case ST_SENDING
    show ?thesis
    proof (cases "req t")
      case None
      then show ?thesis using send_loop_returns [OF assms(1), of _ _ k m] assms(4) ST_SENDING
        by (simp add: pump_state_def pump_send_def)
    next
      case (Some rq)
      then have "rq = request (selector t)" using assms(3) by (simp add: tx_ok_def)
      then show ?thesis using send_loop_returns [OF assms(1), of rq t k m] assms(4) ST_SENDING Some
        by (simp add: pump_state_def pump_send_def)
    qed
  next
    case ST_RECEIVING
    have "\<exists>m' t'. recv_loop k ot m t = Some (m', t')"
      using assms(2,4) by (intro recv_streaming_returns) simp_all
    then show ?thesis using ST_RECEIVING by (simp add: pump_state_def)
  qed (simp_all add: pump_state_def)
  then show ?thesis by (auto simp: cq_tx_poll_def Let_def split: prod.splits)
qed

subsection \<open>Dotted quads\<close>

text \<open>A number below \<open>2^k\<close> fills the bits a shift by \<open>k\<close> leaves free.\<close>

lemma push_or:
  fixes h :: u32
  assumes "unat x < 2 ^ k" shows "push_bit k h OR x = push_bit k h + x"
proof -
  have "take_bit k x = x"
  proof (rule word_unat_eq_iff [THEN iffD2])
    show "unat (take_bit k x) = unat x" using assms by (simp add: unsigned_take_bit_eq take_bit_nat_eq_self)
  qed
  then have "\<not> bit x n" if "k \<le> n" for n using that by (metis bit_take_bit_iff leD)
  then have "push_bit k h + x = push_bit k h OR x"
    by (intro disjunctive_add) (auto simp: bit_push_bit_iff not_le)
  then show ?thesis by simp
qed

definition quad_str :: "nat \<Rightarrow> nat \<Rightarrow> nat \<Rightarrow> nat \<Rightarrow> cstr" where
  "quad_str a b c d = nat_str a @ ''.'' @ nat_str b @ ''.'' @ nat_str c @ ''.'' @ nat_str d"

lemma foldl_digits: "\<forall>c \<in> set ds. is_digit c \<Longrightarrow>
  foldl (\<lambda>v c. v * 10 + of_int (u8 c - 48)) (of_nat n :: u32) ds =
    of_nat (foldl (\<lambda>v c. v * 10 + nat (u8 c - 48)) n ds)"
proof (induction ds arbitrary: n)
  case (Cons c ds)
  have "(of_int (u8 c - 48) :: u32) = of_nat (nat (u8 c - 48))"
    using Cons.prems by (simp add: is_digit_def)
  then have "(of_nat n * 10 + of_int (u8 c - 48) :: u32) = of_nat (n * 10 + nat (u8 c - 48))" by simp
  then show ?case using Cons.IH [of "n * 10 + nat (u8 c - 48)"] Cons.prems by simp
qed simp

lemma not_digit_dot: "\<not> is_digit CHR ''.''"
  by (simp add: is_digit_def u8_def)

lemma quad_part_nat_str:
  assumes "rest = [] \<or> \<not> is_digit (hd rest)"
  shows "quad_part (nat_str n @ rest) = (if (of_nat n :: u32) > 255 then None else Some (of_nat n, rest))"
proof -
  have "foldl (\<lambda>v c. v * 10 + of_int (u8 c - 48)) (of_nat 0 :: u32) (nat_str n) = of_nat n"
    using foldl_digits [of "nat_str n" 0] nat_str_digits [of _ n] dec_val_nat_str [of n] by (simp add: dec_val_def)
  then show ?thesis by (simp add: quad_part_def digits_before [OF assms])
qed

lemma parse_quad_str:
  "parse_dotted_quad (quad_str a b c d) =
     (if \<exists>x \<in> {a, b, c, d}. (of_nat x :: u32) > 255 then None
      else Some (push_bit 24 (of_nat a) OR push_bit 16 (of_nat b) OR push_bit 8 (of_nat c) OR of_nat d))"
proof -
  have q: "quad_part (nat_str n @ CHR ''.'' # rest) = (if (of_nat n :: u32) > 255 then None else Some (of_nat n, CHR ''.'' # rest))"
    for n rest using quad_part_nat_str [of "CHR ''.'' # rest"] by (simp add: not_digit_dot)
  have e: "quad_part (nat_str n) = (if (of_nat n :: u32) > 255 then None else Some (of_nat n, []))" for n
    using quad_part_nat_str [of "[]"] by simp
  show ?thesis by (simp add: parse_dotted_quad_def quad_str_def q e)
qed

lemma quad_number:
  assumes "a < 256" "b < 256" "c < 256" "d < 256"
  shows "push_bit 24 (of_nat a) OR push_bit 16 (of_nat b) OR push_bit 8 (of_nat c) OR (of_nat d :: u32) =
    of_nat (((a * 256 + b) * 256 + c) * 256 + d)"
proof -
  have n: "unat (of_nat n :: u32) = n" if "n < 2 ^ 32" for n using that by (simp add: unsigned_of_nat take_bit_nat_eq_self)
  have e1: "push_bit 8 (of_nat c) OR (of_nat d :: u32) = of_nat (c * 256 + d)"
    using push_or [of "of_nat d" 8 "of_nat c"] n [of d] assms(4) by (simp add: push_bit_eq_mult mult.commute)
  have e2: "push_bit 16 (of_nat b) OR (of_nat (c * 256 + d) :: u32) = of_nat (b * 65536 + (c * 256 + d))"
    using push_or [of "of_nat (c * 256 + d)" 16 "of_nat b"] n [of "c * 256 + d"] assms(3,4)
    by (simp add: push_bit_eq_mult mult.commute)
  have e3: "push_bit 24 (of_nat a) OR (of_nat (b * 65536 + (c * 256 + d)) :: u32) =
      of_nat (a * 16777216 + (b * 65536 + (c * 256 + d)))"
    using push_or [of "of_nat (b * 65536 + (c * 256 + d))" 24 "of_nat a"] n [of "b * 65536 + (c * 256 + d)"] assms(2-4)
    by (simp add: push_bit_eq_mult mult.commute)
  show ?thesis unfolding e1 e2 e3 by (simp add: algebra_simps)
qed

subsection \<open>Properties\<close>

lemma fresh_tx:
  assumes "t0 = cq_tx_new h p sel \<or> t0 = cq_tx_stream_new h p sel"
  shows "tx_ok (cq_tx_start now t0)" "sent_part (cq_tx_start now t0) = []" "data (cq_tx_start now t0) = []"
proof -
  show "tx_ok (cq_tx_start now t0)" using assms new_ok by (metis start_ok)
  show "sent_part (cq_tx_start now t0) = []" "data (cq_tx_start now t0) = []"
    using assms by (auto simp: cq_tx_start_def cq_tx_new_def cq_tx_stream_new_def sent_part_def)
qed

text \<open>Only the deadlines report a timeout.\<close>

lemma pump_state_error:
  assumes "pump_state k ot m t = Some (m', t')"
  shows "error t' \<in> {error t, CQ_TX_ERR_CONNECT, CQ_TX_ERR_STREAM}"
proof -
  have s: "send_loop n ot u v rq = Some (m', t') \<Longrightarrow> error t' \<in> {error v, CQ_TX_ERR_STREAM}" for n u v rq
    by (induction n arbitrary: u v) (auto simp: fail_def split: if_splits prod.splits ot_result.splits)
  have r: "recv_loop n ot u v = Some (m', t') \<Longrightarrow> error t' \<in> {error v, CQ_TX_ERR_STREAM}" for n u v
  proof (induction n arbitrary: u v)
    case (Suc n)
    from recv_step [OF Suc.prems] show ?case
    proof (elim disjE exE conjE)
      fix bs m1
      assume "recv_loop n ot m1 (append_rx v bs) = Some (m', t')"
      from Suc.IH [OF this] show ?thesis by (simp add: append_rx_def)
    qed (auto simp: finish_def)
  qed simp
  show ?thesis
  proof (cases "st t")
    case ST_INIT
    then show ?thesis using assms open_and_connect_shape [of ot m t m' t'] by (auto simp: pump_state_def)
  next
    case ST_CONNECTING
    then show ?thesis using assms pump_connect_shape [of ot m t m' t'] by (auto simp: pump_state_def)
  next
    case ST_SENDING
    then show ?thesis using assms s [of k m "t\<lparr>req := Some (request (selector t)), reqoff := 0\<rparr>"] s [of k m t]
      by (auto simp: pump_state_def pump_send_def split: option.splits)
  next
    case ST_RECEIVING
    then show ?thesis using assms r [of k m t] by (auto simp: pump_state_def)
  qed (use assms in \<open>auto simp: pump_state_def\<close>)
qed

lemma poll_bounded:
  assumes "ot_ok ot rx tx" "tx_ok t" "streaming t" "length (data t) < CQ_TX_STREAM_HIWAT + CQ_TX_READ_CHUNK"
    "cq_tx_poll k ot ticks m t = Some (m', t')"
  shows "length (data t') < CQ_TX_STREAM_HIWAT + CQ_TX_READ_CHUNK"
proof (cases "cancelled t \<or> status t \<noteq> CQ_TX_RUNNING")
  case True
  then show ?thesis using assms by (simp add: cq_tx_poll_def)
next
  case False
  then obtain m1 t1 where p: "pump_state k ot m t = Some (m1, t1)"
    and d: "check_deadlines ot (ticks (world m)) m1 t1 = (m', t')"
    using assms(5) by (auto simp: cq_tx_poll_def Let_def split: option.splits prod.splits)
  have "length (data t1) < CQ_TX_STREAM_HIWAT + CQ_TX_READ_CHUNK"
  proof (cases "st t = ST_RECEIVING")
    case True
    then show ?thesis using p recv_streaming_bounded [OF assms(1) _ assms(3,4)] by (auto simp: pump_state_def)
  next
    case nr: False
    have "data t1 = data t"
    proof (cases "st t")
      case ST_INIT
      then show ?thesis using p open_and_connect_shape [of ot m t m1 t1] by (auto simp: pump_state_def)
    next
      case ST_CONNECTING
      then show ?thesis using p pump_connect_shape [of ot m t m1 t1] by (auto simp: pump_state_def)
    next
      case ST_SENDING
      then show ?thesis using p send_ok [OF ot_ok_sends [OF assms(1)] assms(2) _ _ , of k m m1 t1] False
        by (simp add: pump_state_def)
    qed (use p nr in \<open>auto simp: pump_state_def\<close>)
    then show ?thesis using assms(4) by simp
  qed
  then show ?thesis using deadlines_wire [OF assms(1) d] by simp
qed

text \<open>C6. Over any run of polls, notifications, drains and a cancel, a transaction puts nothing but its
selector's line on the wire, and what the drains handed over followed by what is still buffered is
exactly what the connection delivered; a transaction that is DONE has sent the whole line.\<close>

theorem ot_session:
  assumes "ot_ok ot rx tx" "t0 = cq_tx_new h p (Some sel) \<or> t0 = cq_tx_stream_new h p (Some sel)"
    "ot_run k ot ticks es m (cq_tx_start now t0) = Some (out, m', t')"
  shows "\<exists>n. tx (world m') = tx (world m) @ take n (request sel) \<and>
    rx (world m') = rx (world m) @ out @ data t' \<and>
    (status t' = CQ_TX_DONE \<longrightarrow> tx (world m') = tx (world m) @ request sel)"
proof -
  let ?t = "cq_tx_start now t0"
  note i = fresh_tx [OF assms(2), of now]
  have s: "selector ?t = sel"
    using assms(2) by (auto simp: cq_tx_start_def cq_tx_new_def cq_tx_stream_new_def)
  have "tx (world m) = tx (world m) @ sent_part ?t" by (simp add: i(2))
  from run_wire [OF assms(1,3) i(1) this] i(3) s
  have r: "tx_ok t'" "selector t' = sel" "tx (world m') = tx (world m) @ sent_part t'"
    "rx (world m') = rx (world m) @ out @ data t'" by auto
  have "sent_part t' = take (case req t' of None \<Rightarrow> 0 | Some rq \<Rightarrow> reqoff t') (request sel)"
    using r(1,2) by (auto simp: sent_part_def tx_ok_def split: option.splits)
  moreover have "sent_part t' = request sel" if "status t' = CQ_TX_DONE"
    using r(1,2) that by (auto simp: sent_part_def tx_ok_def split: option.splits)
  ultimately show ?thesis using r(3,4) by metis
qed

text \<open>
  A system that connects at once, accepts every send, hands over its input in chunks and then
  releases the connection; its clock is the number of calls.
\<close>

definition demo_ot :: "bytes \<times> bytes \<times> bytes \<times> nat \<Rightarrow> ot_call \<Rightarrow> (bytes \<times> bytes \<times> bytes \<times> nat) \<times> ot_result" where
  "demo_ot w c = (case w of (todo, got, sent, clk) \<Rightarrow> case c of
       OTSnd buf \<Rightarrow> ((todo, got, sent @ buf, Suc clk), if buf = [] then NoError else Count (length buf))
     | OTRcv n \<Rightarrow> if todo = [] then ((todo, got, sent, Suc clk), LookErr)
         else ((drop n todo, got @ take n todo, sent, Suc clk), Received (take n todo))
     | OTLook \<Rightarrow> ((todo, got, sent, Suc clk), Event T_ORDREL)
     | NewOTNotifyUPP \<Rightarrow> ((todo, got, sent, Suc clk), OtherErr (-1))
     | OTInetStringToAddress h \<Rightarrow> ((todo, got, sent, Suc clk), Address 1)
     | _ \<Rightarrow> ((todo, got, sent, Suc clk), NoError))"

definition demo_mach :: "bytes \<Rightarrow> (bytes \<times> bytes \<times> bytes \<times> nat) ot_mach" where
  "demo_mach todo = \<lparr>world = (todo, [], [], 0), g_ot_up = False, g_conn_upp = False, g_udp_ep = False,
     g_udp_state = 0, g_udp_to = (0, 0), g_udp_host = [], g_udp_ok = 0, g_udp_fail = 0, g_udp_lasterr = 0\<rparr>"

abbreviation demo_ticks :: "bytes \<times> bytes \<times> bytes \<times> nat \<Rightarrow> u32" where
  "demo_ticks w \<equiv> of_nat (snd (snd (snd w)))"

lemma demo_ot_ok: "ot_ok demo_ot (\<lambda>w. fst (snd w)) (\<lambda>w. fst (snd (snd w)))"
  unfolding ot_ok_def
proof (intro allI impI)
  fix w c w' r
  assume "demo_ot w c = (w', r)"
  then show "fst (snd w') = fst (snd w) @ rx_gain c r \<and>
      fst (snd (snd w')) = fst (snd (snd w)) @ tx_gain c r \<and> answer_ok c r"
    by (cases c) (auto simp: demo_ot_def split: prod.splits if_splits)
qed

lemma demo_ot_progress: "sends_progress demo_ot"
  by (auto simp: sends_progress_def demo_ot_def split: prod.splits)

theorem ot_session_witness:
  "\<exists>out m' t'. ot_run 5 demo_ot demo_ticks [Poll, Poll, Poll, Take 1] (demo_mach ''hi'')
     (cq_tx_start 0 (cq_tx_new ''h'' 70 (Some ''/now''))) = Some (out, m', t') \<and>
   fst (snd (snd (world m'))) = ''/now'' @ [CR, LF] \<and> out @ data t' = ''hi''"
proof -
  let ?r = "ot_run 5 demo_ot demo_ticks [Poll, Poll, Poll, Take 1] (demo_mach ''hi'')
     (cq_tx_start 0 (cq_tx_new ''h'' 70 (Some ''/now'')))"
  have "map_option (\<lambda>(out, m, t). (out, data t, status t, fst (snd (world m)))) ?r =
      Some (''h'', ''i'', CQ_TX_DONE, ''hi'')"
    by code_simp
  then obtain out m' t' where r: "?r = Some (out, m', t')" "status t' = CQ_TX_DONE" "out @ data t' = ''hi''"
    by (cases ?r) auto
  have "fst (snd (snd (world m'))) = ''/now'' @ [CR, LF]"
    using ot_session [OF demo_ot_ok disjI1 [OF refl] r(1)] r(2) by (auto simp: demo_mach_def request_def)
  then show ?thesis using r(1,3) by blast
qed

text \<open>C21. A transaction's machine state, status, error and endpoint agree after every run, and a
transaction that has ended stays ended: whatever is done to it next makes no provider call, keeps
its status and its error, and takes bytes only from what was buffered.\<close>

theorem ot_ended_is_final:
  assumes "ot_ok ot rx tx" "t0 = cq_tx_new h p sel \<or> t0 = cq_tx_stream_new h p sel"
    "ot_run k ot ticks es m (cq_tx_start now t0) = Some (out, m', t')"
  shows "tx_ok t' \<and> (status t' \<noteq> CQ_TX_RUNNING \<longrightarrow>
    (\<exists>out2 t2. ot_run k ot ticks es2 m' t' = Some (out2, m', t2) \<and> status t2 = status t' \<and>
       error t2 = error t' \<and> out2 @ data t2 = data t'))"
proof -
  let ?t = "cq_tx_start now t0"
  note i = fresh_tx [OF assms(2), of now]
  have "tx (world m) = tx (world m) @ sent_part ?t" by (simp add: i(2))
  then have k: "tx_ok t'" using run_wire [OF assms(1,3) i(1)] by blast
  have "\<not> ep t'" if "status t' \<noteq> CQ_TX_RUNNING"
    using k that by (cases "status t'") (auto simp: tx_ok_def)
  with k show ?thesis using run_ended by blast
qed

theorem ot_ended_is_final_witness:
  "\<exists>out m' t'. ot_run 5 demo_ot demo_ticks [Poll, Poll, Poll] (demo_mach ''hi'')
     (cq_tx_start 0 (cq_tx_new ''h'' 70 (Some ''/now''))) = Some (out, m', t') \<and> \<not> ep t' \<and>
   (\<exists>out2 t2. ot_run 5 demo_ot demo_ticks [Cancel, Poll, Take 9] m' t' = Some (out2, m', t2) \<and> status t2 = CQ_TX_DONE)"
proof -
  let ?r = "ot_run 5 demo_ot demo_ticks [Poll, Poll, Poll] (demo_mach ''hi'')
     (cq_tx_start 0 (cq_tx_new ''h'' 70 (Some ''/now'')))"
  have "map_option (\<lambda>(out, m, t). (status t, ep t)) ?r = Some (CQ_TX_DONE, False)"
    by code_simp
  then obtain out m' t' where r: "?r = Some (out, m', t')" "status t' = CQ_TX_DONE" "\<not> ep t'"
    by (cases ?r) auto
  show ?thesis
    using ot_ended_is_final [OF demo_ot_ok disjI1 [OF refl] r(1), of "[Cancel, Poll, Take 9]"] r by auto
qed



text \<open>C23. A poll of a stream always returns, however fast the server sends: when a write that is not
refused accepts at least one byte, fuel for the high-water mark and the request is enough, and what
is buffered stays below the high-water mark plus one chunk.\<close>

theorem ot_stream_poll_returns:
  assumes "ot_ok ot rx tx" "sends_progress ot" "tx_ok t" "streaming t"
    "CQ_TX_STREAM_HIWAT + length (request (selector t)) < k"
    "length (data t) < CQ_TX_STREAM_HIWAT + CQ_TX_READ_CHUNK"
  shows "\<exists>m' t'. cq_tx_poll k ot ticks m t = Some (m', t') \<and>
    length (data t') < CQ_TX_STREAM_HIWAT + CQ_TX_READ_CHUNK"
  using poll_returns [OF assms(2,4,3,5)] poll_bounded [OF assms(1,3,4,6)] by blast

theorem ot_stream_poll_returns_witness:
  "\<exists>m' t'. cq_tx_poll 65541 demo_ot demo_ticks (demo_mach ''hi'')
     (cq_tx_start 0 (cq_tx_stream_new ''h'' 8000 (Some ''/s''))) = Some (m', t') \<and> length (data t') < 73728"
proof -
  let ?t = "cq_tx_start 0 (cq_tx_stream_new ''h'' 8000 (Some ''/s''))"
  have h: "streaming ?t" "CQ_TX_STREAM_HIWAT + length (request (selector ?t)) < 65541"
    "length (data ?t) < CQ_TX_STREAM_HIWAT + CQ_TX_READ_CHUNK"
    by (simp_all add: cq_tx_start_def cq_tx_stream_new_def cq_tx_new_def)
  show ?thesis
    using ot_stream_poll_returns [OF demo_ot_ok demo_ot_progress fresh_tx(1) [OF disjI2 [OF refl]] h] by simp
qed

text \<open>A rendered dotted quad is read back to the address it names, each number taken modulo
\<open>2^32\<close>: a number from 256 to \<open>2^32 - 1\<close> is refused, but one that wraps into range is
accepted as the small number it wraps to.\<close>

lemma dotted_quad_exact:
  "parse_dotted_quad (quad_str a b c d) =
     (if a mod 2 ^ 32 < 256 \<and> b mod 2 ^ 32 < 256 \<and> c mod 2 ^ 32 < 256 \<and> d mod 2 ^ 32 < 256
      then Some (of_nat (((a mod 2 ^ 32 * 256 + b mod 2 ^ 32) * 256 + c mod 2 ^ 32) * 256 + d mod 2 ^ 32))
      else None)"
proof -
  define r where "r n = n mod 2 ^ 32" for n :: nat
  have w: "(of_nat n :: u32) = of_nat (r n)" for n
    unfolding r_def by (simp only: word_of_nat_eq_iff take_bit_eq_mod len_of_numeral_defs mod_mod_trivial) simp
  have u: "unat (of_nat n :: u32) = r n" for n
    unfolding r_def by (simp only: unsigned_of_nat take_bit_eq_mod) simp
  have g: "(of_nat n :: u32) > 255 \<longleftrightarrow> \<not> r n < 256" for n
    unfolding word_less_nat_alt u by auto
  have p: "parse_dotted_quad (quad_str a b c d) =
      (if r a < 256 \<and> r b < 256 \<and> r c < 256 \<and> r d < 256
       then Some (push_bit 24 (of_nat (r a)) OR push_bit 16 (of_nat (r b)) OR push_bit 8 (of_nat (r c)) OR of_nat (r d))
       else None)"
    unfolding parse_quad_str g w [symmetric] by auto
  show ?thesis unfolding p using quad_number [of "r a" "r b" "r c" "r d"] unfolding r_def by presburger
qed

end
