(* ===== verification/AppText.thy ===== *)
theory AppText
  imports Pls Track Reflist
begin

text \<open>
  The text the application composes and reads (\<open>os9/casquinha.c\<close>): escaped selectors, stream
  URLs, the preferences file, list rows and the play-from request. A fixed buffer of \<open>n\<close> bytes
  holds at most \<open>n - 1\<close> characters; where the code computes a write position by hand, a
  position outside the buffer is the value \<open>None\<close>.
\<close>

subsection \<open>C library functions\<close>

text \<open>
  \<open>strchr\<close> and \<open>strrchr\<close> give the offset of the character; \<open>atoi\<close> of a number that
  does not fit a \<open>long\<close> saturates, as \<open>strtol\<close> does.
\<close>

definition strchr :: "cstr \<Rightarrow> char \<Rightarrow> nat option" where
  "strchr s c = (if c \<in> set s then Some (length (takeWhile (\<lambda>x. x \<noteq> c) s)) else None)"

definition strrchr :: "cstr \<Rightarrow> char \<Rightarrow> nat option" where
  "strrchr s c = (case strchr (rev s) c of None \<Rightarrow> None | Some i \<Rightarrow> Some (length s - 1 - i))"

fun atoi_sign :: "cstr \<Rightarrow> bool \<times> cstr" where
  "atoi_sign (c # s) = (if c = CHR ''-'' then (True, s) else if c = CHR ''+'' then (False, s) else (False, c # s))"
| "atoi_sign [] = (False, [])"

definition atoi :: "cstr \<Rightarrow> int" where
  "atoi s = (case atoi_sign (dropWhile is_ws s) of (neg, ds) \<Rightarrow>
     let v = int (dec_val (takeWhile is_digit ds))
     in if neg then max (- (2 ^ 31)) (- v) else min (2 ^ 31 - 1) v)"

subsection \<open>Percent escapes\<close>

definition hex_digit :: "nat \<Rightarrow> char" where
  "hex_digit n = ''0123456789ABCDEF'' ! n"

definition url_safe :: "bool \<Rightarrow> char \<Rightarrow> bool" where
  "url_safe keepColon c \<longleftrightarrow>
     (65 \<le> u8 c \<and> u8 c \<le> 90) \<or> (97 \<le> u8 c \<and> u8 c \<le> 122) \<or> is_digit c \<or>
     c = CHR ''-'' \<or> c = CHR ''_'' \<or> c = CHR ''.'' \<or> c = CHR ''~'' \<or> (keepColon \<and> c = CHR '':'')"

definition esc_char :: "bool \<Rightarrow> char \<Rightarrow> cstr" where
  "esc_char keepColon c =
     (if url_safe keepColon c then [c]
      else [CHR ''%'', hex_digit (nat (drop_bit 4 (u8 c))), hex_digit (nat (u8 c AND 15))])"

fun esc_loop :: "cstr \<Rightarrow> nat \<Rightarrow> nat \<Rightarrow> bool \<Rightarrow> cstr" where
  "esc_loop [] max_n out_n keepColon = []"
| "esc_loop (c # s) max_n out_n keepColon =
     (if out_n + 3 < max_n
      then esc_char keepColon c @ esc_loop s max_n (out_n + length (esc_char keepColon c)) keepColon
      else [])"

definition EscInto :: "cstr \<Rightarrow> nat \<Rightarrow> bool \<Rightarrow> cstr" where
  "EscInto s max_n keepColon = esc_loop s max_n 0 keepColon"

subsection \<open>Stream URLs\<close>

definition ParseHttpUrl :: "cstr \<Rightarrow> nat \<Rightarrow> nat \<Rightarrow> (cstr \<times> int \<times> cstr) option" where
  "ParseHttpUrl url hcap pcap =
     (if take 7 url \<noteq> ''http://'' then None
      else let p = drop 7 url in
        case strchr p (CHR ''/'') of
          None \<Rightarrow> None
        | Some slash \<Rightarrow>
            (let (port, hn) = (case strchr p (CHR '':'') of
                   Some colon \<Rightarrow> if colon < slash then (atoi (drop (colon + 1) p), colon) else (80, slash)
                 | None \<Rightarrow> (80, slash));
                 path = drop slash p
             in if hn = 0 \<or> hn \<ge> hcap \<or> length path \<ge> pcap then None
                else if port \<le> 0 \<or> port \<ge> 65536 then None
                else Some (take hn p, port, path)))"

definition stream_request :: "cstr \<Rightarrow> cstr" where
  "stream_request path = fits 192 (''GET '' @ path @ '' HTTP/1.0'' @ [CR, LF])"

definition FmtTime :: "int \<Rightarrow> cstr" where
  "FmtTime ms =
     (let s = tdiv ms 1000; r = s - tdiv s 60 * 60; t = int_str r
      in fits 16 (int_str (tdiv s 60) @ '':'' @ (if length t < 2 then CHR ''0'' # t else t)))"

subsection \<open>The preferences file\<close>

text \<open>\<open>strtok\<close> over CR and LF: the non-empty runs of other characters.\<close>

function strtok_lines :: "cstr \<Rightarrow> cstr list" where
  "strtok_lines [] = []"
| "strtok_lines (c # s) =
     (if eol c then strtok_lines s
      else (c # takeWhile (\<lambda>x. \<not> eol x) s) # strtok_lines (dropWhile (\<lambda>x. \<not> eol x) s))"
  by pat_completeness auto
termination by (relation "measure length") (auto simp: le_imp_less_Suc length_dropWhile_le)

definition valid_port :: "int \<Rightarrow> bool" where
  "valid_port p \<longleftrightarrow> 0 < p \<and> p < 65536"

primrec prefs_scan :: "cstr list \<Rightarrow> cstr \<Rightarrow> int \<Rightarrow> cstr \<times> int" where
  "prefs_scan [] h pt = (h, pt)"
| "prefs_scan (l # ls) h pt =
     (let p = dropWhile (\<lambda>c. c = CHR '' '' \<or> c = TAB) l in
      if p = [] \<or> hd p = CHR ''#'' then prefs_scan ls h pt
      else case strrchr p (CHR '':'') of
        Some colon \<Rightarrow>
          (let v = atoi (drop (colon + 1) p)
           in (if take colon p \<noteq> [] then fits 64 (take colon p) else h, if valid_port v then v else pt))
      | None \<Rightarrow>
          if is_digit (hd p) then (let v = atoi p in (h, if valid_port v then v else pt))
          else prefs_scan ls (fits 64 p) pt)"

text \<open>The file's contents, or None when it cannot be opened; at most 255 bytes are read.\<close>

definition LoadPrefs :: "bytes option \<Rightarrow> cstr \<times> int \<Rightarrow> cstr \<times> int" where
  "LoadPrefs file hp =
     (case file of
        None \<Rightarrow> hp
      | Some bs \<Rightarrow> if bs = [] then hp else prefs_scan (strtok_lines (cview (take 255 bs))) (fst hp) (snd hp))"

definition prefs_line1 :: cstr where
  "prefs_line1 = ''# Casquinha backend. Edit host:port, save, switch back to Casquinha.''"

definition prefs_line2 :: cstr where
  "prefs_line2 = ''# gopher control endpoint (dotted-quad or hostname):port''"

definition prefs_text :: "cstr \<Rightarrow> int \<Rightarrow> cstr" where
  "prefs_text h p = prefs_line1 @ [CR] @ prefs_line2 @ [CR] @ h @ '':'' @ int_str p @ [CR]"

text \<open>
  The bytes written to the file: as many as \<open>snprintf\<close> wanted to print, from a buffer that holds
  the first 191 of them and the NUL; \<open>mem\<close> is what lies behind that NUL in memory.
\<close>

definition SavePrefs :: "bytes \<Rightarrow> cstr \<Rightarrow> int \<Rightarrow> bytes" where
  "SavePrefs mem h p =
     (let text = prefs_text h p in take (length text) (fits 192 text @ NUL # mem))"

text \<open>The argument of \<open>server:\<close>: None keeps the endpoint.\<close>

definition script_server :: "cstr \<Rightarrow> int \<Rightarrow> (cstr \<times> int) option" where
  "script_server arg gport =
     (let (host, port) = (case strrchr arg (CHR '':'') of
          Some colon \<Rightarrow>
            (let p = atoi (drop (colon + 1) arg)
             in (take (min colon 63) arg, if valid_port p then p else gport))
        | None \<Rightarrow> (fits 64 arg, gport))
      in if host \<noteq> [] then Some (fits 64 host, port) else None)"

subsection \<open>Text encodings\<close>

text \<open>The system's converter, when it could be created; it answers None on an error.\<close>

type_synonym converter = "(cstr \<Rightarrow> nat \<Rightarrow> cstr option) option"

definition ToMacRoman :: "converter \<Rightarrow> cstr \<Rightarrow> nat \<Rightarrow> cstr" where
  "ToMacRoman conv s dstmax =
     (case conv of Some f \<Rightarrow> (case f s dstmax of Some r \<Rightarrow> r | None \<Rightarrow> take dstmax s)
      | None \<Rightarrow> take dstmax s)"

definition ToUTF8 :: "converter \<Rightarrow> cstr \<Rightarrow> nat \<Rightarrow> cstr" where
  "ToUTF8 conv s dstmax =
     (case conv of Some f \<Rightarrow> (case f s (dstmax - 1) of Some r \<Rightarrow> r | None \<Rightarrow> fits dstmax s)
      | None \<Rightarrow> fits dstmax s)"

subsection \<open>Reading escapes back\<close>

definition hex_val :: "char \<Rightarrow> nat" where
  "hex_val c = nat (if is_digit c then u8 c - 48 else u8 c - 55)"

fun unesc :: "cstr \<Rightarrow> cstr" where
  "unesc (c # h # l # s) = (if c = CHR ''%'' then char_of (hex_val h * 16 + hex_val l) # unesc s else c # unesc (h # l # s))"
| "unesc (c # s) = c # unesc s"
| "unesc [] = []"

lemma hex_digit_val: "n < 16 \<Longrightarrow> hex_val (hex_digit n) = n"
proof -
  assume "n < 16"
  then have "n \<in> set [0..<16]" by simp
  moreover have "\<forall>n \<in> set [0..<16]. hex_val (hex_digit n) = n" by code_simp
  ultimately show ?thesis by blast
qed

lemma hex_digit_safe: "n < 16 \<Longrightarrow> url_safe k (hex_digit n)"
proof -
  assume "n < 16"
  then have "n \<in> set [0..<16]" by simp
  moreover have "\<forall>n \<in> set [0..<16]. url_safe False (hex_digit n)" by code_simp
  ultimately show ?thesis by (auto simp: url_safe_def)
qed

lemma nibbles:
  "nat (drop_bit 4 (u8 c)) < 16" "nat (u8 c AND 15) < 16"
  "nat (drop_bit 4 (u8 c)) * 16 + nat (u8 c AND 15) = of_char c"
proof -
  have "u8 c AND mask 4 = u8 c mod 16" by (simp add: take_bit_eq_mask [symmetric] take_bit_eq_mod)
  then have a: "u8 c AND 15 = u8 c mod 16" by (simp add: mask_eq_exp_minus_1)
  have d: "drop_bit 4 (u8 c) = u8 c div 16" by (simp add: drop_bit_eq_div)
  define n where "n = (of_char c :: nat)"
  have n: "u8 c = int n" "n < 256" using u8_bounds(2) [of c] by (simp_all add: u8_nat n_def)
  have e: "nat (int n div 16) = n div 16" "nat (int n mod 16) = n mod 16"
    by (metis nat_int of_nat_numeral zdiv_int, metis nat_int of_nat_numeral zmod_int)
  show "nat (drop_bit 4 (u8 c)) < 16" "nat (u8 c AND 15) < 16"
    "nat (drop_bit 4 (u8 c)) * 16 + nat (u8 c AND 15) = of_char c"
    unfolding a d unfolding n(1) e n_def [symmetric] using n(2) by simp_all
qed

lemma unesc_cons: "c \<noteq> CHR ''%'' \<Longrightarrow> unesc (c # s) = c # unesc s"
  by (cases s; cases "tl s") auto

lemma percent_unsafe: "\<not> url_safe k CHR ''%''"
  by (simp add: url_safe_def is_digit_def u8_def)

lemma unesc_esc_char: "unesc (esc_char k c @ s) = c # unesc s"
proof (cases "url_safe k c")
  case True
  then have "c \<noteq> CHR ''%''" using percent_unsafe by blast
  then show ?thesis using True by (simp add: esc_char_def unesc_cons)
next
  case False
  then show ?thesis using nibbles [of c] by (simp add: esc_char_def hex_digit_val)
qed

lemma esc_char_length: "length (esc_char k c) \<le> 3" "0 < length (esc_char k c)"
  by (simp_all add: esc_char_def)

lemma unesc_esc_loop: "\<exists>n. unesc (esc_loop s m b k) = take n s \<and> (b + 3 * length s < m \<longrightarrow> n = length s)"
proof (induction s arbitrary: b)
  case (Cons c s)
  show ?case
  proof (cases "b + 3 < m")
    case True
    obtain n where "unesc (esc_loop s m (b + length (esc_char k c)) k) = take n s"
      "b + length (esc_char k c) + 3 * length s < m \<longrightarrow> n = length s" using Cons.IH by blast
    then show ?thesis using True esc_char_length(1) [of k c]
      by (intro exI [of _ "Suc n"]) (auto simp: unesc_esc_char)
  next
    case False
    then show ?thesis by (intro exI [of _ 0]) auto
  qed
qed auto

lemma esc_loop_length: "b < m \<Longrightarrow> b + length (esc_loop s m b k) < m"
proof (induction s arbitrary: b)
  case (Cons c s)
  show ?case
  proof (cases "b + 3 < m")
    case True
    then have "b + length (esc_char k c) < m" using esc_char_length(1) [of k c] by linarith
    from Cons.IH [OF this] True show ?thesis by simp
  qed (use Cons.prems in simp)
qed simp

lemma esc_loop_chars: "c \<in> set (esc_loop s m b k) \<Longrightarrow> url_safe k c \<or> c = CHR ''%''"
proof (induction s arbitrary: b)
  case (Cons d s)
  then show ?case using nibbles [of d]
    by (auto simp: esc_char_def hex_digit_safe split: if_splits)
qed simp

lemma url_safe_printable: "url_safe k c \<Longrightarrow> 32 < u8 c \<and> u8 c < 127"
  by (auto simp: url_safe_def is_digit_def u8_def)

text \<open>An escaped string fits its buffer, holds only printable characters other than space -- so no
query or identifier can end the request line it is put into -- and reads back to a prefix of what
was escaped, to all of it when the buffer has three bytes for every character.\<close>

lemma escape_roundtrip:
  assumes "0 < max_n"
  shows "length (EscInto s max_n k) < max_n \<and> list_all (\<lambda>c. 32 < u8 c \<and> u8 c < 127) (EscInto s max_n k) \<and>
    (\<exists>n. unesc (EscInto s max_n k) = take n s \<and> (3 * length s < max_n \<longrightarrow> n = length s))"
proof -
  have "list_all (\<lambda>c. 32 < u8 c \<and> u8 c < 127) (EscInto s max_n k)"
    unfolding list_all_iff EscInto_def using esc_loop_chars url_safe_printable
    by (auto simp: u8_def) fastforce+
  then show ?thesis
    using esc_loop_length [OF assms, of s k] unesc_esc_loop [of s max_n 0 k] by (simp add: EscInto_def)
qed

subsection \<open>URLs and the preferences file\<close>

lemma strchr_None: "strchr s c = None \<longleftrightarrow> c \<notin> set s"
  by (simp add: strchr_def)

lemma strchr_append:
  assumes "c \<notin> set a" shows "strchr (a @ c # b) c = Some (length a)"
proof -
  have "takeWhile (\<lambda>x. x \<noteq> c) (a @ c # b) = a @ takeWhile (\<lambda>x. x \<noteq> c) (c # b)"
    by (rule takeWhile_append2) (use assms in auto)
  then show ?thesis by (simp add: strchr_def)
qed

lemma strchr_split:
  assumes "strchr s c = Some i"
  obtains a b where "s = a @ c # b" "c \<notin> set a" "i = length a"
proof -
  have "c \<in> set s" using assms by (simp add: strchr_def split: if_splits)
  then obtain a b where "s = a @ c # b" "c \<notin> set a" using split_list_first by fastforce
  then show ?thesis using that strchr_append [of c a b] assms by simp
qed

lemma strrchr_append: "c \<notin> set b \<Longrightarrow> strrchr (a @ c # b) c = Some (length a)"
  using strchr_append [of c "rev b" "rev a"] by (simp add: strrchr_def)

lemma atoi_nat_str:
  assumes "rest = [] \<or> \<not> is_digit (hd rest)" "n < 2 ^ 31"
  shows "atoi (nat_str n @ rest) = int n"
proof -
  obtain c ds where n: "nat_str n = c # ds" by (metis neq_Nil_conv nat_str_nonempty)
  then have c: "is_digit c" using nat_str_digits [of c n] by simp
  then have d: "dropWhile is_ws (nat_str n @ rest) = nat_str n @ rest" using n digit_not_ws by simp
  have "c \<noteq> CHR ''-''" "c \<noteq> CHR ''+''" using c by (auto simp: is_digit_def u8_def)
  then have "atoi_sign (nat_str n @ rest) = (False, nat_str n @ rest)" using n by simp
  then show ?thesis using digits_before(1) [OF assms(1)] assms(2) by (simp add: atoi_def d)
qed

lemma url_split:
  assumes "drop 7 url = h @ mid @ CHR ''/'' # rest" "CHR ''/'' \<notin> set (h @ mid)" "CHR '':'' \<notin> set h"
    "mid = [] \<or> hd mid = CHR '':''"
  shows "strchr (drop 7 url) (CHR ''/'') = Some (length h + length mid)"
    "(case strchr (drop 7 url) (CHR '':'') of
        Some colon \<Rightarrow> if colon < length h + length mid then (atoi (drop (colon + 1) (drop 7 url)), colon)
          else (80, length h + length mid)
      | None \<Rightarrow> (80, length h + length mid)) =
     (if mid = [] then 80 else atoi (tl mid @ CHR ''/'' # rest), length h)"
proof -
  show "strchr (drop 7 url) (CHR ''/'') = Some (length h + length mid)"
    using strchr_append [OF assms(2), of rest] assms(1) by simp
  show "(case strchr (drop 7 url) (CHR '':'') of
        Some colon \<Rightarrow> if colon < length h + length mid then (atoi (drop (colon + 1) (drop 7 url)), colon)
          else (80, length h + length mid)
      | None \<Rightarrow> (80, length h + length mid)) =
     (if mid = [] then 80 else atoi (tl mid @ CHR ''/'' # rest), length h)"
  proof (cases mid)
    case (Cons c m)
    then have m: "mid = CHR '':'' # m" using assms(4) by simp
    have "strchr (drop 7 url) (CHR '':'') = Some (length h)"
      using strchr_append [OF assms(3), of "m @ CHR ''/'' # rest"] assms(1) m by simp
    then show ?thesis using m assms(1) by simp
  next
    case Nil
    have "\<not> colon < length h" if c: "strchr (drop 7 url) (CHR '':'') = Some colon" for colon
    proof
      assume l: "colon < length h"
      obtain a b where "drop 7 url = a @ CHR '':'' # b" "colon = length a" using strchr_split [OF c] by metis
      then have "drop 7 url ! colon = CHR '':''" by simp
      then have "h ! colon = CHR '':''" using assms(1) l by (simp add: nth_append)
      then show False using assms(3) l by (metis nth_mem)
    qed
    then show ?thesis using Nil by (auto split: option.split)
  qed
qed

text \<open>A stream URL is accepted exactly when it is \<open>http://\<close>, a non-empty host without slash or
colon that fits its buffer, an optional port -- 80 when absent, a number from 1 to 65535 otherwise
-- and a path from the first slash on that fits its own; the parts are exactly what is returned.\<close>

lemma url_parse_exact:
  "ParseHttpUrl url hcap pcap = Some (h, p, path) \<longleftrightarrow>
     (\<exists>mid. url = ''http://'' @ h @ mid @ path \<and> h \<noteq> [] \<and> length h < hcap \<and> length path < pcap \<and>
        path \<noteq> [] \<and> hd path = CHR ''/'' \<and> CHR ''/'' \<notin> set (h @ mid) \<and> CHR '':'' \<notin> set h \<and>
        0 < p \<and> p < 65536 \<and> (mid = [] \<and> p = 80 \<or> mid \<noteq> [] \<and> hd mid = CHR '':'' \<and> p = atoi (tl mid @ path)))"
    (is "?l \<longleftrightarrow> (\<exists>mid. ?r mid)")
proof
  assume "\<exists>mid. ?r mid"
  then obtain mid where r: "?r mid" by blast
  then obtain rest where path: "path = CHR ''/'' # rest" by (cases path) auto
  have d: "drop 7 url = h @ mid @ CHR ''/'' # rest" "take 7 url = ''http://''"
    "drop (length h + length mid) (drop 7 url) = path" "take (length h) (drop 7 url) = h"
    using r path by simp_all
  have m: "mid = [] \<or> hd mid = CHR '':''" "CHR ''/'' \<notin> set (h @ mid)" "CHR '':'' \<notin> set h"
    "p = (if mid = [] then 80 else atoi (tl mid @ CHR ''/'' # rest))" using r path by auto
  show ?l unfolding ParseHttpUrl_def Let_def url_split(1) [OF d(1) m(2,3,1)]
    unfolding option.case url_split(2) [OF d(1) m(2,3,1)] m(4) [symmetric] using r d(2-4) by simp
next
  assume l: ?l
  have t: "take 7 url = ''http://''" using l by (simp add: ParseHttpUrl_def split: if_splits)
  then obtain slash where s: "strchr (drop 7 url) (CHR ''/'') = Some slash"
    using l by (cases "strchr (drop 7 url) (CHR ''/'')") (simp_all add: ParseHttpUrl_def Let_def)
  then obtain hm rest where hm: "drop 7 url = hm @ CHR ''/'' # rest" "CHR ''/'' \<notin> set hm" by (rule strchr_split)
  obtain g mid where g: "hm = g @ mid" "CHR '':'' \<notin> set g" "mid = [] \<or> hd mid = CHR '':''"
  proof (cases "CHR '':'' \<in> set hm")
    case True
    then obtain a b where "hm = a @ CHR '':'' # b" "CHR '':'' \<notin> set a" using split_list_first by fastforce
    then show ?thesis using that [of a "CHR '':'' # b"] by simp
  qed (use that [of hm "[]"] in simp)
  have d: "drop 7 url = g @ mid @ CHR ''/'' # rest" "CHR ''/'' \<notin> set (g @ mid)" using hm g(1) by simp_all
  have d': "drop (length g + length mid) (drop 7 url) = CHR ''/'' # rest" "take (length g) (drop 7 url) = g"
    using d(1) by simp_all
  note l' = l [unfolded ParseHttpUrl_def Let_def url_split(1) [OF d g(2,3)],
      unfolded option.case url_split(2) [OF d g(2,3)] d' prod.case]
  have e: "h = g" "path = CHR ''/'' # rest" "p = (if mid = [] then 80 else atoi (tl mid @ CHR ''/'' # rest))"
    "g \<noteq> []" "length g < hcap" "length path < pcap" "0 < p" "p < 65536"
    using l' by (auto split: if_splits)
  have "url = ''http://'' @ h @ mid @ path"
    using append_take_drop_id [of 7 url] t d(1) e(1,2) by simp
  then have "?r mid" using e d(2) g(2,3) by auto
  then show "\<exists>mid. ?r mid" ..
qed

lemma strtok_line:
  assumes "a \<noteq> []" "\<forall>c \<in> set a. \<not> eol c" "eol e"
  shows "strtok_lines (a @ e # s) = a # strtok_lines s"
proof -
  obtain c a' where a: "a = c # a'" using assms(1) by (cases a) auto
  have "takeWhile (\<lambda>x. \<not> eol x) (a' @ e # s) = a'" "dropWhile (\<lambda>x. \<not> eol x) (a' @ e # s) = e # s"
    using assms(2,3) a by (auto simp: takeWhile_append2 dropWhile_append2)
  then show ?thesis using assms(2,3) a by auto
qed

definition prefs_host :: "cstr \<Rightarrow> bool" where
  "prefs_host h \<longleftrightarrow> h \<noteq> [] \<and> length h < 64 \<and> (\<forall>c \<in> set h. \<not> eol c \<and> c \<noteq> NUL) \<and>
     hd h \<noteq> CHR '' '' \<and> hd h \<noteq> TAB \<and> hd h \<noteq> CHR ''#''"

lemma prefs_lines:
  "hd prefs_line1 = CHR ''#''" "hd prefs_line2 = CHR ''#''" "length prefs_line1 = 68" "length prefs_line2 = 56"
  "list_all (\<lambda>c. \<not> eol c \<and> c \<noteq> NUL) prefs_line1" "list_all (\<lambda>c. \<not> eol c \<and> c \<noteq> NUL) prefs_line2"
  by code_simp+

lemma prefs_comment: "hd l = CHR ''#'' \<Longrightarrow> prefs_scan (l # ls) h p = prefs_scan ls h p"
  by (cases l) (simp_all add: Let_def)

lemma prefs_endpoint:
  assumes "prefs_host h" "valid_port p"
  shows "prefs_scan [h @ CHR '':'' # int_str p] h0 p0 = (h, p)"
proof -
  have n: "int_str p = nat_str (nat p)" using assms(2) by (simp add: int_str_def valid_port_def)
  have "CHR '':'' \<notin> set (int_str p)" using nat_str_digits [of "CHR '':''" "nat p"] by (auto simp: n is_digit_def u8_def)
  from strrchr_append [OF this, of h] have c: "strrchr (h @ CHR '':'' # int_str p) (CHR '':'') = Some (length h)" .
  obtain d g where h: "h = d # g" using assms(1) by (cases h) (auto simp: prefs_host_def)
  have w: "dropWhile (\<lambda>c. c = CHR '' '' \<or> c = TAB) (h @ CHR '':'' # int_str p) = h @ CHR '':'' # int_str p"
    using assms(1) h by (simp add: prefs_host_def)
  have "nat p < 2 ^ 31" using assms(2) by (auto simp: valid_port_def nat_less_iff)
  then have v: "atoi (int_str p) = p"
    using atoi_nat_str [of "[]" "nat p"] assms(2) by (simp add: n valid_port_def)
  have "h @ CHR '':'' # int_str p \<noteq> []" "hd (h @ CHR '':'' # int_str p) \<noteq> CHR ''#''"
    using assms(1) h by (simp_all add: prefs_host_def)
  then show ?thesis unfolding prefs_scan.simps Let_def w c option.case
    using v assms by (simp add: fits_id prefs_host_def)
qed

lemma prefs_text_length: "length (prefs_text h p) = 128 + length h + length (int_str p)"
  by (simp add: prefs_text_def prefs_lines)

lemma int_str_chars: "valid_port p \<Longrightarrow> c \<in> set (int_str p) \<Longrightarrow> is_digit c"
  using nat_str_digits [of c "nat p"] by (simp add: int_str_def valid_port_def)

lemma int_str_plain_line: "valid_port p \<Longrightarrow> c \<in> set (int_str p) \<Longrightarrow> \<not> eol c \<and> c \<noteq> NUL"
proof -
  assume "valid_port p" "c \<in> set (int_str p)"
  then have "is_digit c" by (rule int_str_chars)
  moreover have "\<not> is_digit CR" "\<not> is_digit LF" "\<not> is_digit NUL" by (simp_all add: is_digit_def u8_def)
  ultimately show "\<not> eol c \<and> c \<noteq> NUL" by metis
qed

lemma prefs_host_line: "prefs_host h \<Longrightarrow> c \<in> set h \<Longrightarrow> \<not> eol c \<and> c \<noteq> NUL"
  by (simp add: prefs_host_def)

lemma strtok_three:
  assumes "a \<noteq> []" "b \<noteq> []" "c \<noteq> []" "\<forall>x \<in> set a. \<not> eol x" "\<forall>x \<in> set b. \<not> eol x" "\<forall>x \<in> set c. \<not> eol x"
  shows "strtok_lines (a @ CR # b @ CR # c @ CR # []) = [a, b, c]"
  using assms strtok_line [of a CR "b @ CR # c @ CR # []"] strtok_line [of b CR "c @ CR # []"] strtok_line [of c CR "[]"]
  by simp

lemma prefs_text_strtok:
  assumes "prefs_host h" "valid_port p"
  shows "strtok_lines (prefs_text h p) = [prefs_line1, prefs_line2, h @ CHR '':'' # int_str p]"
proof -
  have t: "prefs_text h p = prefs_line1 @ CR # prefs_line2 @ CR # (h @ CHR '':'' # int_str p) @ CR # []"
    by (simp add: prefs_text_def)
  have c: "\<forall>c \<in> set (h @ CHR '':'' # int_str p). \<not> eol c"
  proof
    fix c assume "c \<in> set (h @ CHR '':'' # int_str p)"
    then consider "c \<in> set h" | "c = CHR '':''" | "c \<in> set (int_str p)" by auto
    then show "\<not> eol c" using prefs_host_line [OF assms(1)] int_str_plain_line [OF assms(2)] by cases simp_all
  qed
  have "prefs_line1 \<noteq> []" "prefs_line2 \<noteq> []" using prefs_lines(3,4) by auto
  moreover have "\<forall>c \<in> set prefs_line1. \<not> eol c" "\<forall>c \<in> set prefs_line2. \<not> eol c"
    using prefs_lines(5,6) unfolding list_all_iff by metis+
  moreover have "h @ CHR '':'' # int_str p \<noteq> []" by simp
  ultimately show ?thesis unfolding t using c by (intro strtok_three)
qed

text \<open>C40. What the application saves it reads back: the same host and port, whatever endpoint was in
force before. It holds as long as the host and the port's digits are at most 63 characters; beyond
that the saved text does not fit the 192-byte buffer, and the file gets the cut-off text followed
by bytes from behind the buffer's string.\<close>

theorem prefs_roundtrip:
  assumes "prefs_host h" "valid_port p"
  shows "(length h + length (int_str p) \<le> 63 \<longrightarrow> LoadPrefs (Some (SavePrefs mem h p)) hp = (h, p)) \<and>
    (length h + length (int_str p) > 63 \<longrightarrow>
       SavePrefs mem h p = take 191 (prefs_text h p) @
         take (length h + length (int_str p) - 63) (NUL # mem))"
proof (intro conjI impI)
  assume l: "length h + length (int_str p) \<le> 63"
  have s: "SavePrefs mem h p = prefs_text h p"
    using l prefs_text_length [of h p] by (simp add: SavePrefs_def fits_def Let_def)
  have "NUL \<notin> set prefs_line1" "NUL \<notin> set prefs_line2" "NUL \<notin> set h" "NUL \<notin> set (int_str p)"
    using prefs_host_line [OF assms(1)] int_str_plain_line [OF assms(2)] prefs_lines(5,6)
    unfolding list_all_iff by blast+
  then have "NUL \<notin> set (prefs_text h p)" by (simp add: prefs_text_def)
  then have c: "cview (take 255 (prefs_text h p)) = prefs_text h p"
    using l prefs_text_length [of h p] by (simp add: cview_id)
  have "prefs_text h p \<noteq> []" using prefs_text_length [of h p] by auto
  then show "LoadPrefs (Some (SavePrefs mem h p)) hp = (h, p)"
    using prefs_endpoint [OF assms, of "fst hp" "snd hp"]
    unfolding LoadPrefs_def s option.case c prefs_text_strtok [OF assms]
      prefs_comment [OF prefs_lines(1)] prefs_comment [OF prefs_lines(2)] by simp
next
  assume "length h + length (int_str p) > 63"
  then show "SavePrefs mem h p = take 191 (prefs_text h p) @ take (length h + length (int_str p) - 63) (NUL # mem)"
    using prefs_text_length [of h p] by (simp add: SavePrefs_def fits_def Let_def)
qed

theorem prefs_roundtrip_witness:
  "LoadPrefs (Some (SavePrefs [] ''192.0.2.10'' 70)) (''old.host'', 7070) = (''192.0.2.10'', 70)"
proof -
  have h: "prefs_host ''192.0.2.10''" "valid_port 70" by (simp_all add: prefs_host_def valid_port_def)
  have "length (int_str 70) = 2" by (simp add: int_str_def nat_str.simps)
  then show ?thesis using prefs_roundtrip [OF h, of "[]" "(''old.host'', 7070)"] by simp
qed

end
