(* ===== verification/AppLists.thy ===== *)
theory AppLists
  imports AppText
begin

text \<open>
  The search results and the queue of the application window (\<open>os9/casquinha.c\<close>): the rows the
  lists show, what a clicked row stands for, the row that plays next, and the request that hands the
  server a run of tracks.
\<close>

record results =
  gSearchItems :: cq_track_list
  gSearchArtists :: cq_ref_list
  gSearchAlbums :: cq_ref_list
  gArtistAlbums :: cq_ref_list
  gAlbumBrowse :: bool
  gBrowseArtist :: cstr
  gQueueItems :: cq_track_list

datatype cq_row_kind = CQ_ROW_ARTIST | CQ_ROW_ALBUM | CQ_ROW_TRACK | CQ_ROW_BACK | CQ_ROW_NONE

subsection \<open>Rows\<close>

definition or_else :: "cstr option \<Rightarrow> cstr \<Rightarrow> cstr" where
  "or_else s d = (case s of Some t \<Rightarrow> t | None \<Rightarrow> d)"

definition track_label :: "cq_track_item \<Rightarrow> cstr" where
  "track_label it = fits 256 (or_else (it_track it) ''?'' @ '' - '' @ or_else (it_artist it) '''')"

text \<open>The rows of the queue list, and of the result list.\<close>

definition FillList :: "converter \<Rightarrow> cq_track_list \<Rightarrow> cstr list" where
  "FillList conv l = map (\<lambda>it. ToMacRoman conv (track_label it) 260) (titems l)"

definition AddResultRow :: "converter \<Rightarrow> cstr \<Rightarrow> cstr" where
  "AddResultRow conv t = ToMacRoman conv t 300"

definition FillResults :: "converter \<Rightarrow> 'a results_scheme \<Rightarrow> cstr list" where
  "FillResults conv s = map (AddResultRow conv)
     (if gAlbumBrowse s then
        fits 256 (''< '' @ (if gBrowseArtist s \<noteq> [] then gBrowseArtist s else ''voltar'')) #
        map (\<lambda>it. fits 256 (''  album: '' @ or_else (ref_name it) ''?'')) (ritems (gArtistAlbums s))
      else
        map (\<lambda>it. fits 256 (''artista: '' @ or_else (ref_name it) ''?'')) (ritems (gSearchArtists s)) @
        map (\<lambda>it. fits 256 (''album: '' @ or_else (ref_name it) ''?'')) (ritems (gSearchAlbums s)) @
        map track_label (titems (gSearchItems s)))"

text \<open>
  A row's kind and its index in that kind's list, None where the source leaves the index alone.
\<close>

definition ResultKindAt :: "'a results_scheme \<Rightarrow> int \<Rightarrow> cq_row_kind \<times> nat option" where
  "ResultKindAt s row =
     (if row < 0 then (CQ_ROW_NONE, None)
      else
        (let r = nat row in
         if gAlbumBrowse s then
           if r = 0 then (CQ_ROW_BACK, None)
           else if r - 1 < length (ritems (gArtistAlbums s)) then (CQ_ROW_ALBUM, Some (r - 1))
           else (CQ_ROW_NONE, None)
         else if r < length (ritems (gSearchArtists s)) then (CQ_ROW_ARTIST, Some r)
         else
           (let r = r - length (ritems (gSearchArtists s)) in
            if r < length (ritems (gSearchAlbums s)) then (CQ_ROW_ALBUM, Some r)
            else
              (let r = r - length (ritems (gSearchAlbums s)) in
               if r < length (titems (gSearchItems s)) then (CQ_ROW_TRACK, Some r)
               else (CQ_ROW_NONE, None)))))"

subsection \<open>The next row\<close>

definition uri_id :: "cstr option \<Rightarrow> cstr option" where
  "uri_id u = (case u of None \<Rightarrow> None
     | Some u \<Rightarrow> (case strrchr u (CHR '':'') of None \<Rightarrow> None | Some i \<Rightarrow> Some (drop (i + 1) u)))"

fun next_row_loop :: "cq_track_item list \<Rightarrow> nat \<Rightarrow> nat \<Rightarrow> cstr \<Rightarrow> int" where
  "next_row_loop [] i count track_id = 0"
| "next_row_loop (it # its) i count track_id =
     (if uri_id (it_uri it) = Some track_id then (if i + 1 < count then int (i + 1) else -1)
      else next_row_loop its (i + 1) count track_id)"

definition QueueNextRow :: "cq_track_list \<Rightarrow> cstr option \<Rightarrow> int" where
  "QueueNextRow q track_id =
     (if length (titems q) = 0 then -1
      else case track_id of None \<Rightarrow> 0
        | Some tid \<Rightarrow> next_row_loop (titems q) 0 (length (titems q)) tid)"

subsection \<open>The play-from request\<close>

text \<open>
  The selector is built in 900 bytes with a hand-kept position \<open>pos\<close>, advanced by what each
  \<open>snprintf\<close> wanted to print; \<open>sel\<close> is what the buffer holds, \<open>n\<close> the number of ids.
\<close>

fun from_loop :: "cq_track_item list \<Rightarrow> cstr \<Rightarrow> nat \<Rightarrow> nat \<Rightarrow> cstr \<times> nat" where
  "from_loop [] sel pos n = (sel, pos)"
| "from_loop (it # its) sel pos n =
     (if n < 24 then
        (case uri_id (it_uri it) of
           None \<Rightarrow> from_loop its sel pos n
         | Some d \<Rightarrow>
             if d = [] then from_loop its sel pos n
             else if pos + length d + 16 \<ge> 900 then (sel, pos)
             else from_loop its (sel @ CHR '','' # d) (pos + 1 + length d) (n + 1))
      else (sel, pos))"

abbreviation from_prefix :: cstr where "from_prefix \<equiv> ''/spot/api/1/play/from?ids=''"

definition from_sel :: "cstr \<Rightarrow> cq_track_item list \<Rightarrow> cstr option" where
  "from_sel d rest =
     (case from_loop rest (fits 900 (from_prefix @ d)) (26 + length d) 1 of
        (sel, pos) \<Rightarrow>
          if pos > 900 then None
          else if pos = 900 then Some sel
          else Some (sel @ fits (900 - pos) ''&offset=0''))"

definition play_item_sel :: "cstr \<Rightarrow> cstr" where
  "play_item_sel uri = fits 160 (''/spot/play?uri='' @ EscInto uri 128 True)"

definition fallback_sel :: "cstr \<Rightarrow> cstr" where
  "fallback_sel uri = fits 192 (''/spot/play?uri='' @ EscInto uri 128 True)"

definition album_context_sel :: "cstr \<Rightarrow> cstr" where
  "album_context_sel d =
     fits 224 (''/spot/api/1/play/context?uri='' @ EscInto (fits 80 (''spotify:album:'' @ d)) 160 True)"

definition search_sel :: "converter \<Rightarrow> cstr \<Rightarrow> cstr" where
  "search_sel conv q = fits 1200 (''/spot/api/1/search?q='' @ EscInto (ToUTF8 conv q 384) 1160 False)"

definition artist_sel :: "cstr \<Rightarrow> cstr" where
  "artist_sel d = fits 128 (''/spot/api/1/artist/'' @ d @ ''/albums'')"

definition queue_add_sel :: "cstr \<Rightarrow> cstr" where
  "queue_add_sel uri = fits 192 (''/spot/api/1/queue/add?'' @ EscInto uri 128 True)"

definition queue_album_sel :: "cstr \<Rightarrow> cstr" where
  "queue_album_sel d = fits 192 (''/spot/api/1/queue/album?id='' @ d)"

subsection \<open>Rows and clicks\<close>

text \<open>The label a row of a given kind and index carries.\<close>

definition row_label :: "'a results_scheme \<Rightarrow> cq_row_kind \<times> nat option \<Rightarrow> cstr option" where
  "row_label s k = (case k of
       (CQ_ROW_ARTIST, Some i) \<Rightarrow> Some (''artista: '' @ or_else (ref_name (ritems (gSearchArtists s) ! i)) ''?'')
     | (CQ_ROW_ALBUM, Some i) \<Rightarrow>
         Some (if gAlbumBrowse s then ''  album: '' @ or_else (ref_name (ritems (gArtistAlbums s) ! i)) ''?''
               else ''album: '' @ or_else (ref_name (ritems (gSearchAlbums s) ! i)) ''?'')
     | (CQ_ROW_TRACK, Some i) \<Rightarrow> Some (track_label (titems (gSearchItems s) ! i))
     | (CQ_ROW_BACK, None) \<Rightarrow> Some (''< '' @ (if gBrowseArtist s \<noteq> [] then gBrowseArtist s else ''voltar''))
     | _ \<Rightarrow> None)"

lemma nth_append3:
  "i < length a + length b + length c \<Longrightarrow> (a @ b @ c) ! i =
     (if i < length a then a ! i else if i - length a < length b then b ! (i - length a)
      else c ! (i - length a - length b))"
  by (simp add: nth_append)

lemma rows_resolve:
  "(r < length (FillResults conv s) \<longleftrightarrow> fst (ResultKindAt s (int r)) \<noteq> CQ_ROW_NONE) \<and>
   (r < length (FillResults conv s) \<longrightarrow>
     (\<exists>t. row_label s (ResultKindAt s (int r)) = Some t \<and> FillResults conv s ! r = AddResultRow conv (fits 256 t)))"
proof (cases "gAlbumBrowse s")
  case True
  define x where "x = fits 256 (''< '' @ (if gBrowseArtist s \<noteq> [] then gBrowseArtist s else ''voltar''))"
  define b where "b = map (\<lambda>it. fits 256 (''  album: '' @ or_else (ref_name it) ''?'')) (ritems (gArtistAlbums s))"
  have f: "FillResults conv s = map (AddResultRow conv) (x # b)"
    using True by (simp add: FillResults_def x_def b_def)
  have l: "length (ritems (gArtistAlbums s)) = length b" by (simp add: b_def)
  show ?thesis
  proof (cases r)
    case 0
    then show ?thesis using True by (simp add: f ResultKindAt_def row_label_def x_def)
  next
    case (Suc i)
    have k: "ResultKindAt s (int r) = (if i < length b then (CQ_ROW_ALBUM, Some i) else (CQ_ROW_NONE, None))"
      using True by (simp add: ResultKindAt_def Let_def Suc l nat_add_distrib)
    show ?thesis
    proof (cases "i < length b")
      case i: True
      then have "b ! i = fits 256 (''  album: '' @ or_else (ref_name (ritems (gArtistAlbums s) ! i)) ''?'')"
        by (simp add: b_def)
      then show ?thesis unfolding k using i True by (simp add: f Suc row_label_def)
    next
      case False
      then show ?thesis unfolding k by (simp add: f Suc)
    qed
  qed
next
  case False
  define a where "a = map (\<lambda>it. fits 256 (''artista: '' @ or_else (ref_name it) ''?'')) (ritems (gSearchArtists s))"
  define b where "b = map (\<lambda>it. fits 256 (''album: '' @ or_else (ref_name it) ''?'')) (ritems (gSearchAlbums s))"
  define c where "c = map track_label (titems (gSearchItems s))"
  have f: "FillResults conv s = map (AddResultRow conv) (a @ b @ c)"
    unfolding FillResults_def a_def b_def c_def by (simp only: False if_False)
  have l: "length (ritems (gSearchArtists s)) = length a" "length (ritems (gSearchAlbums s)) = length b"
    "length (titems (gSearchItems s)) = length c" by (simp_all add: a_def b_def c_def)
  have lf: "length (FillResults conv s) = length a + length b + length c" by (simp add: f)
  have n: "FillResults conv s ! r = AddResultRow conv
      (if r < length a then a ! r else if r - length a < length b then b ! (r - length a)
       else c ! (r - length a - length b))" if "r < length a + length b + length c"
    unfolding f nth_append3 [OF that, symmetric] by (rule nth_map) (use that in simp)
  have k: "ResultKindAt s (int r) =
      (if r < length a then (CQ_ROW_ARTIST, Some r)
       else if r - length a < length b then (CQ_ROW_ALBUM, Some (r - length a))
       else if r - length a - length b < length c then (CQ_ROW_TRACK, Some (r - length a - length b))
       else (CQ_ROW_NONE, None))"
    unfolding ResultKindAt_def Let_def l by (simp add: False)
  have none: ?thesis if "\<not> r < length a" "\<not> r - length a < length b" "\<not> r - length a - length b < length c"
  proof -
    have "\<not> r < length a + length b + length c" using that by linarith
    then show ?thesis unfolding lf k using that by simp
  qed
  have track: ?thesis if t: "\<not> r < length a" "\<not> r - length a < length b" "r - length a - length b < length c"
  proof -
    have r: "r < length a + length b + length c" using t by linarith
    have "c ! (r - length a - length b) = fits 256 (track_label (titems (gSearchItems s) ! (r - length a - length b)))"
      unfolding c_def by (subst nth_map) (use t(3) l(3) in \<open>simp_all add: track_label_def\<close>)
    then show ?thesis unfolding lf k n [OF r] row_label_def using r t by simp
  qed
  have album: ?thesis if t: "\<not> r < length a" "r - length a < length b"
  proof -
    have r: "r < length a + length b + length c" using t by linarith
    have "b ! (r - length a) = fits 256 (''album: '' @ or_else (ref_name (ritems (gSearchAlbums s) ! (r - length a))) ''?'')"
      unfolding b_def by (rule nth_map) (use t(2) l(2) in simp)
    then show ?thesis unfolding lf k n [OF r] row_label_def using r t False by simp
  qed
  have artist: ?thesis if t: "r < length a"
  proof -
    have r: "r < length a + length b + length c" using t by linarith
    have "a ! r = fits 256 (''artista: '' @ or_else (ref_name (ritems (gSearchArtists s) ! r)) ''?'')"
      unfolding a_def by (rule nth_map) (use t l(1) in simp)
    then show ?thesis unfolding lf k n [OF r] row_label_def using r t by simp
  qed
  show ?thesis
  proof (cases "r < length a")
    case na: False
    show ?thesis
    proof (cases "r - length a < length b")
      case nb: False
      show ?thesis by (cases "r - length a - length b < length c") (rule track [OF na nb] none [OF na nb], assumption)+
    qed (rule album [OF na])
  qed (rule artist)
qed


subsection \<open>The request for a run of tracks\<close>

definition commas :: "cstr list \<Rightarrow> cstr" where
  "commas ds = concat (map (\<lambda>d. CHR '','' # d) ds)"

lemma commas_simps [simp]: "commas [] = []" "commas (d # ds) = CHR '','' # d @ commas ds"
  by (simp_all add: commas_def)

text \<open>The ids of a list's rows that have one.\<close>

definition row_ids :: "cq_track_item list \<Rightarrow> cstr list" where
  "row_ids its = filter (\<lambda>d. d \<noteq> []) (List.map_filter (\<lambda>it. uri_id (it_uri it)) its)"

lemma row_ids_simps [simp]:
  "row_ids [] = []"
  "row_ids (it # its) = (case uri_id (it_uri it) of None \<Rightarrow> row_ids its
     | Some d \<Rightarrow> if d = [] then row_ids its else d # row_ids its)"
  by (simp_all add: row_ids_def List.map_filter_def split: option.split)

text \<open>
  Where the loop stops: it has appended some of the ids in order, at most 24 in all, has left room
  for the closing parameter, and has appended as many as the count allows when all ids are short.
\<close>

lemma from_loop_spec:
  assumes "from_loop its sel pos n = (sel', pos')" "n \<le> 24"
  shows "\<exists>k. sel' = sel @ commas (take k (row_ids its)) \<and>
    pos' = pos + length (commas (take k (row_ids its))) \<and> k \<le> 24 - n \<and> (pos' = pos \<or> pos' + 15 < 900) \<and>
    ((\<forall>d \<in> set (row_ids its). length d \<le> 22) \<and> pos + 23 * (24 - n) + 16 < 900 \<longrightarrow> k = 24 - n)"
  using assms
proof (induction its arbitrary: sel pos n)
  case Nil
  then show ?case by (intro exI [of _ "24 - n"]) auto
next
  case (Cons it its)
  show ?case
  proof (cases "n < 24")
    case n24: False
    then show ?thesis using Cons.prems by (intro exI [of _ 0]) auto
  next
    case n: True
    show ?thesis
    proof (cases "uri_id (it_uri it) = None \<or> uri_id (it_uri it) = Some []")
      case True
      then have "from_loop its sel pos n = (sel', pos')" "row_ids (it # its) = row_ids its"
        using Cons.prems(1) n by auto
      from Cons.IH [OF this(1) Cons.prems(2)] this(2) show ?thesis by simp
    next
      case False
      then obtain d where d: "uri_id (it_uri it) = Some d" "d \<noteq> []" by auto
      then have ids: "row_ids (it # its) = d # row_ids its" by simp
      show ?thesis
      proof (cases "pos + length d + 16 \<ge> 900")
        case True
        then have "sel' = sel" "pos' = pos" using Cons.prems(1) n d by simp_all
        moreover have "\<not> ((\<forall>x \<in> set (d # row_ids its). length x \<le> 22) \<and> pos + 23 * (24 - n) + 16 < 900)"
          using True n by auto
        ultimately show ?thesis unfolding ids by (intro exI [of _ 0]) auto
      next
        case room: False
        then have r: "from_loop its (sel @ CHR '','' # d) (pos + 1 + length d) (n + 1) = (sel', pos')"
          using Cons.prems(1) n d by simp
        have "n + 1 \<le> 24" using n by simp
        from Cons.IH [OF r this] obtain k where k:
          "sel' = (sel @ CHR '','' # d) @ commas (take k (row_ids its))"
          "pos' = pos + 1 + length d + length (commas (take k (row_ids its)))" "k \<le> 24 - (n + 1)"
          "pos' = pos + 1 + length d \<or> pos' + 15 < 900"
          "(\<forall>x \<in> set (row_ids its). length x \<le> 22) \<and> pos + 1 + length d + 23 * (24 - (n + 1)) + 16 < 900 \<longrightarrow>
            k = 24 - (n + 1)" by blast
        have s: "commas (take (Suc k) (d # row_ids its)) = CHR '','' # d @ commas (take k (row_ids its))" by simp
        have e: "sel' = sel @ commas (take (Suc k) (d # row_ids its))"
          "pos' = pos + length (commas (take (Suc k) (d # row_ids its)))" using k(1,2) unfolding s by simp_all
        have b: "Suc k \<le> 24 - n" using k(3) n by simp
        have p: "pos' + 15 < 900" using k(4) room by auto
        have f: "Suc k = 24 - n" if h: "(\<forall>x \<in> set (d # row_ids its). length x \<le> 22) \<and> pos + 23 * (24 - n) + 16 < 900"
        proof -
          obtain m where m: "24 - n = Suc m" "24 - (n + 1) = m" using n by (cases "24 - n") auto
          have "length d \<le> 22" using h by simp
          moreover have "pos + 23 * Suc m + 16 < 900" using h unfolding m(1) by blast
          ultimately have "pos + 1 + length d + 23 * (24 - (n + 1)) + 16 < 900" unfolding m(2) by simp
          then have "k = 24 - (n + 1)" using k(5) h by simp
          then show ?thesis using n by simp
        qed
        show ?thesis unfolding ids using e b p f by (intro exI [of _ "Suc k"] conjI disjI2 impI)
      qed
    qed
  qed
qed

text \<open>C35. The play-from selector for a first id of at most 864 characters is complete and inside its
buffer: the prefix, the first id, ids of the rows that follow in their order, at most 24 in all, and
the closing parameter; when all ids are at most 22 characters none that the limit allows is
missing. A first id of 875 characters or more makes the code write outside the buffer.\<close>

theorem play_from_request:
  assumes "length d \<le> 864 \<or> 875 \<le> length d"
  shows "(length d \<le> 864 \<longrightarrow> (\<exists>k \<le> 23.
      from_sel d rest = Some (from_prefix @ d @ commas (take k (row_ids rest)) @ ''&offset=0'') \<and>
      length (from_prefix @ d @ commas (take k (row_ids rest)) @ ''&offset=0'') < 900 \<and>
      (length d \<le> 22 \<and> (\<forall>x \<in> set (row_ids rest). length x \<le> 22) \<longrightarrow> k = 23))) \<and>
    (875 \<le> length d \<longrightarrow> from_sel d rest = None)"
proof -
  obtain sel pos where r: "from_loop rest (fits 900 (from_prefix @ d)) (26 + length d) 1 = (sel, pos)"
    by (cases "from_loop rest (fits 900 (from_prefix @ d)) (26 + length d) 1")
  have "(1::nat) \<le> 24" by simp
  from from_loop_spec [OF r this] obtain k where k:
    "sel = fits 900 (from_prefix @ d) @ commas (take k (row_ids rest))"
    "pos = 26 + length d + length (commas (take k (row_ids rest)))" "k \<le> 24 - 1"
    "pos = 26 + length d \<or> pos + 15 < 900"
    "(\<forall>x \<in> set (row_ids rest). length x \<le> 22) \<and> 26 + length d + 23 * (24 - 1) + 16 < 900 \<longrightarrow> k = 24 - 1"
    by blast
  have "from_sel d rest = Some (from_prefix @ d @ commas (take k (row_ids rest)) @ ''&offset=0'') \<and>
      length (from_prefix @ d @ commas (take k (row_ids rest)) @ ''&offset=0'') < 900 \<and>
      (length d \<le> 22 \<and> (\<forall>x \<in> set (row_ids rest). length x \<le> 22) \<longrightarrow> k = 23)" if l: "length d \<le> 864"
  proof -
    have p: "pos \<le> 890" using k(4) l by auto
    have "fits 900 (from_prefix @ d) = from_prefix @ d" using l by (simp add: fits_def)
    moreover have "fits (900 - pos) ''&offset=0'' = ''&offset=0''" using p by (simp add: fits_def)
    ultimately have "from_sel d rest = Some (from_prefix @ d @ commas (take k (row_ids rest)) @ ''&offset=0'')"
      unfolding from_sel_def r prod.case using p k(1) by simp
    moreover have "length (from_prefix @ d @ commas (take k (row_ids rest)) @ ''&offset=0'') = pos + 9"
      using k(2) by simp
    moreover have "k = 23" if "length d \<le> 22 \<and> (\<forall>x \<in> set (row_ids rest). length x \<le> 22)"
      using that k(5) by simp
    ultimately show ?thesis using p by simp
  qed
  moreover have "from_sel d rest = None" if "875 \<le> length d"
    unfolding from_sel_def r prod.case using that k(2) by simp
  moreover have "k \<le> 23" using k(3) by simp
  ultimately show ?thesis by blast
qed

theorem play_from_request_witness:
  "\<exists>k \<le> 23. from_sel ''4uLU6hMCjMI75M1A2tKUQC'' [] =
     Some (from_prefix @ ''4uLU6hMCjMI75M1A2tKUQC'' @ commas (take k (row_ids [])) @ ''&offset=0'')"
proof -
  have "length ''4uLU6hMCjMI75M1A2tKUQC'' \<le> 864" by simp
  from play_from_request [OF disjI1 [OF this], of "[]"] this show ?thesis by blast
qed

text \<open>C0. The row that plays next is the one after the first row of the current track, the head when
the current track is not in the queue or there is none, and nothing when that track is the last row
or the queue is empty.\<close>

theorem next_row_exact:
  "QueueNextRow q tid =
     (if titems q = [] then -1
      else case tid of None \<Rightarrow> 0 | Some t \<Rightarrow>
        (case find (\<lambda>i. uri_id (it_uri (titems q ! i)) = Some t) [0..<length (titems q)] of
           None \<Rightarrow> 0
         | Some i \<Rightarrow> if i + 1 < length (titems q) then int (i + 1) else -1))"
proof -
  have "next_row_loop its i (i + length its) t =
      (case find (\<lambda>j. uri_id (it_uri (its ! (j - i))) = Some t) [i..<i + length its] of
         None \<Rightarrow> 0 | Some j \<Rightarrow> if j + 1 < i + length its then int (j + 1) else -1)" for its i t
  proof (induction its arbitrary: i)
    case (Cons it its)
    define xs where "xs = [Suc i..<Suc i + length its]"
    define n where "n = Suc i + length its"
    have u: "[i..<i + length (it # its)] = i # xs" unfolding xs_def by (subst upt_conv_Cons) simp_all
    have e: "i + length (it # its) = n" by (simp add: n_def)
    have f: "find (\<lambda>j. uri_id (it_uri ((it # its) ! (j - i))) = Some t) xs =
        find (\<lambda>j. uri_id (it_uri (its ! (j - Suc i))) = Some t) xs"
      unfolding xs_def by (rule find_cong) (auto simp: nth_Cons' Suc_diff_Suc split: nat.split)
    note ih = Cons.IH [of "Suc i", folded xs_def n_def]
    show ?case unfolding e u [unfolded e] find.simps f next_row_loop.simps ih Suc_eq_plus1 [symmetric] by simp
  qed simp
  from this [of "titems q" 0] show ?thesis by (simp add: QueueNextRow_def split: option.split)
qed

end
