(* ===== verification/DecTask.thy ===== *)
theory DecTask
  imports AppLists OtWire Decring "HOL-Library.Monad_Syntax"
begin

text \<open>
  The decode task (\<open>os9/casquinha.c\<close>): a preemptive task that pumps the decode pipeline, and the
  commands by which the event loop starts, parks and ends it. The two share three variables, each
  with one writer. The operating system is the environment \<open>env\<close>: its transport, its clock, the
  vendored decoder, the outcome of the calls that can fail, and what happens to the state while the
  loop yields.
\<close>

datatype dec_cmd = CQ_DEC_PARK | CQ_DEC_RUN | CQ_DEC_QUIT

record 'w dec_task = results +
  mach :: "'w ot_mach"
  gDec :: cq_decring
  gMPOk :: bool
  gMPDecode :: bool
  gDecTask :: bool
  gDecQ :: bool
  gDecCmd :: dec_cmd
  gDecAck :: dec_cmd
  gDecBeat :: u32

record ('w, 's) env =
  e_ot :: "'w ot_sys"
  e_ticks :: "'w \<Rightarrow> u32"
  e_fuel :: nat
  e_dec :: "'w \<Rightarrow> bytes \<Rightarrow> 'w \<times> dec_out"
  e_clk :: "'w \<Rightarrow> 'w \<times> 64 word"
  e_decinit :: "'w \<Rightarrow> 'w"
  e_yield :: "'s \<Rightarrow> 's"
  e_mpqueue :: bool
  e_mptask :: bool
  e_mpjoin :: bool
  e_newptr :: "nat \<Rightarrow> bytes option"
  e_sndnew :: bool
  e_sndplay :: bool

definition TickCount :: "('w, 's) env \<Rightarrow> ('w, 'a) dec_task_scheme \<Rightarrow> u32" where
  "TickCount env s = e_ticks env (world (mach s))"

text \<open>The pump on the state: the decoder and the clock act on the world.\<close>

definition run_pump :: "('w, 's) env \<Rightarrow> ('w, 'a) dec_task_scheme \<Rightarrow> ('w, 'a) dec_task_scheme" where
  "run_pump env s =
     (case cq_decring_pump (e_dec env) (e_clk env) (gDec s) (world (mach s)) of
        (r, progress, w) \<Rightarrow> s\<lparr>gDec := r, mach := (mach s)\<lparr>world := w\<rparr>\<rparr>)"

subsection \<open>The task\<close>

text \<open>
  The task's place in its loop: about to read the command, in a pass for the command it read, about
  to acknowledge that pass, about to count it and nap, about to leave, gone.
\<close>

datatype task_pc = TFetch | TPass dec_cmd | TAck dec_cmd | TBeat | TExit | TDone

definition DecodeTaskProc ::
  "('w, 's) env \<Rightarrow> task_pc \<times> ('w, 'a) dec_task_scheme \<Rightarrow> task_pc \<times> ('w, 'a) dec_task_scheme" where
  "DecodeTaskProc env c = (case c of (pc, s) \<Rightarrow> case pc of
       TFetch \<Rightarrow> (if gDecCmd s = CQ_DEC_QUIT then TExit else TPass (gDecCmd s), s)
     | TPass cmd \<Rightarrow> (TAck cmd, if cmd = CQ_DEC_RUN then run_pump env s else s)
     | TAck cmd \<Rightarrow> (TBeat, s\<lparr>gDecAck := cmd\<rparr>)
     | TBeat \<Rightarrow> (TFetch, s\<lparr>gDecBeat := gDecBeat s + 1\<rparr>)
     | TExit \<Rightarrow> (TDone, s\<lparr>gDecAck := CQ_DEC_QUIT\<rparr>)
     | TDone \<Rightarrow> (TDone, s))"

subsection \<open>The loop's commands\<close>

definition StartDecTask :: "('w, 's) env \<Rightarrow> ('w, 'a) dec_task_scheme \<Rightarrow> ('w, 'a) dec_task_scheme" where
  "StartDecTask env s =
     (if gDecTask s \<or> \<not> gMPOk s then s
      else if \<not> e_mpqueue env then s\<lparr>gDecTask := False\<rparr>
      else
        (let s = s\<lparr>gDecQ := True, gDecCmd := CQ_DEC_PARK, gDecAck := CQ_DEC_PARK\<rparr>
         in if e_mptask env then s\<lparr>gDecTask := True\<rparr> else s\<lparr>gDecQ := False, gDecTask := False\<rparr>))"

text \<open>The wait for the acknowledgement, at most 30 ticks; fuel bounds the yields.\<close>

fun park_loop :: "nat \<Rightarrow> ('w, ('w, 'a) dec_task_scheme) env \<Rightarrow> u32 \<Rightarrow> ('w, 'a) dec_task_scheme \<Rightarrow>
    ('w, 'a) dec_task_scheme option" where
  "park_loop 0 env t0 s = None"
| "park_loop (Suc k) env t0 s =
     (if gDecAck s = CQ_DEC_PARK then Some s
      else if TickCount env s - t0 > 30 then Some (s\<lparr>gMPDecode := False\<rparr>)
      else park_loop k env t0 (e_yield env s))"

definition ParkDecTask :: "('w, ('w, 'a) dec_task_scheme) env \<Rightarrow> ('w, 'a) dec_task_scheme \<Rightarrow>
    ('w, 'a) dec_task_scheme option" where
  "ParkDecTask env s =
     (if \<not> gDecTask s then Some s
      else park_loop (e_fuel env) env (TickCount env s) (s\<lparr>gDecCmd := CQ_DEC_PARK\<rparr>))"

text \<open>
  The end of the task: join it, or terminate it when it does not come back; either way the queue
  and the task are gone.
\<close>

definition QuitDecTask :: "('w, ('w, 'a) dec_task_scheme) env \<Rightarrow> ('w, 'a) dec_task_scheme \<Rightarrow>
    ('w, 'a) dec_task_scheme option" where
  "QuitDecTask env s =
     (if \<not> gDecTask s then Some s
      else do {
        s \<leftarrow> ParkDecTask env s;
        let s = e_yield env (s\<lparr>gDecCmd := CQ_DEC_QUIT\<rparr>);
        let s = (if e_mpjoin env then s else e_yield env s);
        Some (s\<lparr>gDecQ := False, gDecTask := False\<rparr>)
      })"

subsection \<open>The two together\<close>

text \<open>
  The loop's side, as far as the task is concerned: it owns the pipeline (parked), has handed it to
  the task (running), or waits for the acknowledgement. A configuration is the loop's side, the
  task's place and the state; the loop resets the pipeline only while it owns it. With
  \<open>fresh\<close> the loop parks only after the task has acknowledged the RUN.
\<close>

datatype loop_side = Owns | Handed | Waits

type_synonym 'w dec_conf = "loop_side \<times> task_pc \<times> 'w dec_task"

inductive dec_step :: "bool \<Rightarrow> ('w, 's) env \<Rightarrow> 'w dec_conf \<Rightarrow> 'w dec_conf \<Rightarrow> bool" for fresh env where
  task: "dec_step fresh env (l, c) (l, DecodeTaskProc env c)"
| run: "dec_step fresh env (Owns, pc, s) (Handed, pc, s\<lparr>gDecCmd := CQ_DEC_RUN\<rparr>)"
| park: "fresh \<longrightarrow> gDecAck s = CQ_DEC_RUN \<Longrightarrow>
    dec_step fresh env (Handed, pc, s) (Waits, pc, s\<lparr>gDecCmd := CQ_DEC_PARK\<rparr>)"
| acked: "gDecAck s = CQ_DEC_PARK \<Longrightarrow> dec_step fresh env (Waits, pc, s) (Owns, pc, s)"
| reset: "dec_step fresh env (Owns, pc, s) (Owns, pc, s\<lparr>gDec := cq_decring_reset (gDec s)\<rparr>)"

inductive_cases dec_stepE: "dec_step fresh env c c'"

inductive dec_reach :: "bool \<Rightarrow> ('w, 's) env \<Rightarrow> 'w dec_conf \<Rightarrow> 'w dec_conf \<Rightarrow> bool" for fresh env c0 where
  start: "dec_reach fresh env c0 c0"
| step: "dec_reach fresh env c0 c \<Longrightarrow> dec_step fresh env c c' \<Longrightarrow> dec_reach fresh env c0 c'"

definition in_pass :: "task_pc \<Rightarrow> bool" where
  "in_pass pc \<longleftrightarrow> pc = TPass CQ_DEC_RUN"

definition task_idle :: "'w dec_conf \<Rightarrow> bool" where
  "task_idle c \<longleftrightarrow> (case c of (l, pc, s) \<Rightarrow> l = Owns \<and> pc = TFetch \<and>
     gDecCmd s = CQ_DEC_PARK \<and> gDecAck s = CQ_DEC_PARK)"

text \<open>What the fresh discipline keeps.\<close>

definition dec_safe :: "'w dec_conf \<Rightarrow> bool" where
  "dec_safe c \<longleftrightarrow> (case c of (l, pc, s) \<Rightarrow>
     gDecCmd s = (if l = Handed then CQ_DEC_RUN else CQ_DEC_PARK) \<and> pc \<notin> {TExit, TDone} \<and>
     gDecAck s \<noteq> CQ_DEC_QUIT \<and> pc \<noteq> TPass CQ_DEC_QUIT \<and> pc \<noteq> TAck CQ_DEC_QUIT \<and>
     (l = Owns \<longrightarrow> gDecAck s = CQ_DEC_PARK) \<and>
     (l \<noteq> Handed \<and> gDecAck s = CQ_DEC_PARK \<longrightarrow> pc \<notin> {TPass CQ_DEC_RUN, TAck CQ_DEC_RUN}))"

lemma run_pump_fields [simp]:
  "gDecCmd (run_pump env s) = gDecCmd s" "gDecAck (run_pump env s) = gDecAck s"
  "gDecTask (run_pump env s) = gDecTask s" "gMPDecode (run_pump env s) = gMPDecode s"
  "gMPOk (run_pump env s) = gMPOk s"
  by (simp_all add: run_pump_def split: prod.split)

lemma dec_safe_step:
  assumes "dec_step True env c c'" "dec_safe c" shows "dec_safe c'"
  using assms
proof (cases rule: dec_step.cases)
  case (task l d)
  obtain pc s where d: "d = (pc, s)" by (cases d)
  show ?thesis using assms(2) unfolding task d
    by (cases pc) (auto simp: dec_safe_def DecodeTaskProc_def split: if_splits, metis dec_cmd.exhaust)
qed (auto simp: dec_safe_def)

lemma dec_safe_reach: "dec_reach True env c0 c \<Longrightarrow> dec_safe c0 \<Longrightarrow> dec_safe c"
  by (induction rule: dec_reach.induct) (auto intro: dec_safe_step)

text \<open>A clock that counts the yields, a decoder that skips, and an idle task.\<close>

definition clock_env :: "(nat, nat dec_task) env" where
  "clock_env = \<lparr>e_ot = \<lambda>w c. (w, NoError), e_ticks = of_nat, e_fuel = 40,
     e_dec = \<lambda>w buf. (w, \<lparr>o_samples = 0, o_frame_bytes = 0, o_channels = 0, o_hz = 0, o_pcm = []\<rparr>),
     e_clk = \<lambda>w. (w, 0), e_decinit = id, e_yield = \<lambda>s. s\<lparr>mach := (mach s)\<lparr>world := world (mach s) + 1\<rparr>\<rparr>,
     e_mpqueue = True, e_mptask = True, e_mpjoin = True, e_newptr = \<lambda>n. None, e_sndnew = True, e_sndplay = True\<rparr>"

definition idle_task :: "nat dec_task" where
  "idle_task = \<lparr>gSearchItems = cq_track_list_empty, gSearchArtists = cq_ref_list_empty,
     gSearchAlbums = cq_ref_list_empty, gArtistAlbums = cq_ref_list_empty, gAlbumBrowse = False,
     gBrowseArtist = [], gQueueItems = cq_track_list_empty,
     mach = \<lparr>world = 0, g_ot_up = False, g_conn_upp = False, g_udp_ep = False, g_udp_state = 0,
       g_udp_to = (0, 0), g_udp_host = [], g_udp_ok = 0, g_udp_fail = 0, g_udp_lasterr = 0\<rparr>,
     gDec = app_ring, gMPOk = True, gMPDecode = True, gDecTask = True, gDecQ = True,
     gDecCmd = CQ_DEC_PARK, gDecAck = CQ_DEC_PARK, gDecBeat = 0\<rparr>"



lemma park_loop_returns:
  assumes "\<And>s. \<exists>d. 1 \<le> d \<and> d \<le> 2 ^ 16 \<and> TickCount env (e_yield env s) = TickCount env s + of_nat d"
  shows "unat (TickCount env s - t0) + k \<ge> 32 \<Longrightarrow> unat (TickCount env s - t0) < 2 ^ 17 \<Longrightarrow>
    \<exists>s'. park_loop (Suc k) env t0 s = Some s' \<and> (gDecAck s' = CQ_DEC_PARK \<or> \<not> gMPDecode s')"
proof (induction k arbitrary: s)
  case 0
  then have "TickCount env s - t0 > 30" by (simp add: word_less_nat_alt)
  then show ?case by simp
next
  case (Suc k)
  show ?case
  proof (cases "gDecAck s = CQ_DEC_PARK \<or> TickCount env s - t0 > 30")
    case True
    then show ?thesis by auto
  next
    case False
    obtain d where d: "1 \<le> d" "d \<le> 2 ^ 16" "TickCount env (e_yield env s) = TickCount env s + of_nat d"
      using assms by blast
    have y: "TickCount env (e_yield env s) - t0 = (TickCount env s - t0) + of_nat d" using d(3) by simp
    have u: "unat (TickCount env s - t0) \<le> 30" using False by (simp add: word_less_nat_alt not_less)
    have e: "unat (TickCount env (e_yield env s) - t0) = unat (TickCount env s - t0) + d"
      unfolding y using unat_plus_nat [of "TickCount env s - t0" d] d(2) u by simp
    have "\<exists>s'. park_loop (Suc k) env t0 (e_yield env s) = Some s' \<and> (gDecAck s' = CQ_DEC_PARK \<or> \<not> gMPDecode s')"
      using Suc.prems e d u by (intro Suc.IH) simp_all
    then show ?thesis using False by simp
  qed
qed



end
