(* ===== verification/Audio.thy ===== *)
theory Audio
  imports DecTask
begin

text \<open>
  The audio engine (\<open>os9/casquinha.c\<close>): the stream from the wire through header and
  synchronisation into the decode pipeline, the double-buffered output that an interrupt refills
  from the PCM ring, and the event loop's service of it. The ring's cursors are those of the
  pipeline \<open>gDec\<close>. Memory and Sound Manager calls answer as the environment says; log lines
  are left out.
\<close>

datatype au_state = AU_IDLE | AU_HTTP | AU_SYNC | AU_PLAY

abbreviation CQ_AUD_CHUNK :: nat where "CQ_AUD_CHUNK \<equiv> 32768"
abbreviation CQ_AUD_PREBUF_PCM :: nat where "CQ_AUD_PREBUF_PCM \<equiv> 393216"
abbreviation CQ_AUD_RING_TARGET :: nat where "CQ_AUD_RING_TARGET \<equiv> 524288"
abbreviation CQ_AUD_TRIM_SLACK :: nat where "CQ_AUD_TRIM_SLACK \<equiv> 262144"
abbreviation CQ_AUD_COMP_MAX :: nat where "CQ_AUD_COMP_MAX \<equiv> 65536"

record 'w audio = "'w dec_task" +
  gStream :: "ot_tx option"
  gAuSt :: au_state
  gComp :: bytes
  gHaveRing :: bool
  gHaveCompRing :: bool
  gFmt :: cq_mp3_frame
  gChan :: bool
  gHaveDB :: bool
  gDB :: "bytes \<times> bytes"
  gPlaying :: bool
  gDBFires :: int
  gDBSilence :: int
  gRingSkip :: int
  gTrims :: int
  gStarveTick :: u32
  gRxTick :: u32
  gAuBeat :: u32
  gRxTotal :: int
  gDecResSeen :: int
  gDecFluSeen :: int
  prevSil :: int
  prevRx :: int
  prevBeat :: u32

abbreviation gRingWr :: "('w, 'a) audio_scheme \<Rightarrow> u32" where "gRingWr s \<equiv> pcm_wr (gDec s)"
abbreviation gRingRd :: "('w, 'a) audio_scheme \<Rightarrow> u32" where "gRingRd s \<equiv> pcm_rd (gDec s)"

definition ring_fill :: "('w, 'a) audio_scheme \<Rightarrow> u32" where
  "ring_fill s = gRingWr s - gRingRd s"

subsection \<open>The refill at interrupt time\<close>

text \<open>The latency trim, then the refill: the new state, the buffer's bytes and its frame count.\<close>

definition apply_skip :: "('w, 'a) audio_scheme \<Rightarrow> ('w, 'a) audio_scheme" where
  "apply_skip s =
     (if gRingSkip s > 0 then
        (let n = (of_int (gRingSkip s) :: u32); have' = ring_fill s; n = (if n > have' then have' else n)
         in s\<lparr>gDec := (gDec s)\<lparr>pcm_rd := gRingRd s + n\<rparr>, gRingSkip := 0\<rparr>)
      else s)"

definition AudioDoubleBack :: "('w, 'a) audio_scheme \<Rightarrow> ('w, 'a) audio_scheme \<times> bytes \<times> int" where
  "AudioDoubleBack s =
     (let s = apply_skip (s\<lparr>gDBFires := wrap32 (gDBFires s + 1)\<rparr>);
          avail = unat (ring_fill s);
          n = (if avail \<ge> CQ_AUD_CHUNK then CQ_AUD_CHUNK
               else if gStream s = None \<and> avail > 0 then avail else 0);
          pcm_bytes = ring_read (pcm (gDec s)) CQ_AUD_RING_BYTES (gRingRd s) n;
          s = s\<lparr>gDec := (gDec s)\<lparr>pcm_rd := gRingRd s + of_nat n\<rparr>\<rparr>;
          s = (if n < CQ_AUD_CHUNK \<and> n = 0 then s\<lparr>gDBSilence := wrap32 (gDBSilence s + 1)\<rparr> else s)
      in (s, pcm_bytes @ replicate (CQ_AUD_CHUNK - n) NUL, tdiv (int CQ_AUD_CHUNK) (2 * channels (gFmt s))))"

subsection \<open>Starting and stopping\<close>

text \<open>Dropping a transaction: cancel it, then release it.\<close>

definition cancel_free :: "'w ot_sys \<Rightarrow> 'w ot_mach \<Rightarrow> ot_tx \<Rightarrow> 'w ot_mach" where
  "cancel_free ot m t = (case cq_tx_cancel ot m t of (m, t) \<Rightarrow> cq_tx_free ot m t)"

definition StopAudio :: "('w, ('w, 'a) audio_scheme) env \<Rightarrow> ('w, 'a) audio_scheme \<Rightarrow>
    ('w, 'a) audio_scheme option" where
  "StopAudio env s = do {
     let s = s\<lparr>gChan := False\<rparr>;
     let s = (case gStream s of
         Some t \<Rightarrow> s\<lparr>mach := cancel_free (e_ot env) (mach s) t, gStream := None\<rparr> | None \<Rightarrow> s);
     let s = s\<lparr>gAuSt := AU_IDLE, gComp := []\<rparr>;
     s \<leftarrow> ParkDecTask env s;
     Some (s\<lparr>gDec := (cq_decring_reset (gDec s))\<lparr>pcm_wr := 0, pcm_rd := 0\<rparr>, gPlaying := False,
       gRingSkip := 0, gStarveTick := 0, gRxTick := 0\<rparr>)
   }"

text \<open>
  Arming the output: the rings are allocated once and kept; False in the result is the failure the
  source returns as 0.
\<close>

definition take_ring :: "('w, 's) env \<Rightarrow> ('w, 'a) audio_scheme \<Rightarrow> ('w, 'a) audio_scheme \<times> bool" where
  "take_ring env s =
     (if gHaveRing s then (s, True)
      else case e_newptr env CQ_AUD_RING_BYTES of
          None \<Rightarrow> (s, False)
        | Some p \<Rightarrow> (s\<lparr>gHaveRing := True, gDec := (gDec s)\<lparr>pcm := p\<rparr>\<rparr>, True))"

definition take_comp_ring :: "('w, 's) env \<Rightarrow> ('w, 'a) audio_scheme \<Rightarrow> ('w, 'a) audio_scheme \<times> bool" where
  "take_comp_ring env s =
     (if gHaveCompRing s then (s, True)
      else case e_newptr env CQ_AUD_COMP_RING of
          None \<Rightarrow> (s, False)
        | Some p \<Rightarrow> (s\<lparr>gHaveCompRing := True, gDec := (gDec s)\<lparr>comp := p\<rparr>\<rparr>, True))"

definition OpenAudioOutput :: "('w, ('w, 'a) audio_scheme) env \<Rightarrow> ('w, 'a) audio_scheme \<Rightarrow>
    (('w, 'a) audio_scheme \<times> bool) option" where
  "OpenAudioOutput env s =
     (case take_ring env s of (s, ok) \<Rightarrow> if \<not> ok then Some (s, False)
      else case take_comp_ring env s of (s, ok) \<Rightarrow> if \<not> ok then Some (s, False)
      else do {
        s \<leftarrow> ParkDecTask env (StartDecTask env s);
        let s = s\<lparr>gMPDecode := gDecTask s\<rparr>;
        let r = cq_decring_init (comp (gDec s)) CQ_AUD_COMP_RING (pcm (gDec s)) CQ_AUD_RING_BYTES 0 0;
        Some (s\<lparr>gDec := r\<lparr>now := True\<rparr>, gDecResSeen := 0, gDecFluSeen := 0,
          mach := (mach s)\<lparr>world := e_decinit env (world (mach s))\<rparr>, gPlaying := False,
          gDBFires := 0, gDBSilence := 0, gRingSkip := 0, gTrims := 0\<rparr>, True)
      })"

definition StartDoubleBuffer :: "('w, 's) env \<Rightarrow> ('w, 'a) audio_scheme \<Rightarrow> ('w, 'a) audio_scheme \<times> bool" where
  "StartDoubleBuffer env s =
     (let s = (if gHaveDB s then s else s\<lparr>gHaveDB := e_newptr env CQ_AUD_CHUNK \<noteq> None\<rparr>) in
      if \<not> gHaveDB s then (s, False)
      else if \<not> e_sndnew env then (s\<lparr>gChan := False\<rparr>, False)
      else case AudioDoubleBack (s\<lparr>gChan := True\<rparr>) of (s, b0, f0) \<Rightarrow>
           case AudioDoubleBack s of (s, b1, f1) \<Rightarrow>
             let s = s\<lparr>gDB := (b0, b1)\<rparr>
             in if e_sndplay env then (s\<lparr>gPlaying := True\<rparr>, True) else (s, False))"

subsection \<open>The wire\<close>

text \<open>Draining the stream's buffer straight into the pipeline, until either has no more.\<close>

function drain_loop :: "ot_tx \<Rightarrow> cq_decring \<Rightarrow> int \<Rightarrow> ot_tx \<times> cq_decring \<times> int" where
  "drain_loop t r rxt =
     (case cq_decring_claim r of (off, contig) \<Rightarrow>
        if contig = 0 then (t, r, rxt)
        else case cq_tx_drain t contig of (bs, t') \<Rightarrow>
          if bs = [] then (t', r, rxt)
          else drain_loop t' (cq_decring_commit (r\<lparr>comp := memcpy_at (comp r) off bs\<rparr>) (of_nat (length bs)))
                 (wrap32 (rxt + int (length bs))))"
  by pat_completeness auto
termination
  by (relation "measure (\<lambda>(t, r, rxt). length (data t))")
    (auto simp: cq_tx_drain_def Let_def split: if_splits)

declare drain_loop.simps [simp del]

definition DrainStreamToDec :: "('w, 'a) audio_scheme \<Rightarrow> ('w, 'a) audio_scheme" where
  "DrainStreamToDec s =
     (case gStream s of None \<Rightarrow> s
      | Some t \<Rightarrow> (case drain_loop t (gDec s) (gRxTotal s) of (t, r, rxt) \<Rightarrow>
          s\<lparr>gStream := Some t, gDec := r, gRxTotal := rxt\<rparr>))"

text \<open>Before playback the bytes are staged; \<open>counted\<close> tells whether they enter the total.\<close>

definition stage_drain :: "bool \<Rightarrow> ('w, 'a) audio_scheme \<Rightarrow> ('w, 'a) audio_scheme" where
  "stage_drain counted s =
     (case gStream s of None \<Rightarrow> s
      | Some t \<Rightarrow>
          if length (gComp s) < CQ_AUD_COMP_MAX then
            (case cq_tx_drain t (CQ_AUD_COMP_MAX - length (gComp s)) of (bs, t) \<Rightarrow>
               s\<lparr>gStream := Some t, gComp := gComp s @ bs,
                 gRxTotal := (if counted then wrap32 (gRxTotal s + int (length bs)) else gRxTotal s)\<rparr>)
          else s)"

definition close_stream :: "('w, 's) env \<Rightarrow> ('w, 'a) audio_scheme \<Rightarrow> ('w, 'a) audio_scheme" where
  "close_stream env s =
     (case gStream s of None \<Rightarrow> s
      | Some t \<Rightarrow> s\<lparr>mach := cq_tx_free (e_ot env) (mach s) t, gStream := None\<rparr>)"

text \<open>Each stage of the service returns the state and whether the pass goes on.\<close>

definition service_wire :: "('w, ('w, 'a) audio_scheme) env \<Rightarrow> ('w, 'a) audio_scheme \<Rightarrow>
    (('w, 'a) audio_scheme \<times> bool) option" where
  "service_wire env s =
     (case gStream s of None \<Rightarrow> Some (s, True)
      | Some t \<Rightarrow> do {
          (m, t) \<leftarrow> cq_tx_poll (e_fuel env) (e_ot env) (e_ticks env) (mach s) t;
          let s = s\<lparr>mach := m, gStream := Some t\<rparr>;
          let s = (if gAuSt s = AU_PLAY then DrainStreamToDec s else stage_drain True s);
          if status t = CQ_TX_RUNNING then Some (s, True)
          else if gAuSt s = AU_PLAY then
            (let s = close_stream env (DrainStreamToDec s)
             in Some (s\<lparr>gDec := cq_decring_eof (gDec s)\<rparr>, True))
          else do {
            s \<leftarrow> StopAudio env (close_stream env (stage_drain False s));
            Some (s, False)
          }
        })"

subsection \<open>Header and synchronisation\<close>

function header_scan :: "bytes \<Rightarrow> nat \<Rightarrow> nat" where
  "header_scan bs i =
     (if i + 3 < length bs \<and> \<not> (bs ! i = CR \<and> bs ! (i + 1) = LF \<and> bs ! (i + 2) = CR \<and> bs ! (i + 3) = LF)
      then header_scan bs (i + 1) else i)"
  by pat_completeness auto
termination by (relation "measure (\<lambda>(bs, i). length bs - i)") auto

declare header_scan.simps [simp del]

definition service_header :: "('w, ('w, 'a) audio_scheme) env \<Rightarrow> ('w, 'a) audio_scheme \<Rightarrow>
    (('w, 'a) audio_scheme \<times> bool) option" where
  "service_header env s =
     (if gAuSt s = AU_HTTP \<and> length (gComp s) \<ge> 4 then
        (let i = header_scan (gComp s) 0 in
         if i + 3 < length (gComp s) then Some (s\<lparr>gComp := drop (i + 4) (gComp s), gAuSt := AU_SYNC\<rparr>, True)
         else if length (gComp s) > 8192 then map_option (\<lambda>s. (s, False)) (StopAudio env s)
         else Some (s, True))
      else Some (s, True))"

text \<open>The synchronised bytes go to the pipeline as far as it has room.\<close>

function handoff_loop :: "bytes \<Rightarrow> cq_decring \<Rightarrow> cq_decring" where
  "handoff_loop bs r =
     (if bs = [] then r
      else case cq_decring_claim r of (off, contig) \<Rightarrow>
        if contig = 0 then r
        else
          (let n = (if contig > length bs then length bs else contig)
           in handoff_loop (drop n bs)
                (cq_decring_commit (r\<lparr>comp := memcpy_at (comp r) off (take n bs)\<rparr>) (of_nat n))))"
  by pat_completeness auto
termination
  by (relation "measure (\<lambda>(bs, r). length bs)") (auto simp: length_greater_0_conv [symmetric] simp del: length_greater_0_conv)

declare handoff_loop.simps [simp del]

definition service_sync :: "('w, ('w, 'a) audio_scheme) env \<Rightarrow> ('w, 'a) audio_scheme \<Rightarrow>
    (('w, 'a) audio_scheme \<times> bool) option" where
  "service_sync env s =
     (if gAuSt s = AU_SYNC then
        (case cq_mp3_sync (gComp s) of
           Some (off, fmt) \<Rightarrow> do {
             (s, ok) \<leftarrow> OpenAudioOutput env (s\<lparr>gFmt := fmt, gComp := drop off (gComp s)\<rparr>);
             if \<not> ok then map_option (\<lambda>s. (s, False)) (StopAudio env s)
             else
               (let s = s\<lparr>gAuSt := AU_PLAY, gDec := handoff_loop (gComp s) (gDec s), gComp := []\<rparr>
                in Some (if gMPDecode s then s\<lparr>gDecCmd := CQ_DEC_RUN\<rparr> else s, True))
           }
         | None \<Rightarrow>
             if length (gComp s) > 32768 then map_option (\<lambda>s. (s, False)) (StopAudio env s)
             else Some (s, True))
      else Some (s, True))"

subsection \<open>Playback\<close>

text \<open>Start at the prebuffer mark, or with what remains of a stream that has ended.\<close>

definition service_start :: "('w, ('w, 'a) audio_scheme) env \<Rightarrow> ('w, 'a) audio_scheme \<Rightarrow>
    ('w, 'a) audio_scheme option" where
  "service_start env s =
     (if \<not> gPlaying s \<and>
         (ring_fill s \<ge> of_nat CQ_AUD_PREBUF_PCM \<or> gStream s = None \<and> ring_fill s > 0)
      then (case StartDoubleBuffer env s of (s, ok) \<Rightarrow> if ok then Some s else StopAudio env s)
      else Some s)"

text \<open>When silence was last served, and when the stream last delivered.\<close>

definition note_ticks :: "u32 \<Rightarrow> ('w, 'a) audio_scheme \<Rightarrow> ('w, 'a) audio_scheme" where
  "note_ticks t s =
     (let s = (if gDBSilence s \<noteq> prevSil s
               then (if gDBSilence s > prevSil s then s\<lparr>gStarveTick := t\<rparr> else s)\<lparr>prevSil := gDBSilence s\<rparr>
               else s)
      in if gRxTotal s \<noteq> prevRx s then s\<lparr>prevRx := gRxTotal s, gRxTick := t\<rparr> else s)"

text \<open>A backlog beyond target and slack asks the interrupt for one skip back to the target.\<close>

definition request_trim :: "('w, 'a) audio_scheme \<Rightarrow> ('w, 'a) audio_scheme" where
  "request_trim s =
     (if gPlaying s \<and> gRingSkip s = 0 \<and> ring_fill s > of_nat (CQ_AUD_RING_TARGET + CQ_AUD_TRIM_SLACK)
      then s\<lparr>gRingSkip := int (unat (ring_fill s - of_nat CQ_AUD_RING_TARGET)), gTrims := wrap32 (gTrims s + 1)\<rparr>
      else s)"

definition heartbeat :: "u32 \<Rightarrow> ('w, 'a) audio_scheme \<Rightarrow> ('w, 'a) audio_scheme" where
  "heartbeat t s =
     (if t - gAuBeat s \<ge> (if gPlaying s then 600 else 300)
      then (if gPlaying s then s\<lparr>gAuBeat := t, prevBeat := gDecBeat s\<rparr> else s\<lparr>gAuBeat := t\<rparr>)
      else s)"

definition service_play :: "('w, ('w, 'a) audio_scheme) env \<Rightarrow> ('w, 'a) audio_scheme \<Rightarrow>
    ('w, 'a) audio_scheme option" where
  "service_play env s =
     (if gAuSt s = AU_PLAY then do {
        let s = (if gMPDecode s then s else run_pump env s);
        let s = s\<lparr>gDecResSeen := resyncs (gDec s), gDecFluSeen := flushes (gDec s)\<rparr>;
        s \<leftarrow> service_start env s;
        if gAuSt s \<noteq> AU_PLAY then Some s
        else
          (let s = request_trim (note_ticks (TickCount env s) s) in
           if gStream s = None \<and> cq_decring_idle (gDec s) \<and> gPlaying s \<and> gRingWr s = gRingRd s
           then StopAudio env s
           else Some (heartbeat (TickCount env s) s))
      }
      else Some (if TickCount env s - gAuBeat s \<ge> 300 then s\<lparr>gAuBeat := TickCount env s\<rparr> else s))"

definition ServiceAudio :: "('w, ('w, 'a) audio_scheme) env \<Rightarrow> ('w, 'a) audio_scheme \<Rightarrow>
    ('w, 'a) audio_scheme option" where
  "ServiceAudio env s =
     (if gAuSt s = AU_IDLE then Some s
      else do {
        (s, go) \<leftarrow> service_wire env s;
        if \<not> go then Some s else do {
          (s, go) \<leftarrow> service_header env s;
          if \<not> go then Some s else do {
            (s, go) \<leftarrow> service_sync env s;
            if \<not> go then Some s else service_play env s
          }
        }
      })"

text \<open>Tuning in to a stream URL.\<close>

definition StartStream :: "('w, 's) env \<Rightarrow> cstr \<Rightarrow> ('w, 'a) audio_scheme \<Rightarrow> ('w, 'a) audio_scheme" where
  "StartStream env url s =
     (case ParseHttpUrl url 64 160 of
        None \<Rightarrow> s
      | Some (h, p, path) \<Rightarrow>
          s\<lparr>gStream := Some (cq_tx_start (TickCount env s) (cq_tx_stream_new h p (Some (stream_request path)))),
            gAuSt := AU_HTTP, gAuBeat := TickCount env s, gRxTotal := 0\<rparr>)"

subsection \<open>The pipeline under the engine\<close>

definition app_rings :: "cq_decring \<Rightarrow> bool" where
  "app_rings r \<longleftrightarrow> decring_ok r \<and> comp_size r = CQ_AUD_COMP_RING \<and> pcm_size r = CQ_AUD_RING_BYTES"

lemma pump_turn_sizes:
  assumes "pump_turn dec clk r used p w = (b, r', used', p', w')"
  shows "comp_size r' = comp_size r \<and> pcm_size r' = pcm_size r \<and> pcm_rd r' = pcm_rd r"
  using assms unfolding pump_turn_def Let_def
  by (auto simp: publish_def split: if_splits option.splits prod.splits dest!: timed_decode_frame)

lemma pump_loop_sizes:
  "pump_loop dec clk r used p w = (r', used', p', w') \<Longrightarrow>
    comp_size r' = comp_size r \<and> pcm_size r' = pcm_size r \<and> pcm_rd r' = pcm_rd r"
proof (induction dec clk r used p w rule: pump_loop.induct)
  case (1 dec clk r used p w)
  obtain b r1 u1 p1 w1 where t: "pump_turn dec clk r used p w = (b, r1, u1, p1, w1)"
    by (cases "pump_turn dec clk r used p w") auto
  note s = pump_turn_sizes [OF t]
  show ?case
  proof (cases b)
    case True
    then show ?thesis using 1 t s by (simp add: pump_loop.simps [of dec clk r used p w])
  next
    case False
    then show ?thesis using "1.prems" t s by (simp add: pump_loop.simps [of dec clk r used p w])
  qed
qed

lemma pump_app_rings:
  assumes "app_rings r" "dec_ok dec" "cq_decring_pump dec clk r w = (r', p, w')"
  shows "app_rings r'" "pcm_rd r' = pcm_rd r"
proof -
  obtain r1 p1 where t: "top_up r = (r1, p1)" by (cases "top_up r")
  obtain r2 used p2 w2 where l: "pump_loop dec clk r1 0 p1 w = (r2, used, p2, w2)"
    by (cases "pump_loop dec clk r1 0 p1 w") auto
  have "comp_size r1 = comp_size r \<and> pcm_size r1 = pcm_size r \<and> pcm_rd r1 = pcm_rd r"
    using t by (auto simp: top_up_def Let_def split: if_splits)
  then have "comp_size r' = comp_size r \<and> pcm_size r' = pcm_size r \<and> pcm_rd r' = pcm_rd r"
    using pump_loop_sizes [OF l] assms(3) by (auto simp: cq_decring_pump_def t l split: if_splits)
  then show "app_rings r'" "pcm_rd r' = pcm_rd r"
    using assms pump_spec [OF _ assms(2,3)] by (auto simp: app_rings_def)
qed

text \<open>Reading from the PCM ring.\<close>

lemma app_read:
  assumes "app_rings r" "n \<le> fill (pcm_wr r) (pcm_rd r)"
  shows "ring_read (pcm r) CQ_AUD_RING_BYTES (pcm_rd r) n = take n (pcm_queue r)"
    "pcm_queue (r\<lparr>pcm_rd := pcm_rd r + of_nat n\<rparr>) = drop n (pcm_queue r)"
    "app_rings (r\<lparr>pcm_rd := pcm_rd r + of_nat n\<rparr>)"
proof -
  have ok: "length (pcm r) = CQ_AUD_RING_BYTES" "fill (pcm_wr r) (pcm_rd r) \<le> CQ_AUD_RING_BYTES"
    "pcm_size r = CQ_AUD_RING_BYTES" using assms(1) by (simp_all add: app_rings_def decring_ok_def)
  show "ring_read (pcm r) CQ_AUD_RING_BYTES (pcm_rd r) n = take n (pcm_queue r)"
    unfolding pcm_queue_def ok(3) by (rule pcm_ring.ring_read_queued [OF ok(1) assms(2) ok(2)])
  show "pcm_queue (r\<lparr>pcm_rd := pcm_rd r + of_nat n\<rparr>) = drop n (pcm_queue r)"
    using pcm_ring.queued_advance [OF assms(2)] by (simp add: pcm_queue_def ok(3))
  show "app_rings (r\<lparr>pcm_rd := pcm_rd r + of_nat n\<rparr>)"
  proof -
    have "fill (pcm_wr r) (pcm_rd r + of_nat n) \<le> CQ_AUD_RING_BYTES"
      unfolding fill_add_rd [OF assms(2)] using ok(2) by simp
    then show ?thesis using assms(1) pcm_ring.byte_ring_axioms comp_ring.byte_ring_axioms
      by (simp add: app_rings_def decring_ok_def)
  qed
qed

lemma pcm_queue_length: "length (pcm_queue r) = fill (pcm_wr r) (pcm_rd r)"
  by (simp add: pcm_queue_def)

lemma ring_fill_unat: "unat (ring_fill s) = length (pcm_queue (gDec s))"
  by (simp add: ring_fill_def pcm_queue_length fill_def)

lemma apply_skip_spec:
  assumes "app_rings (gDec s)" "0 \<le> gRingSkip s" "gRingSkip s < 2 ^ 31"
  shows "app_rings (gDec (apply_skip s))" "gRingSkip (apply_skip s) = 0"
    "pcm_queue (gDec (apply_skip s)) = drop (nat (gRingSkip s)) (pcm_queue (gDec s))"
    "gStream (apply_skip s) = gStream s" "gFmt (apply_skip s) = gFmt s"
    "\<exists>r. apply_skip s = s\<lparr>gDec := r, gRingSkip := 0\<rparr>"
proof -
  let ?n = "nat (gRingSkip s)" and ?f = "fill (gRingWr s) (gRingRd s)"
  have u: "unat (of_int (gRingSkip s) :: u32) = ?n"
    using assms(2,3) by (simp add: unat_eq_nat_uint unsigned_of_int take_bit_int_eq_self)
  have i: "(of_int (gRingSkip s) :: u32) = of_nat ?n"
    using assms(2) by (metis int_nat_eq of_int_of_nat_eq)
  have e: "apply_skip s = s\<lparr>gDec := (gDec s)\<lparr>pcm_rd := gRingRd s + of_nat (min ?n ?f)\<rparr>, gRingSkip := 0\<rparr>"
  proof (cases "gRingSkip s > 0")
    case True
    have "(if (of_int (gRingSkip s) :: u32) > ring_fill s then ring_fill s else of_int (gRingSkip s)) = of_nat (min ?n ?f)"
      using u i unfolding word_less_nat_alt by (auto simp: ring_fill_def fill_def min_def)
    then show ?thesis using True by (simp add: apply_skip_def Let_def)
  next
    case False
    then have "gRingSkip s = 0" using assms(2) by simp
    then show ?thesis by (simp add: apply_skip_def)
  qed
  have n: "min ?n ?f \<le> ?f" by simp
  note rd = app_read [OF assms(1) n]
  show "app_rings (gDec (apply_skip s))" "gRingSkip (apply_skip s) = 0" "gStream (apply_skip s) = gStream s"
    "gFmt (apply_skip s) = gFmt s" using rd(3) by (simp_all add: e)
  show "pcm_queue (gDec (apply_skip s)) = drop ?n (pcm_queue (gDec s))"
    using rd(2) pcm_queue_length [of "gDec s"] by (simp add: e min_def)
  show "\<exists>r. apply_skip s = s\<lparr>gDec := r, gRingSkip := 0\<rparr>" using e by blast
qed

text \<open>What a refill does to the state: the skip, an advance over what was there, perhaps a count.\<close>

lemma double_back_state:
  assumes "AudioDoubleBack s = (s', out, nf)" "s1 = apply_skip (s\<lparr>gDBFires := wrap32 (gDBFires s + 1)\<rparr>)"
  shows "\<exists>n s2. s2 = s1\<lparr>gDec := (gDec s1)\<lparr>pcm_rd := gRingRd s1 + of_nat n\<rparr>\<rparr> \<and> n \<le> unat (ring_fill s1) \<and>
    (s' = s2 \<or> s' = s2\<lparr>gDBSilence := wrap32 (gDBSilence s2 + 1)\<rparr>)"
proof -
  define n where "n = (if unat (ring_fill s1) \<ge> CQ_AUD_CHUNK then CQ_AUD_CHUNK
    else if gStream s1 = None \<and> unat (ring_fill s1) > 0 then unat (ring_fill s1) else 0)"
  define s2 where "s2 = s1\<lparr>gDec := (gDec s1)\<lparr>pcm_rd := gRingRd s1 + of_nat n\<rparr>\<rparr>"
  have "s' = (if n < CQ_AUD_CHUNK \<and> n = 0 then s2\<lparr>gDBSilence := wrap32 (gDBSilence s2 + 1)\<rparr> else s2)"
    using assms(1) unfolding AudioDoubleBack_def Let_def assms(2) [symmetric] n_def [symmetric] s2_def [symmetric]
    by (rule Pair_inject) (rule sym)
  moreover have "n \<le> unat (ring_fill s1)" by (auto simp: n_def)
  ultimately show ?thesis using s2_def by metis
qed

subsection \<open>From the wire into the pipeline\<close>

lemma put_app_rings:
  assumes "app_rings r" "length bs \<le> snd (cq_decring_claim r)"
  shows "app_rings (put_claimed r bs)" "input (put_claimed r bs) = input r @ bs"
    "pcm_queue (put_claimed r bs) = pcm_queue r"
  using put_claimed_spec [of r bs] assms
  by (simp_all add: app_rings_def) (simp_all add: put_claimed_def cq_decring_commit_def)

lemma put_claimed_eq:
  "cq_decring_claim r = (off, contig) \<Longrightarrow>
    cq_decring_commit (r\<lparr>comp := memcpy_at (comp r) off bs\<rparr>) (of_nat (length bs)) = put_claimed r bs"
  by (simp add: put_claimed_def)

lemma drain_parts:
  assumes "cq_tx_drain t n = (bs, t')"
  shows "data t = bs @ data t'" "length bs \<le> n" "t' = t\<lparr>data := data t'\<rparr>" "bs = [] \<Longrightarrow> n = 0 \<or> data t' = []"
  using assms by (auto simp: cq_tx_drain_def Let_def split: if_splits)

lemma drain_loop_spec:
  "drain_loop t r x = (t', r', x') \<Longrightarrow> app_rings r \<Longrightarrow>
    \<exists>moved. data t = moved @ data t' \<and> input r' = input r @ moved \<and> app_rings r' \<and>
      pcm_queue r' = pcm_queue r \<and> t' = t\<lparr>data := data t'\<rparr> \<and>
      (data t' = [] \<or> length (comp_queue r') = CQ_AUD_COMP_RING)"
proof (induction t r x rule: drain_loop.induct)
  case (1 t r x)
  obtain off contig where c: "cq_decring_claim r = (off, contig)" by (cases "cq_decring_claim r")
  have ok: "decring_ok r" "comp_size r = CQ_AUD_COMP_RING" using "1.prems"(2) by (simp_all add: app_rings_def)
  note cl = claim_spec [OF ok(1) c]
  obtain bs t1 where d: "cq_tx_drain t contig = (bs, t1)" by (cases "cq_tx_drain t contig")
  note dp = drain_parts [OF d]
  note eq = drain_loop.simps [of t r x, unfolded c prod.case d]
  consider "contig = 0" | "contig \<noteq> 0" "bs = []" | "contig \<noteq> 0" "bs \<noteq> []" by blast
  then show ?case
  proof cases
    case 1
    then show ?thesis using "1.prems" eq cl(4) ok(2) by (intro exI [of _ "[]"]) auto
  next
    case 2
    then show ?thesis using "1.prems" eq dp by (intro exI [of _ "[]"]) auto
  next
    case 3
    have l: "length bs \<le> snd (cq_decring_claim r)" using dp(2) c by simp
    note p = put_app_rings [OF "1.prems"(2) l]
    have r: "drain_loop t1 (put_claimed r bs) (wrap32 (x + int (length bs))) = (t', r', x')"
      using "1.prems"(1) 3 eq put_claimed_eq [OF c] by simp
    from "1.IH" [OF c [symmetric] 3(1) d [symmetric] 3(2), unfolded put_claimed_eq [OF c], OF r p(1)]
    obtain moved where "data t1 = moved @ data t'" "input r' = input (put_claimed r bs) @ moved" "app_rings r'"
      "pcm_queue r' = pcm_queue (put_claimed r bs)" "t' = t1\<lparr>data := data t'\<rparr>"
      "data t' = [] \<or> length (comp_queue r') = CQ_AUD_COMP_RING" by blast
    then show ?thesis using dp(1,3) p(2,3) by (intro exI [of _ "bs @ moved"]) auto
  qed
qed

lemma handoff_spec:
  "app_rings r \<Longrightarrow> \<exists>moved rest. bs = moved @ rest \<and> input (handoff_loop bs r) = input r @ moved \<and>
    app_rings (handoff_loop bs r) \<and> pcm_queue (handoff_loop bs r) = pcm_queue r \<and>
    (rest = [] \<or> length (comp_queue (handoff_loop bs r)) = CQ_AUD_COMP_RING)"
proof (induction bs r rule: handoff_loop.induct)
  case (1 bs r)
  obtain off contig where c: "cq_decring_claim r = (off, contig)" by (cases "cq_decring_claim r")
  have ok: "decring_ok r" "comp_size r = CQ_AUD_COMP_RING" using "1.prems" by (simp_all add: app_rings_def)
  note cl = claim_spec [OF ok(1) c]
  define n where "n = (if contig > length bs then length bs else contig)"
  note eq = handoff_loop.simps [of bs r, unfolded c prod.case Let_def, folded n_def]
  consider "bs = []" | "bs \<noteq> []" "contig = 0" | "bs \<noteq> []" "contig \<noteq> 0" by blast
  then show ?case
  proof cases
    case 1
    then show ?thesis using "1.prems" eq by auto
  next
    case 2
    then show ?thesis using "1.prems" eq cl(4) ok(2) by (intro exI [of _ "[]"] exI [of _ bs]) auto
  next
    case 3
    have l: "length (take n bs) = n" "n \<le> contig" by (auto simp: n_def)
    then have l': "length (take n bs) \<le> snd (cq_decring_claim r)" using c by simp
    note p = put_app_rings [OF "1.prems" l']
    have pc: "cq_decring_commit (r\<lparr>comp := memcpy_at (comp r) off (take n bs)\<rparr>) (of_nat n) = put_claimed r (take n bs)"
      using put_claimed_eq [OF c, of "take n bs"] l(1) by simp
    have h: "handoff_loop bs r = handoff_loop (drop n bs) (put_claimed r (take n bs))"
      using eq 3 pc by simp
    from "1.IH" [OF 3(1) c [symmetric] 3(2) n_def, unfolded pc, OF p(1)]
    obtain moved rest where "drop n bs = moved @ rest"
      "input (handoff_loop bs r) = input (put_claimed r (take n bs)) @ moved" "app_rings (handoff_loop bs r)"
      "pcm_queue (handoff_loop bs r) = pcm_queue (put_claimed r (take n bs))"
      "rest = [] \<or> length (comp_queue (handoff_loop bs r)) = CQ_AUD_COMP_RING" unfolding h [symmetric] by blast
    moreover from this(1) have "bs = (take n bs @ moved) @ rest" by (metis append.assoc append_take_drop_id)
    ultimately show ?thesis using p(2,3) by (intro exI [of _ "take n bs @ moved"] exI [of _ rest]) auto
  qed
qed

subsection \<open>Properties\<close>

text \<open>C8. One refill of the sound hardware: first the requested skip is taken off the front of what is
queued; then the buffer is a whole chunk from the front of the queue, or a whole chunk of silence
that leaves the queue alone -- except that the last partial chunk of a stream that is gone is
played, padded with silence. The buffer is always full, and the skip request is cleared.\<close>

theorem double_back_exact:
  assumes "app_rings (gDec s)" "0 \<le> gRingSkip s" "gRingSkip s < 2 ^ 31" "AudioDoubleBack s = (s', out, nf)"
    "q = drop (nat (gRingSkip s)) (pcm_queue (gDec s))"
  shows "length out = CQ_AUD_CHUNK \<and> app_rings (gDec s') \<and> gRingSkip s' = 0 \<and>
    (if CQ_AUD_CHUNK \<le> length q then out = take CQ_AUD_CHUNK q \<and> pcm_queue (gDec s') = drop CQ_AUD_CHUNK q
     else if gStream s = None then out = q @ replicate (CQ_AUD_CHUNK - length q) NUL \<and> pcm_queue (gDec s') = []
     else out = replicate CQ_AUD_CHUNK NUL \<and> pcm_queue (gDec s') = q)"
proof -
  define s1 where "s1 = apply_skip (s\<lparr>gDBFires := wrap32 (gDBFires s + 1)\<rparr>)"
  have sk: "app_rings (gDec s1)" "gRingSkip s1 = 0" "pcm_queue (gDec s1) = q" "gStream s1 = gStream s"
    using apply_skip_spec [of "s\<lparr>gDBFires := wrap32 (gDBFires s + 1)\<rparr>"] assms(1-3,5) by (simp_all add: s1_def)
  define n where "n = (if length q \<ge> CQ_AUD_CHUNK then CQ_AUD_CHUNK
    else if gStream s = None \<and> length q > 0 then length q else 0)"
  have f: "unat (ring_fill s1) = length q" by (simp add: ring_fill_unat sk(3))
  have nq: "n \<le> length q" "n \<le> CQ_AUD_CHUNK" by (auto simp: n_def)
  have le: "n \<le> fill (gRingWr s1) (gRingRd s1)" using nq(1) sk(3) pcm_queue_length [of "gDec s1"] by simp
  note rd = app_read [OF sk(1) le]
  define s2 where "s2 = s1\<lparr>gDec := (gDec s1)\<lparr>pcm_rd := gRingRd s1 + of_nat n\<rparr>\<rparr>"
  have v: "AudioDoubleBack s = (if n < CQ_AUD_CHUNK \<and> n = 0 then s2\<lparr>gDBSilence := wrap32 (gDBSilence s2 + 1)\<rparr> else s2,
      take n q @ replicate (CQ_AUD_CHUNK - n) NUL,
      tdiv (int CQ_AUD_CHUNK) (2 * channels (gFmt (if n < CQ_AUD_CHUNK \<and> n = 0
        then s2\<lparr>gDBSilence := wrap32 (gDBSilence s2 + 1)\<rparr> else s2))))"
    unfolding AudioDoubleBack_def Let_def s1_def [symmetric] f sk(4) n_def [symmetric] rd(1) sk(3) s2_def [symmetric] ..
  then have e: "s' = (if n < CQ_AUD_CHUNK \<and> n = 0 then s2\<lparr>gDBSilence := wrap32 (gDBSilence s2 + 1)\<rparr> else s2)"
    "out = take n q @ replicate (CQ_AUD_CHUNK - n) NUL"
    using assms(4) by simp_all
  have g: "gDec s' = (gDec s1)\<lparr>pcm_rd := gRingRd s1 + of_nat n\<rparr>" "gRingSkip s' = 0"
    using sk(2) by (simp_all add: e(1) s2_def)
  have "pcm_queue (gDec s') = drop n q" "app_rings (gDec s')" unfolding g(1) using rd(2,3) sk(3) by simp_all
  moreover have "length out = CQ_AUD_CHUNK" using nq by (simp add: e(2))
  ultimately show ?thesis using g(2) by (simp add: e(2) n_def)
qed

text \<open>An engine at rest, with its rings.\<close>

definition quiet_audio :: "nat audio" where
  "quiet_audio = \<lparr>gSearchItems = cq_track_list_empty, gSearchArtists = cq_ref_list_empty,
     gSearchAlbums = cq_ref_list_empty, gArtistAlbums = cq_ref_list_empty, gAlbumBrowse = False,
     gBrowseArtist = [], gQueueItems = cq_track_list_empty,
     mach = mach idle_task, gDec = app_ring, gMPOk = False, gMPDecode = False, gDecTask = False, gDecQ = False,
     gDecCmd = CQ_DEC_PARK, gDecAck = CQ_DEC_PARK, gDecBeat = 0,
     gStream = None, gAuSt = AU_IDLE, gComp = [], gHaveRing = True, gHaveCompRing = True,
     gFmt = \<lparr>version = 1, bitrate_kbps = 128, samplerate = 44100, channels = 2, samples = 1152, frame_bytes = 417\<rparr>,
     gChan = False, gHaveDB = False, gDB = ([], []), gPlaying = False, gDBFires = 0, gDBSilence = 0,
     gRingSkip = 0, gTrims = 0, gStarveTick = 0, gRxTick = 0, gAuBeat = 0, gRxTotal = 0, gDecResSeen = 0,
     gDecFluSeen = 0, prevSil = 0, prevRx = -1, prevBeat = 0\<rparr>"

lemma app_ring_rings: "app_rings app_ring"
  using app_ring_ok by (simp add: app_rings_def app_ring_def cq_decring_init_def)

theorem double_back_exact_witness:
  "fst (snd (AudioDoubleBack quiet_audio)) = replicate 32768 NUL"
proof -
  obtain s' out nf where r: "AudioDoubleBack quiet_audio = (s', out, nf)" by (cases "AudioDoubleBack quiet_audio") auto
  have h: "app_rings (gDec quiet_audio)" "0 \<le> gRingSkip quiet_audio" "gRingSkip quiet_audio < 2 ^ 31"
    "pcm_queue (gDec quiet_audio) = []" "gStream quiet_audio = None"
    using app_ring_rings app_ring_input(2) by (simp_all add: quiet_audio_def)
  show ?thesis using double_back_exact [OF h(1-3) r refl] h(4,5) by (simp add: r)
qed

text \<open>C9. Draining the stream moves bytes from the transport's buffer to the decode pipeline without
losing, repeating or reordering any, and stops only when the buffer is empty or the compressed ring
is full; nothing that waits to be played changes.\<close>

theorem drain_moves_all:
  assumes "app_rings (gDec s)" "gStream s = Some t"
  shows "\<exists>moved t'. gStream (DrainStreamToDec s) = Some t' \<and> data t = moved @ data t' \<and>
    input (gDec (DrainStreamToDec s)) = input (gDec s) @ moved \<and> app_rings (gDec (DrainStreamToDec s)) \<and>
    pcm_queue (gDec (DrainStreamToDec s)) = pcm_queue (gDec s) \<and>
    (data t' = [] \<or> length (comp_queue (gDec (DrainStreamToDec s))) = CQ_AUD_COMP_RING)"
proof -
  obtain t' r' x' where d: "drain_loop t (gDec s) (gRxTotal s) = (t', r', x')"
    by (cases "drain_loop t (gDec s) (gRxTotal s)") auto
  from drain_loop_spec [OF d assms(1)] show ?thesis
    by (auto simp: DrainStreamToDec_def assms(2) d)
qed

theorem drain_moves_all_witness:
  "\<exists>t'. gStream (DrainStreamToDec (quiet_audio\<lparr>gStream := Some (cq_tx_stream_new ''h'' 8000 None)\<rparr>)) = Some t'"
proof -
  let ?s = "quiet_audio\<lparr>gStream := Some (cq_tx_stream_new ''h'' 8000 None)\<rparr>"
  have "app_rings (gDec ?s)" "gStream ?s = Some (cq_tx_stream_new ''h'' 8000 None)"
    using app_ring_rings by (simp_all add: quiet_audio_def)
  from drain_moves_all [OF this] show ?thesis by blast
qed

end
