(* ===== verification/AudioInv.thy ===== *)
theory AudioInv
  imports Audio
begin

text \<open>
  The invariant of the audio engine over every order of its events: service passes of the loop,
  refills at interrupt time, passes of the decode task, tuning in and stopping.
\<close>

subsection \<open>The environment's contract\<close>

text \<open>
  While the loop yields, the task may work on the pipeline and acknowledge, and time passes; fresh
  memory has the size asked for; the provider and the decoder behave as documented.
\<close>

definition lengths_kept :: "cq_decring \<Rightarrow> cq_decring \<Rightarrow> bool" where
  "lengths_kept r r' \<longleftrightarrow> (app_rings r \<longrightarrow> app_rings r') \<and> length (pcm r') = length (pcm r) \<and>
     length (comp r') = length (comp r)"

definition yield_ok :: "('w, ('w, 'a) audio_scheme) env \<Rightarrow> bool" where
  "yield_ok env \<longleftrightarrow> (\<forall>s. \<exists>w r a b. e_yield env s =
     s\<lparr>mach := (mach s)\<lparr>world := w\<rparr>, gDec := r, gDecAck := a, gDecBeat := b\<rparr> \<and> lengths_kept (gDec s) r)"

definition env_ok :: "('w, ('w, 'a) audio_scheme) env \<Rightarrow> ('w \<Rightarrow> bytes) \<Rightarrow> ('w \<Rightarrow> bytes) \<Rightarrow> bool" where
  "env_ok env rx tx \<longleftrightarrow> ot_ok (e_ot env) rx tx \<and> dec_ok (e_dec env) \<and> yield_ok env \<and>
     (\<forall>n p. e_newptr env n = Some p \<longrightarrow> length p = n)"

subsection \<open>The invariant\<close>

definition au_ok :: "('w, 'a) audio_scheme \<Rightarrow> bool" where
  "au_ok s \<longleftrightarrow> length (gComp s) \<le> CQ_AUD_COMP_MAX \<and> 0 \<le> gRingSkip s \<and> gRingSkip s < 2 ^ 31 \<and>
     (gHaveRing s \<longrightarrow> length (pcm (gDec s)) = CQ_AUD_RING_BYTES) \<and>
     (gHaveCompRing s \<longrightarrow> length (comp (gDec s)) = CQ_AUD_COMP_RING) \<and>
     (gPlaying s \<longrightarrow> gChan s) \<and> (gChan s \<longrightarrow> gAuSt s = AU_PLAY) \<and>
     (\<forall>t. gStream s = Some t \<longrightarrow> tx_ok t \<and> streaming t) \<and>
     (gAuSt s = AU_IDLE \<longrightarrow> gStream s = None \<and> gComp s = []) \<and>
     (gAuSt s = AU_HTTP \<or> gAuSt s = AU_SYNC \<longrightarrow> gStream s \<noteq> None) \<and>
     (gAuSt s = AU_PLAY \<longrightarrow> gComp s = [] \<and> app_rings (gDec s))"

lemma au_ok_upd [simp]:
  "au_ok (s\<lparr>gAuBeat := x\<rparr>) = au_ok s" "au_ok (s\<lparr>gAuBeat := x, prevBeat := y\<rparr>) = au_ok s"
  "au_ok (s\<lparr>gDecResSeen := a, gDecFluSeen := b\<rparr>) = au_ok s" "au_ok (s\<lparr>gDecCmd := c\<rparr>) = au_ok s"
  by (simp_all add: au_ok_def)

lemma au_ok_skip: "au_ok s \<Longrightarrow> 0 \<le> k \<Longrightarrow> k < 2 ^ 31 \<Longrightarrow> au_ok (s\<lparr>gRingSkip := k, gTrims := n\<rparr>)"
  by (simp add: au_ok_def)

text \<open>What parking may change.\<close>

definition parked_from :: "('w, 'a) audio_scheme \<Rightarrow> ('w, 'a) audio_scheme \<Rightarrow> bool" where
  "parked_from s s' \<longleftrightarrow> (\<exists>m r d c a b. s' = s\<lparr>mach := m, gDec := r, gMPDecode := d, gDecCmd := c, gDecAck := a,
     gDecBeat := b\<rparr> \<and> lengths_kept (gDec s) r)"

lemma lengths_refl [simp]: "lengths_kept r r"
  by (simp add: lengths_kept_def)

lemma lengths_trans: "lengths_kept r1 r2 \<Longrightarrow> lengths_kept r2 r3 \<Longrightarrow> lengths_kept r1 r3"
  by (simp add: lengths_kept_def)

lemma parked_refl: "parked_from s s"
proof -
  have "s = s\<lparr>mach := mach s, gDec := gDec s, gMPDecode := gMPDecode s, gDecCmd := gDecCmd s,
      gDecAck := gDecAck s, gDecBeat := gDecBeat s\<rparr>" by simp
  then show ?thesis unfolding parked_from_def using lengths_refl by blast
qed

lemma parked_trans: "parked_from s1 s2 \<Longrightarrow> parked_from s2 s3 \<Longrightarrow> parked_from s1 s3"
  unfolding parked_from_def using lengths_trans by (elim exE conjE) (simp, blast)

lemma parked_fields:
  assumes "parked_from s s'"
  shows "gStream s' = gStream s" "gAuSt s' = gAuSt s" "gComp s' = gComp s" "gHaveRing s' = gHaveRing s"
    "gHaveCompRing s' = gHaveCompRing s" "gFmt s' = gFmt s" "gChan s' = gChan s" "gPlaying s' = gPlaying s"
    "gRingSkip s' = gRingSkip s" "lengths_kept (gDec s) (gDec s')" "gDecTask s' = gDecTask s"
  using assms unfolding parked_from_def by (elim exE conjE, simp)+

lemma yield_parked: "yield_ok env \<Longrightarrow> parked_from s (e_yield env s)"
proof -
  assume "yield_ok env"
  then obtain w r a b where "e_yield env s =
     s\<lparr>mach := (mach s)\<lparr>world := w\<rparr>, gDec := r, gDecAck := a, gDecBeat := b\<rparr>" "lengths_kept (gDec s) r"
    unfolding yield_ok_def by blast
  moreover have "s\<lparr>mach := (mach s)\<lparr>world := w\<rparr>, gDec := r, gDecAck := a, gDecBeat := b\<rparr> =
      s\<lparr>mach := (mach s)\<lparr>world := w\<rparr>, gDec := r, gMPDecode := gMPDecode s, gDecCmd := gDecCmd s, gDecAck := a,
        gDecBeat := b\<rparr>" by simp
  ultimately show ?thesis unfolding parked_from_def by metis
qed

lemma parked_set:
  "parked_from s (s\<lparr>gMPDecode := d\<rparr>)" "parked_from s (s\<lparr>gDecCmd := c\<rparr>)"
  "parked_from s (s\<lparr>gDecCmd := c, gDecAck := a\<rparr>)"
proof -
  have "s\<lparr>gMPDecode := d\<rparr> = s\<lparr>mach := mach s, gDec := gDec s, gMPDecode := d, gDecCmd := gDecCmd s,
      gDecAck := gDecAck s, gDecBeat := gDecBeat s\<rparr>" by simp
  then show "parked_from s (s\<lparr>gMPDecode := d\<rparr>)" unfolding parked_from_def using lengths_refl by blast
  have "s\<lparr>gDecCmd := c\<rparr> = s\<lparr>mach := mach s, gDec := gDec s, gMPDecode := gMPDecode s, gDecCmd := c,
      gDecAck := gDecAck s, gDecBeat := gDecBeat s\<rparr>" by simp
  then show "parked_from s (s\<lparr>gDecCmd := c\<rparr>)" unfolding parked_from_def using lengths_refl by blast
  have "s\<lparr>gDecCmd := c, gDecAck := a\<rparr> = s\<lparr>mach := mach s, gDec := gDec s, gMPDecode := gMPDecode s, gDecCmd := c,
      gDecAck := a, gDecBeat := gDecBeat s\<rparr>" by simp
  then show "parked_from s (s\<lparr>gDecCmd := c, gDecAck := a\<rparr>)" unfolding parked_from_def using lengths_refl by blast
qed

lemma park_loop_parked:
  assumes "yield_ok env"
  shows "park_loop k env t0 s = Some s' \<Longrightarrow> parked_from s s'"
proof (induction k arbitrary: s)
  case (Suc k)
  show ?case
  proof (cases "gDecAck s = CQ_DEC_PARK \<or> TickCount env s - t0 > 30")
    case True
    then have "s' = s \<or> s' = s\<lparr>gMPDecode := False\<rparr>" using Suc.prems by (auto split: if_splits)
    then show ?thesis using parked_refl parked_set(1) by blast
  next
    case False
    then have "park_loop k env t0 (e_yield env s) = Some s'" using Suc.prems by simp
    from Suc.IH [OF this] yield_parked [OF assms, of s] show ?thesis by (metis parked_trans)
  qed
qed simp

lemma park_parked:
  assumes "yield_ok env" "ParkDecTask env s = Some s'" shows "parked_from s s'"
proof (cases "gDecTask s")
  case True
  then have "park_loop (e_fuel env) env (TickCount env s) (s\<lparr>gDecCmd := CQ_DEC_PARK\<rparr>) = Some s'"
    using assms(2) by (simp add: ParkDecTask_def)
  from park_loop_parked [OF assms(1) this] parked_set(2) show ?thesis by (metis parked_trans)
next
  case False
  then show ?thesis using assms(2) parked_refl by (simp add: ParkDecTask_def)
qed

subsection \<open>Stopping and opening\<close>

definition at_rest :: "('w, 'a) audio_scheme \<Rightarrow> bool" where
  "at_rest s \<longleftrightarrow> gAuSt s = AU_IDLE \<and> gStream s = None \<and> gComp s = [] \<and> \<not> gChan s \<and> \<not> gPlaying s \<and>
     gRingSkip s = 0 \<and> gRingWr s = 0 \<and> gRingRd s = 0 \<and> cq_decring_idle (gDec s)"

lemma stop_spec:
  assumes "yield_ok env" "StopAudio env s = Some s'"
  shows "at_rest s'" "gHaveRing s' = gHaveRing s" "gHaveCompRing s' = gHaveCompRing s"
    "length (pcm (gDec s')) = length (pcm (gDec s))" "length (comp (gDec s')) = length (comp (gDec s))"
proof -
  define s1 where "s1 = (case gStream s of
      Some t \<Rightarrow> (s\<lparr>gChan := False\<rparr>)\<lparr>mach := cancel_free (e_ot env) (mach s) t, gStream := None\<rparr>
    | None \<Rightarrow> s\<lparr>gChan := False\<rparr>)"
  define s2 where "s2 = s1\<lparr>gAuSt := AU_IDLE, gComp := []\<rparr>"
  have f: "gStream s2 = None" "gAuSt s2 = AU_IDLE" "gComp s2 = []" "\<not> gChan s2" "gHaveRing s2 = gHaveRing s"
    "gHaveCompRing s2 = gHaveCompRing s" "gDec s2 = gDec s"
    by (simp_all add: s2_def s1_def split: option.split)
  obtain s3 where p: "ParkDecTask env s2 = Some s3"
    and s': "s' = s3\<lparr>gDec := (cq_decring_reset (gDec s3))\<lparr>pcm_wr := 0, pcm_rd := 0\<rparr>, gPlaying := False,
       gRingSkip := 0, gStarveTick := 0, gRxTick := 0\<rparr>"
    using assms(2) by (auto simp: StopAudio_def s2_def s1_def bind_eq_Some_conv Let_def split: option.splits)
  note pf = parked_fields [OF park_parked [OF assms(1) p]]
  show "at_rest s'" using pf f by (simp add: s' at_rest_def cq_decring_idle_def cq_decring_reset_def)
  show "gHaveRing s' = gHaveRing s" "gHaveCompRing s' = gHaveCompRing s"
    "length (pcm (gDec s')) = length (pcm (gDec s))" "length (comp (gDec s')) = length (comp (gDec s))"
    using pf f by (simp_all add: s' lengths_kept_def cq_decring_reset_def)
qed

lemma stop_ok:
  assumes "yield_ok env" "StopAudio env s = Some s'"
    "gHaveRing s \<longrightarrow> length (pcm (gDec s)) = CQ_AUD_RING_BYTES"
    "gHaveCompRing s \<longrightarrow> length (comp (gDec s)) = CQ_AUD_COMP_RING"
  shows "au_ok s'"
  using stop_spec [OF assms(1,2)] assms(3,4) by (simp add: au_ok_def at_rest_def)

definition rings_kept :: "('w, 'a) audio_scheme \<Rightarrow> bool" where
  "rings_kept s \<longleftrightarrow> (gHaveRing s \<longrightarrow> length (pcm (gDec s)) = CQ_AUD_RING_BYTES) \<and>
     (gHaveCompRing s \<longrightarrow> length (comp (gDec s)) = CQ_AUD_COMP_RING)"

lemma au_ok_rings: "au_ok s \<Longrightarrow> rings_kept s"
  by (simp add: au_ok_def rings_kept_def)

lemma start_task_fields [simp]:
  "gStream (StartDecTask env s) = gStream s" "gAuSt (StartDecTask env s) = gAuSt s"
  "gComp (StartDecTask env s) = gComp s" "gHaveRing (StartDecTask env s) = gHaveRing s"
  "gHaveCompRing (StartDecTask env s) = gHaveCompRing s" "gChan (StartDecTask env s) = gChan s"
  "gDec (StartDecTask env s) = gDec s"
  by (simp_all add: StartDecTask_def Let_def)

lemma open_spec:
  assumes "env_ok env rx tx" "OpenAudioOutput env s = Some (s', ok)" "rings_kept s"
  shows "rings_kept s'" "gStream s' = gStream s" "gAuSt s' = gAuSt s" "gComp s' = gComp s" "gChan s' = gChan s"
    "ok \<Longrightarrow> app_rings (gDec s') \<and> \<not> gPlaying s' \<and> gRingSkip s' = 0"
    "\<not> ok \<Longrightarrow> gPlaying s' = gPlaying s \<and> gRingSkip s' = gRingSkip s"
proof -
  have y: "yield_ok env" and np: "\<And>n p. e_newptr env n = Some p \<Longrightarrow> length p = n"
    using assms(1) by (simp_all add: env_ok_def)
  obtain s1 k1 where t1: "take_ring env s = (s1, k1)" by (cases "take_ring env s")
  have f1: "rings_kept s1" "k1 \<longrightarrow> gHaveRing s1" "gStream s1 = gStream s" "gAuSt s1 = gAuSt s" "gComp s1 = gComp s"
    "gChan s1 = gChan s" "gPlaying s1 = gPlaying s" "gRingSkip s1 = gRingSkip s"
    using t1 assms(3) np by (auto simp: take_ring_def rings_kept_def split: if_splits option.splits)
  obtain s2 k2 where t2: "take_comp_ring env s1 = (s2, k2)" by (cases "take_comp_ring env s1")
  have f2: "rings_kept s2" "k2 \<longrightarrow> gHaveCompRing s2" "gHaveRing s2 = gHaveRing s1" "gStream s2 = gStream s"
    "gAuSt s2 = gAuSt s" "gComp s2 = gComp s" "gChan s2 = gChan s" "gPlaying s2 = gPlaying s" "gRingSkip s2 = gRingSkip s"
    using t2 f1 np by (auto simp: take_comp_ring_def rings_kept_def split: if_splits option.splits)
  have "rings_kept s' \<and> gStream s' = gStream s \<and> gAuSt s' = gAuSt s \<and> gComp s' = gComp s \<and> gChan s' = gChan s \<and>
    (ok \<longrightarrow> app_rings (gDec s') \<and> \<not> gPlaying s' \<and> gRingSkip s' = 0) \<and>
    (\<not> ok \<longrightarrow> gPlaying s' = gPlaying s \<and> gRingSkip s' = gRingSkip s)"
  proof (cases "k1 \<and> k2")
    case False
    then have "(s' = s1 \<or> s' = s2) \<and> \<not> ok" using assms(2) by (auto simp: OpenAudioOutput_def t1 t2 split: if_splits)
    then show ?thesis using f1 f2 by auto
  next
    case True
    then obtain s3 where p: "ParkDecTask env (StartDecTask env s2) = Some s3" and ok
      and s': "s' = (s3\<lparr>gMPDecode := gDecTask s3\<rparr>)\<lparr>gDec := (cq_decring_init (comp (gDec s3)) CQ_AUD_COMP_RING
          (pcm (gDec s3)) CQ_AUD_RING_BYTES 0 0)\<lparr>now := True\<rparr>, gDecResSeen := 0, gDecFluSeen := 0,
          mach := (mach s3)\<lparr>world := e_decinit env (world (mach s3))\<rparr>, gPlaying := False,
          gDBFires := 0, gDBSilence := 0, gRingSkip := 0, gTrims := 0\<rparr>"
      using assms(2) by (auto simp: OpenAudioOutput_def t1 t2 bind_eq_Some_conv Let_def)
    note f3 = parked_fields [OF park_parked [OF y p], unfolded start_task_fields]
    have l: "length (comp (gDec s3)) = CQ_AUD_COMP_RING" "length (pcm (gDec s3)) = CQ_AUD_RING_BYTES"
      using f3 f1(2) f2(1-3) True by (simp_all add: lengths_kept_def rings_kept_def)
    have "app_rings (gDec s')"
      using init_decring_ok [OF l, of 0 0]
      by (simp add: s' app_rings_def decring_ok_def cq_decring_init_def)
    moreover have "length (pcm (gDec s')) = CQ_AUD_RING_BYTES" "length (comp (gDec s')) = CQ_AUD_COMP_RING"
      using l by (simp_all add: s' cq_decring_init_def)
    ultimately show ?thesis using f3 f2 \<open>ok\<close> by (simp add: s' rings_kept_def)
  qed
  then show "rings_kept s'" "gStream s' = gStream s" "gAuSt s' = gAuSt s" "gComp s' = gComp s" "gChan s' = gChan s"
    "ok \<Longrightarrow> app_rings (gDec s') \<and> \<not> gPlaying s' \<and> gRingSkip s' = 0"
    "\<not> ok \<Longrightarrow> gPlaying s' = gPlaying s \<and> gRingSkip s' = gRingSkip s" by blast+
qed

subsection \<open>Refills and passes of the task\<close>

text \<open>What a refill keeps.\<close>

lemma double_back_frame:
  assumes "app_rings (gDec s)" "0 \<le> gRingSkip s" "gRingSkip s < 2 ^ 31" "AudioDoubleBack s = (s', out, nf)"
  shows "app_rings (gDec s')" "gRingSkip s' = 0" "gStream s' = gStream s" "gAuSt s' = gAuSt s" "gComp s' = gComp s"
    "gHaveRing s' = gHaveRing s" "gHaveCompRing s' = gHaveCompRing s" "gChan s' = gChan s" "gPlaying s' = gPlaying s"
proof -
  define s1 where "s1 = apply_skip (s\<lparr>gDBFires := wrap32 (gDBFires s + 1)\<rparr>)"
  obtain r where r: "s1 = s\<lparr>gDBFires := wrap32 (gDBFires s + 1), gDec := r, gRingSkip := 0\<rparr>"
    using apply_skip_spec(6) [of "s\<lparr>gDBFires := wrap32 (gDBFires s + 1)\<rparr>"] assms(1-3) by (auto simp: s1_def)
  have rr: "app_rings (gDec s1)"
    using apply_skip_spec(1) [of "s\<lparr>gDBFires := wrap32 (gDBFires s + 1)\<rparr>"] assms(1-3) by (simp add: s1_def)
  obtain n s2 where s2: "s2 = s1\<lparr>gDec := (gDec s1)\<lparr>pcm_rd := gRingRd s1 + of_nat n\<rparr>\<rparr>"
    "n \<le> unat (ring_fill s1)" "s' = s2 \<or> s' = s2\<lparr>gDBSilence := wrap32 (gDBSilence s2 + 1)\<rparr>"
    using double_back_state [OF assms(4) s1_def] by blast
  have "n \<le> fill (gRingWr s1) (gRingRd s1)" using s2(2) by (simp add: ring_fill_def fill_def)
  note rd = app_read(3) [OF rr this]
  have d: "gDec s' = (gDec s1)\<lparr>pcm_rd := gRingRd s1 + of_nat n\<rparr>" using s2(1,3) by auto
  show "app_rings (gDec s')" unfolding d by (rule rd)
  show "gRingSkip s' = 0" "gStream s' = gStream s" "gAuSt s' = gAuSt s" "gComp s' = gComp s"
    "gHaveRing s' = gHaveRing s" "gHaveCompRing s' = gHaveCompRing s" "gChan s' = gChan s" "gPlaying s' = gPlaying s"
    using s2(1,3) by (auto simp: r)
qed

lemma refill_ok:
  assumes "au_ok s" "gAuSt s = AU_PLAY" "AudioDoubleBack s = (s', out, nf)" shows "au_ok s'"
proof -
  have h: "app_rings (gDec s)" "0 \<le> gRingSkip s" "gRingSkip s < 2 ^ 31" using assms(1,2) by (simp_all add: au_ok_def)
  note f = double_back_frame [OF h assms(3)]
  have "length (pcm (gDec s')) = CQ_AUD_RING_BYTES" "length (comp (gDec s')) = CQ_AUD_COMP_RING"
    using f(1) by (simp_all add: app_rings_def decring_ok_def)
  then show ?thesis using assms(1,2) f by (simp add: au_ok_def)
qed

lemma run_pump_audio:
  assumes "dec_ok (e_dec env)" "app_rings (gDec s)"
  shows "app_rings (gDec (run_pump env s))" "gRingRd (run_pump env s) = gRingRd s"
    "gStream (run_pump env s) = gStream s" "gAuSt (run_pump env s) = gAuSt s" "gComp (run_pump env s) = gComp s"
    "gHaveRing (run_pump env s) = gHaveRing s" "gHaveCompRing (run_pump env s) = gHaveCompRing s"
    "gChan (run_pump env s) = gChan s" "gPlaying (run_pump env s) = gPlaying s"
    "gRingSkip (run_pump env s) = gRingSkip s"
  using pump_app_rings [OF assms(2,1)] by (auto simp: run_pump_def split: prod.split)

lemma pass_ok:
  assumes "dec_ok (e_dec env)" "au_ok s" "gAuSt s = AU_PLAY" shows "au_ok (run_pump env s)"
proof -
  have "app_rings (gDec s)" using assms(2,3) by (simp add: au_ok_def)
  note f = run_pump_audio [OF assms(1) this]
  have "length (pcm (gDec (run_pump env s))) = CQ_AUD_RING_BYTES" "length (comp (gDec (run_pump env s))) = CQ_AUD_COMP_RING"
    using f(1) by (simp_all add: app_rings_def decring_ok_def)
  then show ?thesis using assms(2,3) f by (simp add: au_ok_def)
qed

subsection \<open>The stages of the service\<close>

lemma tx_ok_data: "tx_ok t \<Longrightarrow> data t = moved @ d \<Longrightarrow> tx_ok (t\<lparr>data := d\<rparr>)"
  by (auto simp: tx_ok_def split: option.splits)

lemma drain_to_dec_ok:
  assumes "au_ok s" "gAuSt s = AU_PLAY"
  shows "au_ok (DrainStreamToDec s)" "gAuSt (DrainStreamToDec s) = AU_PLAY"
proof -
  have "au_ok (DrainStreamToDec s) \<and> gAuSt (DrainStreamToDec s) = AU_PLAY"
  proof (cases "gStream s")
    case None
    then show ?thesis using assms by (simp add: DrainStreamToDec_def)
  next
    case (Some t)
    obtain t' r' x' where d: "drain_loop t (gDec s) (gRxTotal s) = (t', r', x')"
      by (cases "drain_loop t (gDec s) (gRxTotal s)") auto
    have "app_rings (gDec s)" using assms by (simp add: au_ok_def)
    from drain_loop_spec [OF d this] obtain moved where m: "data t = moved @ data t'" "app_rings r'"
      "t' = t\<lparr>data := data t'\<rparr>" by blast
    have "tx_ok t" "streaming t" using assms Some by (simp_all add: au_ok_def)
    then have "tx_ok t' \<and> streaming t'" using tx_ok_data [OF _ m(1)] m(3) by (metis ot_tx.select_convs(16) ot_tx.update_convs(7) ot_tx.surjective)
    moreover have "length (pcm r') = CQ_AUD_RING_BYTES" "length (comp r') = CQ_AUD_COMP_RING"
      using m(2) by (simp_all add: app_rings_def decring_ok_def)
    ultimately show ?thesis using assms m(2) by (simp add: DrainStreamToDec_def Some d au_ok_def)
  qed
  then show "au_ok (DrainStreamToDec s)" "gAuSt (DrainStreamToDec s) = AU_PLAY" by blast+
qed

lemma stage_drain_ok:
  assumes "au_ok s" "gAuSt s = AU_HTTP \<or> gAuSt s = AU_SYNC"
  shows "au_ok (stage_drain b s)" "gAuSt (stage_drain b s) = gAuSt s"
proof -
  obtain t where t: "gStream s = Some t" using assms by (auto simp: au_ok_def)
  obtain bs t' where d: "cq_tx_drain t (CQ_AUD_COMP_MAX - length (gComp s)) = (bs, t')"
    by (cases "cq_tx_drain t (CQ_AUD_COMP_MAX - length (gComp s))")
  have l: "length bs \<le> CQ_AUD_COMP_MAX - length (gComp s)" using drain_parts(2) [OF d] .
  have "tx_ok t" "streaming t" using assms t by (simp_all add: au_ok_def)
  then have t': "tx_ok t' \<and> streaming t'" using drain_ok [of t "CQ_AUD_COMP_MAX - length (gComp s)"] d
    by (auto simp: cq_tx_drain_def Let_def split: if_splits)
  show "au_ok (stage_drain b s)" using assms t d l t' by (auto simp: stage_drain_def au_ok_def)
  show "gAuSt (stage_drain b s) = gAuSt s" using t d by (auto simp: stage_drain_def)
qed

lemma eof_ok:
  assumes "au_ok s" shows "au_ok (s\<lparr>gDec := cq_decring_eof (gDec s)\<rparr>)"
proof -
  have "app_rings (cq_decring_eof r) = app_rings r" for r
    by (simp add: app_rings_def decring_ok_def cq_decring_eof_def)
  then show ?thesis using assms by (simp add: au_ok_def) (simp add: cq_decring_eof_def)
qed

lemma wire_ok:
  assumes "env_ok env rx tx" "au_ok s" "gAuSt s \<noteq> AU_IDLE" "service_wire env s = Some (s', go)"
  shows "au_ok s' \<and> (go \<longrightarrow> gAuSt s' = gAuSt s)"
proof (cases "gStream s")
  case None
  then show ?thesis using assms by (simp add: service_wire_def)
next
  case (Some t)
  have y: "yield_ok env" and o: "ot_ok (e_ot env) rx tx" using assms(1) by (simp_all add: env_ok_def)
  obtain m1 t1 where p: "cq_tx_poll (e_fuel env) (e_ot env) (e_ticks env) (mach s) t = Some (m1, t1)"
    using assms(4) Some by (auto simp: service_wire_def bind_eq_Some_conv)
  have t1: "tx_ok t1" "streaming t1"
    using poll_ok [OF ot_ok_sends [OF o] _ p] assms(2) Some by (simp_all add: au_ok_def same_tx_def)
  define s1 where "s1 = s\<lparr>mach := m1, gStream := Some t1\<rparr>"
  have s1: "au_ok s1" "gAuSt s1 = gAuSt s" using assms(2) Some t1 by (simp_all add: s1_def au_ok_def)
  define s2 where "s2 = (if gAuSt s1 = AU_PLAY then DrainStreamToDec s1 else stage_drain True s1)"
  have s2: "au_ok s2" "gAuSt s2 = gAuSt s"
    using drain_to_dec_ok [OF s1(1)] stage_drain_ok [OF s1(1), of True] s1(2) assms(3)
    by (cases "gAuSt s"; simp add: s2_def)+
  note e = assms(4) [unfolded service_wire_def Some option.case p bind.bind_lunit prod.case Let_def, folded s1_def, folded s2_def]
  have closed: "au_ok (close_stream env u) \<and> gAuSt (close_stream env u) = AU_PLAY" if "au_ok u" "gAuSt u = AU_PLAY" for u
    using that by (auto simp: close_stream_def au_ok_def split: option.splits)
  show ?thesis
  proof (cases "status t1 = CQ_TX_RUNNING")
    case True
    then have "s' = s2" using e by simp
    then show ?thesis using s2 by simp
  next
    case False
    show ?thesis
    proof (cases "gAuSt s2 = AU_PLAY")
      case True
      have d: "au_ok (DrainStreamToDec s2)" "gAuSt (DrainStreamToDec s2) = AU_PLAY" using drain_to_dec_ok [OF s2(1) True] .
      have s': "s' = (close_stream env (DrainStreamToDec s2))\<lparr>gDec := cq_decring_eof (gDec (close_stream env (DrainStreamToDec s2)))\<rparr>"
        using e False True by simp
      have "au_ok s'" using eof_ok closed [OF d] unfolding s' by blast
      moreover have "gAuSt s' = gAuSt s" using closed [OF d] True s2(2) by (simp add: s')
      ultimately show ?thesis by simp
    next
      case np: False
      let ?u = "close_stream env (stage_drain False s2)"
      have "StopAudio env ?u = Some s'" "\<not> go" using e False np by (auto simp: bind_eq_Some_conv)
      moreover have "gAuSt s2 = AU_HTTP \<or> gAuSt s2 = AU_SYNC" using np s2(2) assms(3) by (cases "gAuSt s") auto
      from stage_drain_ok(1) [OF s2(1) this, of False]
      have "rings_kept ?u" by (auto simp: close_stream_def au_ok_def rings_kept_def split: option.splits)
      ultimately show ?thesis using stop_ok [OF y, of ?u s'] by (simp add: rings_kept_def)
    qed
  qed
qed

lemma stopped_ok:
  assumes "yield_ok env" "map_option (\<lambda>s. (s, False)) (StopAudio env s) = Some (s', go)" "au_ok s"
  shows "au_ok s' \<and> \<not> go"
proof -
  have "StopAudio env s = Some s'" "\<not> go" using assms(2) by (auto simp: map_option_case split: option.splits)
  then show ?thesis using stop_ok [OF assms(1)] assms(3) by (simp add: au_ok_def)
qed

lemma header_ok:
  assumes "env_ok env rx tx" "au_ok s" "service_header env s = Some (s', go)"
  shows "au_ok s'"
proof -
  have y: "yield_ok env" using assms(1) by (simp add: env_ok_def)
  have k: "au_ok (s\<lparr>gComp := drop n (gComp s), gAuSt := AU_SYNC\<rparr>)" if "gAuSt s = AU_HTTP" for n
    using assms(2) that by (auto simp: au_ok_def)
  show ?thesis using assms(2,3) k stopped_ok [OF y _ assms(2), of s' go]
    by (auto simp: service_header_def Let_def split: if_splits)
qed

lemma sync_ok:
  assumes "env_ok env rx tx" "au_ok s" "service_sync env s = Some (s', go)"
  shows "au_ok s'"
proof (cases "gAuSt s = AU_SYNC")
  case False
  then show ?thesis using assms by (simp add: service_sync_def)
next
  case sync: True
  have y: "yield_ok env" using assms(1) by (simp add: env_ok_def)
  show ?thesis
  proof (cases "cq_mp3_sync (gComp s)")
    case None
    then show ?thesis using assms(2,3) sync stopped_ok [OF y _ assms(2), of s' go]
      by (auto simp: service_sync_def split: if_splits)
  next
    case (Some res)
    obtain off fmt where res: "res = (off, fmt)" by (cases res)
    define s0 where "s0 = s\<lparr>gFmt := fmt, gComp := drop off (gComp s)\<rparr>"
    have s0: "au_ok s0" "rings_kept s0" "gAuSt s0 = AU_SYNC"
      using assms(2) sync by (auto simp: s0_def au_ok_def rings_kept_def)
    obtain s1 ok where op: "OpenAudioOutput env s0 = Some (s1, ok)"
      using assms(3) sync by (auto simp: service_sync_def Some res s0_def bind_eq_Some_conv)
    note o1 = open_spec [OF assms(1) op s0(2)]
    have e: "(if \<not> ok then map_option (\<lambda>s. (s, False)) (StopAudio env s1)
       else (let s = s1\<lparr>gAuSt := AU_PLAY, gDec := handoff_loop (gComp s1) (gDec s1), gComp := []\<rparr>
             in Some (if gMPDecode s then s\<lparr>gDecCmd := CQ_DEC_RUN\<rparr> else s, True))) = Some (s', go)"
      using assms(3) sync unfolding service_sync_def Some res by (simp add: s0_def [symmetric] op)
    show ?thesis
    proof (cases ok)
      case False
      have "rings_kept s1" by (rule o1(1))
      moreover have "StopAudio env s1 = Some s'" using e False by auto
      ultimately show ?thesis using stop_ok [OF y, of s1 s'] by (simp add: rings_kept_def)
    next
      case True
      let ?s = "s1\<lparr>gAuSt := AU_PLAY, gDec := handoff_loop (gComp s1) (gDec s1), gComp := []\<rparr>"
      have s': "s' = ?s \<or> s' = ?s\<lparr>gDecCmd := CQ_DEC_RUN\<rparr>" using e True by (auto simp: Let_def split: if_splits)
      have "app_rings (handoff_loop (gComp s1) (gDec s1))" using handoff_spec o1(6) True by blast
      moreover from this have "length (pcm (handoff_loop (gComp s1) (gDec s1))) = CQ_AUD_RING_BYTES"
        "length (comp (handoff_loop (gComp s1) (gDec s1))) = CQ_AUD_COMP_RING"
        by (simp_all add: app_rings_def decring_ok_def)
      ultimately have "au_ok ?s" using s0(1) o1 True by (simp add: au_ok_def)
      then show ?thesis using s' by auto
    qed
  qed
qed

lemma start_buffer_ok:
  assumes "au_ok s" "gAuSt s = AU_PLAY" "StartDoubleBuffer env s = (s', ok)"
  shows "rings_kept s'" "ok \<Longrightarrow> au_ok s' \<and> gAuSt s' = AU_PLAY \<and> gPlaying s'"
proof -
  define s1 where "s1 = (if gHaveDB s then s else s\<lparr>gHaveDB := e_newptr env CQ_AUD_CHUNK \<noteq> None\<rparr>)"
  have s1: "au_ok (s1\<lparr>gChan := True\<rparr>)" "gAuSt (s1\<lparr>gChan := True\<rparr>) = AU_PLAY" "rings_kept s1"
    using assms(1,2) by (auto simp: s1_def au_ok_def rings_kept_def)
  obtain s2 b0 f0 where d0: "AudioDoubleBack (s1\<lparr>gChan := True\<rparr>) = (s2, b0, f0)"
    by (cases "AudioDoubleBack (s1\<lparr>gChan := True\<rparr>)") auto
  have h1: "app_rings (gDec (s1\<lparr>gChan := True\<rparr>))" "0 \<le> gRingSkip (s1\<lparr>gChan := True\<rparr>)" "gRingSkip (s1\<lparr>gChan := True\<rparr>) < 2 ^ 31"
    using s1(1,2) by (simp_all add: au_ok_def)
  note k0 = refill_ok [OF s1(1,2) d0] double_back_frame(4,8) [OF h1 d0]
  have p2: "gAuSt s2 = AU_PLAY" "gChan s2" using k0 s1(2) by simp_all
  obtain s3 b1 f1 where d1: "AudioDoubleBack s2 = (s3, b1, f1)" by (cases "AudioDoubleBack s2") auto
  have h2: "app_rings (gDec s2)" "0 \<le> gRingSkip s2" "gRingSkip s2 < 2 ^ 31" using k0(1) p2 by (simp_all add: au_ok_def)
  note k1 = refill_ok [OF k0(1) p2(1) d1] double_back_frame(4,8) [OF h2 d1]
  have e: "(s', ok) = (if \<not> gHaveDB s1 then (s1, False) else if \<not> e_sndnew env then (s1\<lparr>gChan := False\<rparr>, False)
      else if e_sndplay env then (s3\<lparr>gDB := (b0, b1), gPlaying := True\<rparr>, True) else (s3\<lparr>gDB := (b0, b1)\<rparr>, False))"
    unfolding assms(3) [symmetric] StartDoubleBuffer_def Let_def s1_def [symmetric] d0 d1 prod.case by simp
  have k: "au_ok (s3\<lparr>gDB := (b0, b1)\<rparr>)" "au_ok (s3\<lparr>gDB := (b0, b1), gPlaying := True\<rparr>)"
    using k1 p2 by (simp_all add: au_ok_def)
  have "s' = s1 \<or> s' = s1\<lparr>gChan := False\<rparr> \<or> au_ok s'" using e k by (auto split: if_splits)
  moreover have "rings_kept (s1\<lparr>gChan := False\<rparr>)" using s1(3) by (simp add: rings_kept_def)
  ultimately show "rings_kept s'" using s1(3) au_ok_rings by auto
  show "au_ok s' \<and> gAuSt s' = AU_PLAY \<and> gPlaying s'" if ok
    using e k(2) k1(2) p2(1) that by (auto split: if_splits)
qed

lemma trim_ok:
  assumes "au_ok s" "gAuSt s = AU_PLAY"
  shows "au_ok (request_trim (note_ticks t s))" "gAuSt (request_trim (note_ticks t s)) = AU_PLAY"
proof -
  define s1 where "s1 = note_ticks t s"
  have s1: "au_ok s1" "gAuSt s1 = AU_PLAY" "app_rings (gDec s1)"
    using assms by (auto simp: s1_def note_ticks_def Let_def au_ok_def)
  have f: "unat (ring_fill s1) \<le> CQ_AUD_RING_BYTES"
    using s1(3) by (simp add: ring_fill_unat pcm_queue_length app_rings_def decring_ok_def)
  have "unat (ring_fill s1 - of_nat CQ_AUD_RING_TARGET) < 2 ^ 31"
    if "ring_fill s1 > of_nat (CQ_AUD_RING_TARGET + CQ_AUD_TRIM_SLACK)"
  proof -
    have "CQ_AUD_RING_TARGET \<le> unat (ring_fill s1)" using that by (simp add: word_less_nat_alt)
    from unat_minus_nat [OF this] f show ?thesis by simp
  qed
  then have "int (unat (ring_fill s1 - of_nat CQ_AUD_RING_TARGET)) < 2 ^ 31"
    if "ring_fill s1 > of_nat (CQ_AUD_RING_TARGET + CQ_AUD_TRIM_SLACK)"
    using that by (metis of_nat_less_iff of_nat_numeral of_nat_power)
  then have "au_ok (request_trim s1)" using s1(1) au_ok_skip [OF s1(1)] by (simp add: request_trim_def)
  then show "au_ok (request_trim (note_ticks t s))" by (simp add: s1_def)
  show "gAuSt (request_trim (note_ticks t s)) = AU_PLAY" using s1(2) by (simp add: request_trim_def s1_def)
qed

lemma play_ok:
  assumes "env_ok env rx tx" "au_ok s" "service_play env s = Some s'"
  shows "au_ok s'"
proof (cases "gAuSt s = AU_PLAY")
  case False
  then have "s' = s \<or> s' = s\<lparr>gAuBeat := TickCount env s\<rparr>"
    using assms(3) by (simp add: service_play_def split: if_splits)
  then show ?thesis using assms(2) by auto
next
  case play: True
  have y: "yield_ok env" and d: "dec_ok (e_dec env)" using assms(1) by (simp_all add: env_ok_def)
  define s1 where "s1 = (if gMPDecode s then s else run_pump env s)"
  have s1: "au_ok s1" "gAuSt s1 = AU_PLAY"
    using assms(2) play pass_ok [OF d assms(2) play] run_pump_audio(4) [OF d, of s] by (auto simp: s1_def au_ok_def)
  define s2 where "s2 = s1\<lparr>gDecResSeen := resyncs (gDec s1), gDecFluSeen := flushes (gDec s1)\<rparr>"
  have s2: "au_ok s2" "gAuSt s2 = AU_PLAY" using s1 by (simp_all add: s2_def)
  obtain s3 where st: "service_start env s2 = Some s3"
    and e: "(if gAuSt s3 \<noteq> AU_PLAY then Some s3
        else (let s = request_trim (note_ticks (TickCount env s3) s3) in
           if gStream s = None \<and> cq_decring_idle (gDec s) \<and> gPlaying s \<and> gRingWr s = gRingRd s
           then StopAudio env s else Some (heartbeat (TickCount env s) s))) = Some s'"
    using assms(3) play by (auto simp: service_play_def s1_def [symmetric] s2_def [symmetric] Let_def bind_eq_Some_conv)
  have s3: "au_ok s3"
  proof -
    obtain u ok where b: "StartDoubleBuffer env s2 = (u, ok)" by (cases "StartDoubleBuffer env s2")
    note bo = start_buffer_ok [OF s2 b]
    have "s3 = s2 \<or> ok \<and> s3 = u \<or> StopAudio env u = Some s3"
      using st by (auto simp: service_start_def b split: if_splits)
    then show ?thesis using s2(1) bo stop_ok [OF y, of u s3] by (auto simp: rings_kept_def)
  qed
  show ?thesis
  proof (cases "gAuSt s3 = AU_PLAY")
    case False
    then show ?thesis using e s3 by simp
  next
    case True
    define s4 where "s4 = request_trim (note_ticks (TickCount env s3) s3)"
    have s4: "au_ok s4" using trim_ok [OF s3 True] by (simp add: s4_def)
    have "StopAudio env s4 = Some s' \<or> s' = heartbeat (TickCount env s4) s4"
      using e True by (auto simp: Let_def s4_def [symmetric] split: if_splits)
    moreover have "au_ok (heartbeat (TickCount env s4) s4)" using s4 by (simp add: heartbeat_def)
    moreover have "au_ok s'" if "StopAudio env s4 = Some s'"
      using stop_ok [OF y that] au_ok_rings [OF s4] by (simp add: rings_kept_def)
    ultimately show ?thesis by metis
  qed
qed

lemma service_ok:
  assumes "env_ok env rx tx" "au_ok s" "ServiceAudio env s = Some s'"
  shows "au_ok s'"
proof (cases "gAuSt s = AU_IDLE")
  case True
  then show ?thesis using assms by (simp add: ServiceAudio_def)
next
  case False
  obtain s1 g1 where w: "service_wire env s = Some (s1, g1)"
    using assms(3) False by (auto simp: ServiceAudio_def bind_eq_Some_conv)
  have k1: "au_ok s1" using wire_ok [OF assms(1,2) False w] by simp
  show ?thesis
  proof (cases g1)
    case False
    then show ?thesis using assms(3) w k1 \<open>gAuSt s \<noteq> AU_IDLE\<close> by (simp add: ServiceAudio_def)
  next
    case True
    have "Option.bind (service_header env s1) (\<lambda>(s, go). if \<not> go then Some s else Option.bind (service_sync env s)
        (\<lambda>(s, go). if \<not> go then Some s else service_play env s)) = Some s'"
      using assms(3) w \<open>gAuSt s \<noteq> AU_IDLE\<close> True by (simp add: ServiceAudio_def)
    then obtain s2 g2 where h: "service_header env s1 = Some (s2, g2)"
      and e: "(if \<not> g2 then Some s2 else Option.bind (service_sync env s2)
          (\<lambda>(s, go). if \<not> go then Some s else service_play env s)) = Some s'"
      by (cases "service_header env s1") auto
    have k2: "au_ok s2" using header_ok [OF assms(1) k1 h] .
    show ?thesis
    proof (cases g2)
      case False
      then show ?thesis using e k2 by simp
    next
      case True
      then obtain s3 g3 where y: "service_sync env s2 = Some (s3, g3)"
        and e3: "(if \<not> g3 then Some s3 else service_play env s3) = Some s'"
        using e True by (cases "service_sync env s2") auto
      have "au_ok s3" using sync_ok [OF assms(1) k2 y] .
      then show ?thesis using e3 play_ok [OF assms(1), of s3 s'] by (auto split: if_splits)
    qed
  qed
qed

subsection \<open>Every order of events\<close>

text \<open>
  What can happen to the engine: the loop's service, the interrupt's refill while the channel plays,
  a pass of the decode task between RUN and PARK, tuning in from rest, and stopping.
\<close>

datatype au_event = Service | Refill | Pass | Tune cstr | Stop

definition au_step :: "('w, 'w audio) env \<Rightarrow> au_event \<Rightarrow> 'w audio \<Rightarrow> 'w audio option" where
  "au_step env e s = (case e of
       Service \<Rightarrow> ServiceAudio env s
     | Refill \<Rightarrow> Some (if gPlaying s then fst (AudioDoubleBack s) else s)
     | Pass \<Rightarrow> Some (if gDecCmd s = CQ_DEC_RUN \<and> gAuSt s = AU_PLAY then run_pump env s else s)
     | Tune url \<Rightarrow> Some (if gAuSt s = AU_IDLE then StartStream env url s else s)
     | Stop \<Rightarrow> StopAudio env s)"

primrec au_run :: "('w, 'w audio) env \<Rightarrow> au_event list \<Rightarrow> 'w audio \<Rightarrow> 'w audio option" where
  "au_run env [] s = Some s"
| "au_run env (e # es) s = Option.bind (au_step env e s) (au_run env es)"

text \<open>The globals as the program starts.\<close>

definition engine_boot :: "('w, 'a) audio_scheme \<Rightarrow> bool" where
  "engine_boot s \<longleftrightarrow> gStream s = None \<and> gAuSt s = AU_IDLE \<and> gComp s = [] \<and> \<not> gHaveRing s \<and>
     \<not> gHaveCompRing s \<and> \<not> gChan s \<and> \<not> gPlaying s \<and> gRingSkip s = 0"

lemma tune_ok:
  assumes "au_ok s" "gAuSt s = AU_IDLE" shows "au_ok (StartStream env url s)"
proof (cases "ParseHttpUrl url 64 160")
  case None
  then show ?thesis using assms(1) by (simp add: StartStream_def)
next
  case (Some u)
  obtain h p path where u: "u = (h, p, path)" by (cases u) auto
  let ?t = "cq_tx_start (TickCount env s) (cq_tx_stream_new h p (Some (stream_request path)))"
  have "tx_ok ?t \<and> streaming ?t"
    using start_ok [OF new_ok(2)] by (simp add: cq_tx_start_def cq_tx_stream_new_def)
  moreover have "length (gComp s) = 0" "\<not> gChan s" using assms by (auto simp: au_ok_def)
  ultimately show ?thesis using assms by (simp add: StartStream_def Some u au_ok_def)
qed

lemma au_step_ok:
  assumes "env_ok env rx tx" "au_ok s" "au_step env e s = Some s'" shows "au_ok s'"
proof (cases e)
  case Service
  then show ?thesis using assms service_ok by (simp add: au_step_def)
next
  case Refill
  obtain u out nf where r: "AudioDoubleBack s = (u, out, nf)" by (cases "AudioDoubleBack s") auto
  have "gAuSt s = AU_PLAY" if "gPlaying s" using assms(2) that by (simp add: au_ok_def)
  then show ?thesis using Refill assms(2,3) refill_ok [OF assms(2) _ r] by (auto simp: au_step_def r split: if_splits)
next
  case Pass
  then show ?thesis using assms pass_ok [of env s] by (auto simp: au_step_def env_ok_def split: if_splits)
next
  case (Tune url)
  then show ?thesis using assms tune_ok by (auto simp: au_step_def split: if_splits)
next
  case Stop
  then show ?thesis using assms stop_ok [of env s s'] au_ok_rings [OF assms(2)]
    by (simp add: au_step_def env_ok_def rings_kept_def)
qed

lemma au_run_ok:
  "env_ok env rx tx \<Longrightarrow> au_ok s \<Longrightarrow> au_run env es s = Some s' \<Longrightarrow> au_ok s'"
  by (induction es arbitrary: s) (auto simp: bind_eq_Some_conv dest: au_step_ok)

text \<open>C3. In every order of service passes, refills at interrupt time, passes of the decode task,
tuning in and stopping, from the program's start: the staging buffer never exceeds its 64 KB; audio
plays only in the PLAY state, through rings of the sizes their index arithmetic assumes and with
cursors within them; a connection being opened or synchronised has its transaction, and an idle
engine holds neither transaction nor staged bytes; a pending trim is within the 32-bit count the
interrupt reads.\<close>

theorem engine_invariant:
  assumes "env_ok env rx tx" "engine_boot s" "au_run env es s = Some s'"
  shows "length (gComp s') \<le> CQ_AUD_COMP_MAX \<and>
    (gPlaying s' \<longrightarrow> gChan s' \<and> gAuSt s' = AU_PLAY) \<and> (gAuSt s' = AU_PLAY \<longrightarrow> app_rings (gDec s')) \<and>
    (gAuSt s' \<in> {AU_HTTP, AU_SYNC} \<longrightarrow> gStream s' \<noteq> None) \<and>
    (gAuSt s' = AU_IDLE \<longrightarrow> gStream s' = None \<and> gComp s' = []) \<and>
    (\<forall>t. gStream s' = Some t \<longrightarrow> tx_ok t \<and> streaming t) \<and> 0 \<le> gRingSkip s' \<and> gRingSkip s' < 2 ^ 31"
proof -
  have "au_ok s" using assms(2) by (simp add: engine_boot_def au_ok_def)
  from au_run_ok [OF assms(1) this assms(3)] show ?thesis by (auto simp: au_ok_def)
qed

definition still_env :: "(nat, (nat, 'a) audio_scheme) env" where
  "still_env = \<lparr>e_ot = e_ot clock_env, e_ticks = e_ticks clock_env, e_fuel = 40,
     e_dec = e_dec clock_env, e_clk = e_clk clock_env, e_decinit = id, e_yield = id,
     e_mpqueue = True, e_mptask = True, e_mpjoin = True, e_newptr = \<lambda>n. None, e_sndnew = True, e_sndplay = True\<rparr>"

lemma still_env_ok: "env_ok (still_env :: (nat, (nat, 'a) audio_scheme) env) (\<lambda>w. []) (\<lambda>w. [])"
proof -
  let ?e = "still_env :: (nat, (nat, 'a) audio_scheme) env"
  have "ot_ok (e_ot ?e) (\<lambda>w. []) (\<lambda>w. [])"
    by (auto simp: still_env_def clock_env_def ot_ok_def split: ot_call.split)
  moreover have "dec_ok (e_dec ?e)" by (simp add: still_env_def clock_env_def dec_ok_def out_ok_def)
  moreover have "yield_ok ?e" unfolding yield_ok_def
  proof
    fix s :: "(nat, 'a) audio_scheme"
    have "e_yield ?e s = s\<lparr>mach := (mach s)\<lparr>world := world (mach s)\<rparr>, gDec := gDec s, gDecAck := gDecAck s,
      gDecBeat := gDecBeat s\<rparr>" by (simp add: still_env_def)
    then show "\<exists>w r a b. e_yield ?e s = s\<lparr>mach := (mach s)\<lparr>world := w\<rparr>, gDec := r, gDecAck := a,
      gDecBeat := b\<rparr> \<and> lengths_kept (gDec s) r" using lengths_refl by blast
  qed
  ultimately show ?thesis by (simp add: env_ok_def still_env_def)
qed

theorem engine_invariant_witness:
  "\<exists>s'. au_run still_env [Refill, Stop, Tune ''http://h/s'', Refill]
      (quiet_audio\<lparr>gHaveRing := False, gHaveCompRing := False\<rparr>) = Some s' \<and> length (gComp s') \<le> CQ_AUD_COMP_MAX"
proof -
  let ?s = "quiet_audio\<lparr>gHaveRing := False, gHaveCompRing := False\<rparr>"
  have b: "engine_boot ?s" by (simp add: engine_boot_def quiet_audio_def)
  have "\<exists>s'. au_run still_env [Refill, Stop, Tune ''http://h/s'', Refill] ?s = Some s'"
    by (simp add: au_step_def StopAudio_def ParkDecTask_def quiet_audio_def)
  then obtain s' where r: "au_run still_env [Refill, Stop, Tune ''http://h/s'', Refill] ?s = Some s'" by blast
  from engine_invariant [OF still_env_ok b r] r show ?thesis by blast
qed

end
