(* ===== verification/AppState.thy ===== *)
theory AppState
  imports AudioInv View Guard Backoff Cache Debounce Now
begin

text \<open>
  The application's globals (\<open>os9/casquinha.c\<close>) and what is read off them: the transactions in
  flight, the pending intent and the rendered view. Toolbox objects are the values the program reads
  back from them; drawing is left out. The interface's part of the environment is \<open>ui\<close>: the text
  converters, the cover decoder, the type \<open>'g\<close> of decoded covers, and the memory behind a buffer.
\<close>

abbreviation CQ_POLL_TICKS :: int where "CQ_POLL_TICKS \<equiv> 120"
abbreviation CQ_POLL_CAP :: int where "CQ_POLL_CAP \<equiv> 1800"
abbreviation CQ_QUEUE_POLL_TICKS :: int where "CQ_QUEUE_POLL_TICKS \<equiv> 600"
abbreviation CQ_STREAM_POLL_TICKS :: int where "CQ_STREAM_POLL_TICKS \<equiv> 600"
abbreviation CQ_DEBOUNCE_TICKS :: u32 where "CQ_DEBOUNCE_TICKS \<equiv> 18"
abbreviation CQ_HOLD_TICKS :: u32 where "CQ_HOLD_TICKS \<equiv> 180"
abbreviation CQ_ACTION_GUARD_TICKS :: int where "CQ_ACTION_GUARD_TICKS \<equiv> 40"
abbreviation CQ_MAX_INFLIGHT :: nat where "CQ_MAX_INFLIGHT \<equiv> 3"
abbreviation CQ_COVER_PX :: int where "CQ_COVER_PX \<equiv> 64"

record intent =
  i_kind :: cq_intent_kind
  i_ticks :: u32
  i_pre_track_id :: cstr
  i_pre_state :: cq_play_state

text \<open>The server's endpoint and every transaction.\<close>

record 'w app_net = "'w audio" +
  gHost :: cstr
  gPort :: int
  gSuspended :: bool
  gTx :: "ot_tx option"
  gCmd :: "ot_tx option"
  gCover :: "ot_tx option"
  gFire :: "ot_tx option"
  gSearchTx :: "ot_tx option"
  gArtistTx :: "ot_tx option"
  gQueueTx :: "ot_tx option"
  gFactTx :: "ot_tx option"
  gPls :: "ot_tx option"

text \<open>The adopted snapshot and what depends on it.\<close>

record 'w app_snap = "'w app_net" +
  gSnap :: cq_now
  gHaveSnap :: bool
  gSnapTick :: u32
  gGuard :: cq_guard
  gBackoff :: cq_backoff
  gOnline :: bool
  gLastPoll :: u32
  gPolls :: int
  gDone :: int
  gLastStat :: int
  gLastErr :: int
  gLastLen :: int
  gLastMsg :: cstr
  gIntent :: intent
  gView :: cq_view
  lastDraw :: u32
  gAutoNexted :: bool
  gNativePlay :: int
  gFallbackUri :: cstr
  gAutoStart :: bool
  gAutoWoke :: bool
  gAutoPlayPending :: bool
  gQueueKick :: u32
  gLastAction :: cstr
  gLastActionTick :: u32
  gDeb :: cq_debounce
  gCmdFire :: u32
  gVolHold :: u32
  play_title :: cstr
  vol_value :: int

text \<open>The media fact, the queue's cadence, the covers, the lists' cells and selections, the files.\<close>

record ('w, 'g) app = "'w app_snap" +
  gStreamProbe :: int
  gHaveFact :: bool
  gFactLive :: int
  gFactTs :: int
  gFactLast :: u32
  gFBackoff :: cq_backoff
  gQueueLast :: u32
  gQBackoff :: cq_backoff
  gQueueEmptyRuns :: int
  gQTOk :: bool
  gCovers :: "'g cq_cache"
  gCoverReq :: cstr
  search_rows :: "cstr list"
  search_pick :: "int option"
  queue_rows :: "cstr list"
  queue_pick :: "int option"
  search_text :: cstr
  prefs_file :: "bytes option"
  gRunning :: bool

record 'g ui =
  u_conv :: converter
  u_convout :: converter
  u_decode :: "bytes \<Rightarrow> 'g option"
  u_mem :: bytes

type_synonym ('w, 'g) app_env = "('w, ('w, 'g) app) env"

subsection \<open>Transactions\<close>

definition TxInFlight :: "('w, 'g) app \<Rightarrow> nat" where
  "TxInFlight s =
     (if gTx s \<noteq> None then 1 else 0) + (if gCmd s \<noteq> None then 1 else 0) + (if gCover s \<noteq> None then 1 else 0) +
     (if gFire s \<noteq> None then 1 else 0) + (if gSearchTx s \<noteq> None then 1 else 0) +
     (if gQueueTx s \<noteq> None then 1 else 0) + (if gPls s \<noteq> None then 1 else 0) + (if gFactTx s \<noteq> None then 1 else 0)"

text \<open>A transaction against the server, created and started.\<close>

definition open_tx :: "('w, 'g) app_env \<Rightarrow> ('w, 'g) app \<Rightarrow> cstr \<Rightarrow> ot_tx option" where
  "open_tx env s sel = Some (cq_tx_start (TickCount env s) (cq_tx_new (gHost s) (gPort s) (Some sel)))"

definition poll_tx :: "('w, 'g) app_env \<Rightarrow> ('w, 'g) app \<Rightarrow> ot_tx \<Rightarrow> (('w, 'g) app \<times> ot_tx) option" where
  "poll_tx env s t = map_option (\<lambda>(m, t). (s\<lparr>mach := m\<rparr>, t))
     (cq_tx_poll (e_fuel env) (e_ot env) (e_ticks env) (mach s) t)"

definition free_tx :: "('w, 'g) app_env \<Rightarrow> ('w, 'g) app \<Rightarrow> ot_tx \<Rightarrow> ('w, 'g) app" where
  "free_tx env s t = s\<lparr>mach := cq_tx_free (e_ot env) (mach s) t\<rparr>"

text \<open>Dropping a transaction that may be there.\<close>

definition drop_tx :: "('w, 'g) app_env \<Rightarrow> ('w, 'g) app \<Rightarrow> ot_tx option \<Rightarrow> ('w, 'g) app" where
  "drop_tx env s tx = (case tx of None \<Rightarrow> s | Some t \<Rightarrow> s\<lparr>mach := cancel_free (e_ot env) (mach s) t\<rparr>)"

subsection \<open>The intent and the view\<close>

definition SetIntent :: "('w, 'g) app_env \<Rightarrow> cq_intent_kind \<Rightarrow> ('w, 'g) app \<Rightarrow> ('w, 'g) app" where
  "SetIntent env kind s = s\<lparr>gIntent :=
     \<lparr>i_kind = kind, i_ticks = TickCount env s,
      i_pre_track_id = (case now_track_id (gSnap s) of
          Some t \<Rightarrow> (if gHaveSnap s then fits 24 t else []) | None \<Rightarrow> []),
      i_pre_state = (if gHaveSnap s then now_state (gSnap s) else CQ_STATE_STOPPED)\<rparr>\<rparr>"

definition BuildViewIn :: "('w, 'g) app_env \<Rightarrow> ('w, 'g) app \<Rightarrow> cq_view_in" where
  "BuildViewIn env s =
     (let t = TickCount env s in
      \<lparr>in_snap = (if gHaveSnap s then Some (gSnap s) else None), in_snap_ticks = gSnapTick s,
       in_has_stream_fact = (gStreamProbe s = 1 \<and> gHaveFact s), in_live = gFactLive s, in_fact_ts = gFactTs s,
       in_engine = (if gAuSt s = AU_IDLE then CQ_ENGINE_OFF
          else if gAuSt s = AU_HTTP \<or> gAuSt s = AU_SYNC then CQ_ENGINE_TUNING
          else if \<not> gPlaying s then CQ_ENGINE_BUFFERING else CQ_ENGINE_ON_AIR),
       in_ring_fill = gRingWr s - gRingRd s, in_prebuf_target = of_nat CQ_AUD_PREBUF_PCM,
       in_chunk_bytes = of_nat CQ_AUD_CHUNK,
       in_rx_dry_ticks = (if gStream s \<noteq> None \<and> gRxTick s \<noteq> 0 then sint (t - gRxTick s) else -1),
       in_starve_ticks = (if gStarveTick s \<noteq> 0 then sint (t - gStarveTick s) else -1),
       in_intent = i_kind (gIntent s), in_intent_ticks = i_ticks (gIntent s),
       in_pre_track_id = i_pre_track_id (gIntent s), in_pre_state = i_pre_state (gIntent s),
       in_now_ticks = t\<rparr>)"

definition settle_intent :: "cq_view \<Rightarrow> ('w, 'g) app \<Rightarrow> ('w, 'g) app" where
  "settle_intent v s =
     (if i_kind (gIntent s) \<noteq> CQ_INTENT_NONE \<and> \<not> v_ack_active v
      then s\<lparr>gIntent := (gIntent s)\<lparr>i_kind := CQ_INTENT_NONE\<rparr>\<rparr> else s)"

definition RenderView :: "('w, 'g) app_env \<Rightarrow> ('w, 'g) app \<Rightarrow> ('w, 'g) app" where
  "RenderView env s =
     (let v = cq_view_render (BuildViewIn env s) in settle_intent v (s\<lparr>gView := v\<rparr>))"

text \<open>A repaint draws one render's output; the drawing itself is left out.\<close>

definition Redraw :: "('w, 'g) app_env \<Rightarrow> ('w, 'g) app \<Rightarrow> ('w, 'g) app" where
  "Redraw env s = RenderView env s"

definition TickView :: "('w, 'g) app_env \<Rightarrow> ('w, 'g) app \<Rightarrow> ('w, 'g) app" where
  "TickView env s =
     (let t = TickCount env s in
      if t - lastDraw s < 30 then s
      else
        (let v = cq_view_render (BuildViewIn env s); s = settle_intent v s
         in if cq_view_differs (gView s) v then Redraw env (s\<lparr>lastDraw := t\<rparr>) else s))"

definition UpdatePlayTitle :: "('w, 'g) app \<Rightarrow> ('w, 'g) app" where
  "UpdatePlayTitle s = s\<lparr>play_title := (if now_state (gSnap s) = CQ_STATE_PLAYING then ''Pause'' else ''Play'')\<rparr>"

definition ComputeSleep :: "('w, 'g) app \<Rightarrow> int" where
  "ComputeSleep s = (if gTx s \<noteq> None then 1 else if gSuspended s \<and> gAuSt s = AU_IDLE then 60 else 10)"

end
