(* ===== verification/AppNet.thy ===== *)
theory AppNet
  imports AppState
begin

text \<open>
  The application's talk with the server (\<open>os9/casquinha.c\<close>): the commands and their repeat guard,
  the adoption of replies, and the service of the poll, command and cover transactions. A result
  of None means that the provider kept a poll slice busy beyond the fuel, or that the play-from
  request was written outside its buffer. Log lines are left out.
\<close>

subsection \<open>Commands\<close>

text \<open>True for a repeat of the same action within the guard time.\<close>

definition ActionRepeat :: "('w, 'g) app_env \<Rightarrow> cstr \<Rightarrow> ('w, 'g) app \<Rightarrow> bool \<times> ('w, 'g) app" where
  "ActionRepeat env sel s =
     (let t = TickCount env s in
      if gLastAction s \<noteq> [] \<and> sel = gLastAction s \<and> sint (t - gLastActionTick s) < CQ_ACTION_GUARD_TICKS
      then (True, s)
      else (False, s\<lparr>gLastAction := fits 240 sel, gLastActionTick := t\<rparr>))"

definition StartCommand :: "('w, 'g) app_env \<Rightarrow> cstr \<Rightarrow> ('w, 'g) app \<Rightarrow> ('w, 'g) app" where
  "StartCommand env sel s = (if gCmd s \<noteq> None then s else s\<lparr>gCmd := open_tx env s sel\<rparr>)"

definition StartFire :: "('w, 'g) app_env \<Rightarrow> cstr \<Rightarrow> ('w, 'g) app \<Rightarrow> ('w, 'g) app" where
  "StartFire env sel s =
     (case ActionRepeat env sel s of (rep, s) \<Rightarrow>
        if rep then s else if gFire s \<noteq> None then s else s\<lparr>gFire := open_tx env s sel\<rparr>)"

definition PlayItem :: "('w, 'g) app_env \<Rightarrow> cq_track_item list \<Rightarrow> int \<Rightarrow> ('w, 'g) app \<Rightarrow> ('w, 'g) app" where
  "PlayItem env its row s =
     (if row < 0 \<or> nat row \<ge> length its then s
      else case it_uri (its ! nat row) of None \<Rightarrow> s
        | Some uri \<Rightarrow> StartFire env (play_item_sel uri) s)"

text \<open>\<open>cont\<close> is the list that follows the row, or None for the rest of the row's own list.\<close>

definition PlayFrom :: "('w, 'g) app_env \<Rightarrow> cq_track_item list \<Rightarrow> int \<Rightarrow> cq_track_item list option \<Rightarrow>
    ('w, 'g) app \<Rightarrow> ('w, 'g) app option" where
  "PlayFrom env its row cont s =
     (if row < 0 \<or> nat row \<ge> length its then Some s
      else case it_uri (its ! nat row) of None \<Rightarrow> Some s
        | Some uri \<Rightarrow>
            if gNativePlay s < 0 then Some (PlayItem env its row s)
            else if gCmd s \<noteq> None then Some s
            else case uri_id (Some uri) of
                None \<Rightarrow> Some (PlayItem env its row s)
              | Some d \<Rightarrow>
                  if d = [] then Some (PlayItem env its row s)
                  else case from_sel d (case cont of Some c \<Rightarrow> c | None \<Rightarrow> drop (nat row + 1) its) of
                      None \<Rightarrow> None
                    | Some sel \<Rightarrow>
                        (case ActionRepeat env sel (s\<lparr>gFallbackUri := fits 128 uri\<rparr>) of (rep, s) \<Rightarrow>
                           Some (if rep then s else StartCommand env sel s)))"

subsection \<open>Adopting a reply\<close>

definition set_msg :: "cstr \<Rightarrow> ('w, 'g) app \<Rightarrow> ('w, 'g) app" where
  "set_msg m s = s\<lparr>gLastMsg := fits 128 m\<rparr>"

definition adopt_error :: "('w, 'g) app_env \<Rightarrow> bool \<Rightarrow> cstr \<Rightarrow> ('w, 'g) app \<Rightarrow> ('w, 'g) app" where
  "adopt_error env isCmd err s =
     (if err = ''rate_limited'' then set_msg ''Spotify busy - holding steady'' s
      else if isCmd \<and> err = ''not_found'' \<and> gFallbackUri s \<noteq> [] then
        StartFire env (fallback_sel (gFallbackUri s)) (s\<lparr>gNativePlay := -1, gFallbackUri := []\<rparr>)
      else (set_msg (''server error: '' @ err) s)\<lparr>gBackoff := cq_backoff_fail (gBackoff s)\<rparr>)"

text \<open>The end-of-track watchdog, on the snapshot before adoption.\<close>

definition track_ended :: "cq_now \<Rightarrow> ('w, 'g) app \<Rightarrow> bool" where
  "track_ended tmp s \<longleftrightarrow> now_state tmp = CQ_STATE_STOPPED \<and> \<not> gAutoNexted s \<and> gHaveSnap s \<and>
     now_state (gSnap s) = CQ_STATE_PLAYING \<and> now_duration_ms (gSnap s) > 0 \<and>
     now_position_ms (gSnap s) \<ge> now_duration_ms (gSnap s) - 10000"

definition adopt_watchdog :: "('w, 'g) app_env \<Rightarrow> cq_now \<Rightarrow> ('w, 'g) app \<Rightarrow> ('w, 'g) app option" where
  "adopt_watchdog env tmp s =
     (if track_ended tmp s then
        (let row = QueueNextRow (gQueueItems s) (now_track_id (gSnap s)); s = s\<lparr>gAutoNexted := True\<rparr>
         in if row \<ge> 0 then PlayFrom env (titems (gQueueItems s)) row None s else Some s)
      else Some (if now_state tmp = CQ_STATE_PLAYING then s\<lparr>gAutoNexted := False\<rparr> else s))"

text \<open>The volume control takes a 16-bit value and clips it to its range.\<close>

definition set_vol :: "int \<Rightarrow> ('w, 'g) app \<Rightarrow> ('w, 'g) app" where
  "set_vol v s = s\<lparr>vol_value := max 0 (min 100 (sint (of_int v :: 16 word)))\<rparr>"

definition adopt_snap :: "('w, 'g) app_env \<Rightarrow> cq_now \<Rightarrow> bool \<Rightarrow> int \<Rightarrow> ('w, 'g) app \<Rightarrow> ('w, 'g) app" where
  "adopt_snap env tmp volHeld keepVol s =
     (let s = (if now_track_id tmp \<noteq> None \<and> now_track_id (gSnap s) \<noteq> now_track_id tmp
               then s\<lparr>gQueueKick := TickCount env s + 120\<rparr> else s);
          sameTs = (gHaveSnap s \<and> now_ts tmp > 0 \<and> now_ts tmp = now_ts (gSnap s));
          s = s\<lparr>gSnap := tmp, gHaveSnap := True, gSnapTick := (if sameTs then gSnapTick s else TickCount env s),
                gLastMsg := []\<rparr>;
          s = UpdatePlayTitle (if volHeld then s\<lparr>gSnap := (gSnap s)\<lparr>now_volume := keepVol\<rparr>\<rparr> else s)
      in if \<not> volHeld \<and> now_volume (gSnap s) \<ge> 0 then set_vol (now_volume (gSnap s)) s else s)"

text \<open>The start by itself, once, off the first snapshot.\<close>

definition adopt_autostart :: "('w, 'g) app_env \<Rightarrow> ('w, 'g) app \<Rightarrow> ('w, 'g) app" where
  "adopt_autostart env s =
     (let s = (if gAutoStart s \<and> \<not> gAutoWoke s then
          (let s = s\<lparr>gAutoWoke := True\<rparr> in
           if now_device (gSnap s) = CQ_DEV_ACTIVE then
             if now_state (gSnap s) = CQ_STATE_PLAYING then s
             else if now_state (gSnap s) = CQ_STATE_PAUSED
             then StartCommand env ''/spot/api/1/play'' (SetIntent env CQ_INTENT_PLAY s)
             else s\<lparr>gAutoPlayPending := True\<rparr>
           else StartCommand env ''/spot/api/1/wake?play=1'' (SetIntent env CQ_INTENT_PLAY s))
        else s)
      in if gAutoPlayPending s \<and> now_state (gSnap s) = CQ_STATE_PLAYING
         then s\<lparr>gAutoPlayPending := False\<rparr> else s)"

definition adopt_good :: "('w, 'g) app_env \<Rightarrow> bool \<Rightarrow> cq_now \<Rightarrow> ('w, 'g) app \<Rightarrow> ('w, 'g) app option" where
  "adopt_good env isCmd tmp s =
     (let s = (if isCmd \<and> gFallbackUri s \<noteq> [] then s\<lparr>gNativePlay := 1, gFallbackUri := []\<rparr> else s);
          s = s\<lparr>gBackoff := cq_backoff_ok (gBackoff s)\<rparr>
      in case cq_guard_accept_ts (gGuard s) (now_ts tmp) of (ok, g) \<Rightarrow>
        (let s = s\<lparr>gGuard := g\<rparr> in
         if \<not> ok then Some s
         else
           (let volHeld = sint (TickCount env s - gVolHold s) < 0; keepVol = now_volume (gSnap s)
            in map_option (\<lambda>s. adopt_autostart env (adopt_snap env tmp volHeld keepVol s))
                 (adopt_watchdog env tmp s))))"

definition AdoptReply :: "('w, 'g) app_env \<Rightarrow> bytes \<Rightarrow> bool \<Rightarrow> ('w, 'g) app \<Rightarrow> ('w, 'g) app option" where
  "AdoptReply env d isCmd s =
     (let s = s\<lparr>gLastLen := wrap32 (int (length d)), gDone := wrap32 (gDone s + 1), gOnline := True\<rparr>;
          f = cq_fields_parse cq_fields_init d
      in map_option (Redraw env)
           (case cq_fields_get f ''error'' of
              Some err \<Rightarrow> Some (adopt_error env isCmd err s)
            | None \<Rightarrow> adopt_good env isCmd (cq_now_from_fields f) s))"

subsection \<open>Pumping the transactions\<close>

definition status_code :: "cq_tx_status \<Rightarrow> int" where
  "status_code c = (case c of CQ_TX_RUNNING \<Rightarrow> 0 | CQ_TX_DONE \<Rightarrow> 1 | CQ_TX_FAILED \<Rightarrow> 2)"

definition error_code :: "cq_tx_error \<Rightarrow> int" where
  "error_code e = (case e of CQ_TX_ERR_NONE \<Rightarrow> 0 | CQ_TX_ERR_CONNECT \<Rightarrow> 1 | CQ_TX_ERR_TIMEOUT \<Rightarrow> 2 | CQ_TX_ERR_STREAM \<Rightarrow> 3)"

definition put_tx :: "bool \<Rightarrow> ot_tx option \<Rightarrow> ('w, 'g) app \<Rightarrow> ('w, 'g) app" where
  "put_tx isPoll t s = (if isPoll then s\<lparr>gTx := t\<rparr> else s\<lparr>gCmd := t\<rparr>)"

definition PumpTx :: "('w, 'g) app_env \<Rightarrow> bool \<Rightarrow> ot_tx \<Rightarrow> ('w, 'g) app \<Rightarrow> ('w, 'g) app option" where
  "PumpTx env isPoll t s = do {
     (s, t) \<leftarrow> poll_tx env s t;
     let s = put_tx isPoll (Some t) s;
     let s = (if isPoll then s\<lparr>gLastStat := status_code (status t)\<rparr> else s);
     case status t of
       CQ_TX_RUNNING \<Rightarrow> Some s
     | CQ_TX_DONE \<Rightarrow> do {
         s \<leftarrow> AdoptReply env (data t) (\<not> isPoll) s;
         let s = (if isPoll then s else s\<lparr>gLastPoll := TickCount env s\<rparr>);
         Some (put_tx isPoll None (free_tx env s t))
       }
     | CQ_TX_FAILED \<Rightarrow>
         (let s = (if isPoll then s\<lparr>gLastErr := error_code (error t)\<rparr> else s);
              s = s\<lparr>gLastMsg := fits 128 (message t), gOnline := False, gBackoff := cq_backoff_fail (gBackoff s)\<rparr>
          in Some (Redraw env (put_tx isPoll None (free_tx env s t))))
   }"

text \<open>The cover: every outcome is recorded; a displaced picture is released.\<close>

definition pump_cover :: "('w, 'g) app_env \<Rightarrow> 'g ui \<Rightarrow> ('w, 'g) app \<Rightarrow> ('w, 'g) app option" where
  "pump_cover env u s =
     (case gCover s of None \<Rightarrow> Some s
      | Some t \<Rightarrow> do {
          (s, t) \<leftarrow> poll_tx env s t;
          let s = s\<lparr>gCover := Some t\<rparr>;
          if status t = CQ_TX_RUNNING then Some s
          else
            (let gw = (if status t = CQ_TX_DONE \<and> cq_data_is_jpeg (data t) then u_decode u (data t) else None);
                 s = s\<lparr>gCovers := snd (cq_cache_put (gCovers s) (Some (gCoverReq s)) gw)\<rparr>;
                 s = (if gw \<noteq> None then Redraw env s else s)
             in Some ((free_tx env s t)\<lparr>gCover := None\<rparr>))
        })"

definition cover_sel :: "cstr \<Rightarrow> cstr" where
  "cover_sel d = fits 96 (''/spot/api/1/cover/'' @ d @ ''/'' @ int_str CQ_COVER_PX)"

definition start_cover :: "('w, 'g) app_env \<Rightarrow> ('w, 'g) app \<Rightarrow> ('w, 'g) app" where
  "start_cover env s =
     (case now_album_id (gSnap s) of
        Some a \<Rightarrow>
          if gQTOk s \<and> gHaveSnap s \<and> gCover s = None \<and> \<not> gSuspended s \<and> TxInFlight s < CQ_MAX_INFLIGHT \<and>
            \<not> cq_cache_has (gCovers s) (Some a)
          then (let s = s\<lparr>gCoverReq := fits 64 a\<rparr> in s\<lparr>gCover := open_tx env s (cover_sel (gCoverReq s))\<rparr>)
          else s
      | None \<Rightarrow> s)"

definition flush_command :: "('w, 'g) app_env \<Rightarrow> ('w, 'g) app \<Rightarrow> ('w, 'g) app" where
  "flush_command env s =
     (if cq_debounce_has (gDeb s) \<and> sint (TickCount env s - gCmdFire s) \<ge> 0 \<and> gCmd s = None
      then (case cq_debounce_take (gDeb s) of (sel, d) \<Rightarrow>
              let s = s\<lparr>gDeb := d\<rparr> in case sel of Some sel \<Rightarrow> StartCommand env sel s | None \<Rightarrow> s)
      else s)"

definition start_poll :: "('w, 'g) app_env \<Rightarrow> ('w, 'g) app \<Rightarrow> ('w, 'g) app" where
  "start_poll env s =
     (let t = TickCount env s in
      if \<not> gSuspended s \<and> t - gLastPoll s \<ge> of_int (cq_backoff_interval_seeded (gBackoff s) t)
      then (let s = s\<lparr>gLastPoll := t\<rparr>
            in s\<lparr>gTx := open_tx env s ''/spot/api/1/now'', gPolls := wrap32 (gPolls s + 1)\<rparr>)
      else s)"

definition PollNetwork :: "('w, 'g) app_env \<Rightarrow> 'g ui \<Rightarrow> ('w, 'g) app \<Rightarrow> ('w, 'g) app option" where
  "PollNetwork env u s = do {
     s \<leftarrow> (case gCmd s of Some t \<Rightarrow> PumpTx env False t s | None \<Rightarrow> Some s);
     s \<leftarrow> pump_cover env u s;
     let s = flush_command env (start_cover env s);
     case gTx s of Some t \<Rightarrow> PumpTx env True t s | None \<Rightarrow> Some (start_poll env s)
   }"

end
