(* ===== verification/AppAux.thy ===== *)
theory AppAux
  imports AppNet
begin

text \<open>
  The auxiliary pump of the event loop (\<open>PumpAux\<close> in \<open>os9/casquinha.c\<close>): the fired request, the
  audio service, the discovery of the stream, the search, the artist's albums, the queue and the
  media fact. The order of the stages is the source's.
\<close>

definition pump_fire :: "('w, 'g) app_env \<Rightarrow> ('w, 'g) app \<Rightarrow> ('w, 'g) app option" where
  "pump_fire env s =
     (case gFire s of None \<Rightarrow> Some s
      | Some t \<Rightarrow> do {
          (s, t) \<leftarrow> poll_tx env s t;
          if status t = CQ_TX_RUNNING then Some (s\<lparr>gFire := Some t\<rparr>)
          else Some ((free_tx env s t)\<lparr>gFire := None, gQueueKick := TickCount env s + 120\<rparr>)
        })"

text \<open>The body of a reply as the C string the reader sees.\<close>

definition pump_pls :: "('w, 'g) app_env \<Rightarrow> ('w, 'g) app \<Rightarrow> ('w, 'g) app option" where
  "pump_pls env s =
     (case gPls s of None \<Rightarrow> Some s
      | Some t \<Rightarrow> do {
          (s, t) \<leftarrow> poll_tx env s t;
          case status t of
            CQ_TX_RUNNING \<Rightarrow> Some (s\<lparr>gPls := Some t\<rparr>)
          | CQ_TX_DONE \<Rightarrow>
              (let s = (case cq_pls_first_url (Some (cview (data t))) of
                   Some url \<Rightarrow> StartStream env url s | None \<Rightarrow> s)
               in Some ((free_tx env s t)\<lparr>gPls := None\<rparr>))
          | CQ_TX_FAILED \<Rightarrow> Some ((free_tx env s t)\<lparr>gPls := None\<rparr>)
        })"

definition fill_results :: "'g ui \<Rightarrow> ('w, 'g) app \<Rightarrow> ('w, 'g) app" where
  "fill_results u s = s\<lparr>search_rows := FillResults (u_conv u) s, search_pick := None\<rparr>"

definition fill_queue :: "'g ui \<Rightarrow> ('w, 'g) app \<Rightarrow> ('w, 'g) app" where
  "fill_queue u s = s\<lparr>queue_rows := FillList (u_conv u) (gQueueItems s), queue_pick := None\<rparr>"

definition pump_search :: "('w, 'g) app_env \<Rightarrow> 'g ui \<Rightarrow> ('w, 'g) app \<Rightarrow> ('w, 'g) app option" where
  "pump_search env u s =
     (case gSearchTx s of None \<Rightarrow> Some s
      | Some t \<Rightarrow> do {
          (s, t) \<leftarrow> poll_tx env s t;
          case status t of
            CQ_TX_RUNNING \<Rightarrow> Some (s\<lparr>gSearchTx := Some t\<rparr>)
          | CQ_TX_DONE \<Rightarrow>
              (let s = fill_results u (s\<lparr>gSearchItems := cq_track_list_from_response (data t),
                     gSearchArtists := cq_ref_list_from_response (data t) ''artist'',
                     gSearchAlbums := cq_ref_list_from_response (data t) ''album'', gAlbumBrowse := False\<rparr>)
               in Some ((free_tx env s t)\<lparr>gSearchTx := None\<rparr>))
          | CQ_TX_FAILED \<Rightarrow> Some ((free_tx env s t)\<lparr>gSearchTx := None\<rparr>)
        })"

definition pump_artist :: "('w, 'g) app_env \<Rightarrow> 'g ui \<Rightarrow> ('w, 'g) app \<Rightarrow> ('w, 'g) app option" where
  "pump_artist env u s =
     (case gArtistTx s of None \<Rightarrow> Some s
      | Some t \<Rightarrow> do {
          (s, t) \<leftarrow> poll_tx env s t;
          case status t of
            CQ_TX_RUNNING \<Rightarrow> Some (s\<lparr>gArtistTx := Some t\<rparr>)
          | CQ_TX_DONE \<Rightarrow>
              (let s = fill_results u (s\<lparr>gArtistAlbums := cq_ref_list_from_response (data t) ''item'',
                     gAlbumBrowse := True\<rparr>)
               in Some ((free_tx env s t)\<lparr>gArtistTx := None\<rparr>))
          | CQ_TX_FAILED \<Rightarrow> Some ((free_tx env s t)\<lparr>gArtistTx := None\<rparr>)
        })"

subsection \<open>The queue\<close>

text \<open>A queue reply: a list with rows is adopted, an empty one only when it is the second in a row.\<close>

definition adopt_queue :: "('w, 'g) app_env \<Rightarrow> 'g ui \<Rightarrow> cq_track_list \<Rightarrow> ('w, 'g) app \<Rightarrow> ('w, 'g) app option" where
  "adopt_queue env u fresh s =
     (if length (titems fresh) > 0 then
        (let s = (fill_queue u (s\<lparr>gQueueItems := fresh\<rparr>))\<lparr>gQueueEmptyRuns := 0\<rparr> in
         if gAutoPlayPending s then
           (let s = s\<lparr>gAutoPlayPending := False\<rparr> in
            if now_state (gSnap s) \<noteq> CQ_STATE_PLAYING
            then PlayFrom env (titems (gQueueItems s)) 0 None (SetIntent env CQ_INTENT_PLAY s)
            else Some s)
         else Some s)
      else
        (let s = s\<lparr>gQueueEmptyRuns := wrap32 (gQueueEmptyRuns s + 1)\<rparr> in
         Some (if gQueueEmptyRuns s = 2 \<and> length (titems (gQueueItems s)) > 0
               then fill_queue u (s\<lparr>gQueueItems := cq_track_list_empty\<rparr>) else s)))"

definition start_queue :: "('w, 'g) app_env \<Rightarrow> ('w, 'g) app \<Rightarrow> ('w, 'g) app" where
  "start_queue env s =
     (if \<not> gSuspended s \<and> TxInFlight s < CQ_MAX_INFLIGHT then
        (let t = TickCount env s;
             due = (t - gQueueLast s \<ge> of_int (cq_backoff_interval (gQBackoff s)) \<or>
                    gQueueKick s \<noteq> 0 \<and> sint (t - gQueueKick s) \<ge> 0)
         in if due then (let s = s\<lparr>gQueueKick := 0\<rparr> in s\<lparr>gQueueTx := open_tx env s ''/spot/api/1/queue''\<rparr>)
            else s)
      else s)"

definition pump_queue :: "('w, 'g) app_env \<Rightarrow> 'g ui \<Rightarrow> ('w, 'g) app \<Rightarrow> ('w, 'g) app option" where
  "pump_queue env u s =
     (case gQueueTx s of None \<Rightarrow> Some (start_queue env s)
      | Some t \<Rightarrow> do {
          (s, t) \<leftarrow> poll_tx env s t;
          let s = s\<lparr>gQueueTx := Some t\<rparr>;
          case status t of
            CQ_TX_RUNNING \<Rightarrow> Some s
          | CQ_TX_DONE \<Rightarrow> do {
              s \<leftarrow> adopt_queue env u (cq_track_list_from_response (data t)) s;
              let s = (free_tx env s t)\<lparr>gQueueTx := None\<rparr>;
              Some (s\<lparr>gQueueLast := TickCount env s, gQBackoff := cq_backoff_ok (gQBackoff s)\<rparr>)
            }
          | CQ_TX_FAILED \<Rightarrow>
              (let s = (free_tx env s t)\<lparr>gQueueTx := None\<rparr>
               in Some (s\<lparr>gQueueLast := TickCount env s, gQBackoff := cq_backoff_fail (gQBackoff s)\<rparr>))
        })"

subsection \<open>The media fact\<close>

definition adopt_fact :: "bytes \<Rightarrow> ('w, 'g) app \<Rightarrow> ('w, 'g) app" where
  "adopt_fact d s =
     (let f = cq_fields_parse cq_fields_init d; err = cq_fields_get f ''error'' in
      if err = Some ''not_found'' then s\<lparr>gStreamProbe := -1\<rparr>
      else if err \<noteq> None then s\<lparr>gFBackoff := cq_backoff_fail (gFBackoff s)\<rparr>
      else s\<lparr>gStreamProbe := 1, gFactLive := wrap32 (cq_parse_ll (cq_fields_get f ''live'')),
             gFactTs := cq_parse_ll (cq_fields_get f ''ts''), gHaveFact := True,
             gFBackoff := cq_backoff_ok (gFBackoff s)\<rparr>)"

definition start_fact :: "('w, 'g) app_env \<Rightarrow> ('w, 'g) app \<Rightarrow> ('w, 'g) app" where
  "start_fact env s =
     (if \<not> gSuspended s \<and> gStreamProbe s \<ge> 0 \<and> TxInFlight s < CQ_MAX_INFLIGHT then
        (let t = TickCount env s in
         if t - gFactLast s \<ge> of_int (cq_backoff_interval (gFBackoff s)) \<or> gFactLast s = 0
         then (let s = s\<lparr>gFactLast := t\<rparr> in s\<lparr>gFactTx := open_tx env s ''/spot/api/1/stream''\<rparr>)
         else s)
      else s)"

definition pump_fact :: "('w, 'g) app_env \<Rightarrow> ('w, 'g) app \<Rightarrow> ('w, 'g) app option" where
  "pump_fact env s =
     (case gFactTx s of None \<Rightarrow> Some (start_fact env s)
      | Some t \<Rightarrow> do {
          (s, t) \<leftarrow> poll_tx env s t;
          case status t of
            CQ_TX_RUNNING \<Rightarrow> Some (s\<lparr>gFactTx := Some t\<rparr>)
          | CQ_TX_DONE \<Rightarrow>
              (let s = (free_tx env (adopt_fact (data t) s) t)\<lparr>gFactTx := None\<rparr>
               in Some (s\<lparr>gFactLast := TickCount env s\<rparr>))
          | CQ_TX_FAILED \<Rightarrow>
              (let s = (free_tx env s t)\<lparr>gFactTx := None\<rparr>
               in Some (s\<lparr>gFactLast := TickCount env s, gFBackoff := cq_backoff_fail (gFBackoff s)\<rparr>))
        })"

definition PumpAux :: "('w, 'g) app_env \<Rightarrow> 'g ui \<Rightarrow> ('w, 'g) app \<Rightarrow> ('w, 'g) app option" where
  "PumpAux env u s = do {
     s \<leftarrow> pump_fire env s;
     s \<leftarrow> ServiceAudio env s;
     s \<leftarrow> pump_pls env s;
     s \<leftarrow> pump_search env u s;
     s \<leftarrow> pump_artist env u s;
     s \<leftarrow> pump_queue env u s;
     pump_fact env s
   }"

end
