(* ===== verification/AppUI.thy ===== *)
theory AppUI
  imports AppAux
begin

text \<open>
  What the user, a script and the system can ask of the application (\<open>os9/casquinha.c\<close>): list and
  button actions, tuning, the change of the server, do-script commands, keys, suspend and resume, and
  a pass of the event loop. What the Toolbox answers about an event is part of the event.
\<close>

abbreviation kFileMenu :: u32 where "kFileMenu \<equiv> 129"
abbreviation kPrefsItem :: u32 where "kPrefsItem \<equiv> 1"
abbreviation kQuitItem :: u32 where "kQuitItem \<equiv> 3"
abbreviation CQ_LIST_TOP :: int where "CQ_LIST_TOP \<equiv> 282"
abbreviation CQ_LIST_BOTTOM :: int where "CQ_LIST_BOTTOM \<equiv> 474"

subsection \<open>Actions on rows\<close>

definition StartArtistAlbums :: "('w, 'g) app_env \<Rightarrow> cstr option \<Rightarrow> cstr option \<Rightarrow> ('w, 'g) app \<Rightarrow> ('w, 'g) app" where
  "StartArtistAlbums env artistId artistName s =
     (if artistId = None \<or> artistId = Some [] then s
      else
        (let sel = artist_sel (the artistId) in
         case ActionRepeat env sel s of (rep, s) \<Rightarrow>
           if rep then s
           else
             (let s = (drop_tx env s (gArtistTx s))
                    \<lparr>gArtistTx := None, gBrowseArtist := fits 64 (or_else artistName '''')\<rparr>
              in s\<lparr>gArtistTx := open_tx env s sel\<rparr>)))"

definition PlayContextAlbum :: "('w, 'g) app_env \<Rightarrow> cstr option \<Rightarrow> ('w, 'g) app \<Rightarrow> ('w, 'g) app" where
  "PlayContextAlbum env albumId s =
     (if albumId = None \<or> albumId = Some [] then s
      else
        (let sel = album_context_sel (the albumId) in
         case ActionRepeat env sel s of (rep, s) \<Rightarrow>
           if rep then s else StartCommand env sel (SetIntent env CQ_INTENT_PLAY s)))"

definition RunSearch :: "('w, 'g) app_env \<Rightarrow> 'g ui \<Rightarrow> ('w, 'g) app \<Rightarrow> ('w, 'g) app" where
  "RunSearch env u s =
     (let q = cview (take 127 (search_text s)) in
      if q = [] then s
      else
        (let sel = search_sel (u_convout u) q in
         case ActionRepeat env sel s of (rep, s) \<Rightarrow>
           if rep then s
           else
             (let s = (drop_tx env s (gArtistTx s))\<lparr>gAlbumBrowse := False, gBrowseArtist := [], gArtistTx := None\<rparr>;
                  s = drop_tx env s (gSearchTx s)
              in s\<lparr>gSearchTx := open_tx env s sel\<rparr>)))"

definition QueueSelected :: "('w, 'g) app_env \<Rightarrow> ('w, 'g) app \<Rightarrow> ('w, 'g) app" where
  "QueueSelected env s =
     (case search_pick s of None \<Rightarrow> s
      | Some row \<Rightarrow> (case ResultKindAt s row of
            (CQ_ROW_TRACK, Some li) \<Rightarrow>
              if li \<ge> length (titems (gSearchItems s)) then s
              else (case it_uri (titems (gSearchItems s) ! li) of None \<Rightarrow> s
                | Some uri \<Rightarrow> StartFire env (queue_add_sel uri) s)
          | (CQ_ROW_ALBUM, Some li) \<Rightarrow>
              (let src = ritems (if gAlbumBrowse s then gArtistAlbums s else gSearchAlbums s) in
               if li \<ge> length src then s
               else (case ref_id (src ! li) of None \<Rightarrow> s
                 | Some d \<Rightarrow> StartFire env (queue_album_sel d) s))
          | _ \<Rightarrow> s))"

definition NextCommand :: "('w, 'g) app_env \<Rightarrow> ('w, 'g) app \<Rightarrow> ('w, 'g) app option" where
  "NextCommand env s =
     (let s = SetIntent env CQ_INTENT_SKIP s;
          row = QueueNextRow (gQueueItems s) (now_track_id (gSnap s))
      in if now_state (gSnap s) \<noteq> CQ_STATE_PLAYING \<and> row \<ge> 0
         then PlayFrom env (titems (gQueueItems s)) row None s
         else Some (s\<lparr>gDeb := cq_debounce_set (gDeb s) (Some ''/spot/api/1/next''),
                      gCmdFire := TickCount env s + CQ_DEBOUNCE_TICKS\<rparr>))"

definition ToggleListen :: "('w, 'g) app_env \<Rightarrow> ('w, 'g) app \<Rightarrow> ('w, 'g) app option" where
  "ToggleListen env s =
     (if gAuSt s \<noteq> AU_IDLE then StopAudio env s
      else if gPls s \<noteq> None then Some s
      else Some (s\<lparr>gPls := open_tx env s ''/spot/stream.pls''\<rparr>))"

subsection \<open>Clicks in the window\<close>

datatype control = gPrev | gNext | gPlay | gVol int | gSearchBtn | gQueueAddBtn | gSearchEdit | other_control

definition click_control :: "('w, 'g) app_env \<Rightarrow> 'g ui \<Rightarrow> control \<Rightarrow> ('w, 'g) app \<Rightarrow> ('w, 'g) app option" where
  "click_control env u ctl s = (case ctl of
       gPrev \<Rightarrow> (let s = SetIntent env CQ_INTENT_SKIP s
                 in Some (s\<lparr>gDeb := cq_debounce_set (gDeb s) (Some ''/spot/api/1/prev''),
                            gCmdFire := TickCount env s + CQ_DEBOUNCE_TICKS\<rparr>))
     | gNext \<Rightarrow> NextCommand env s
     | gPlay \<Rightarrow>
         (let playing = (now_state (gSnap s) = CQ_STATE_PLAYING);
              ps = (if playing then ''/spot/api/1/pause'' else ''/spot/api/1/play'')
          in case ActionRepeat env ps s of (rep, s) \<Rightarrow>
            Some (if rep then s
              else StartCommand env ps (SetIntent env (if playing then CQ_INTENT_PAUSE else CQ_INTENT_PLAY) s)))
     | gVol v \<Rightarrow>
         (let s = s\<lparr>vol_value := v, gVolHold := TickCount env s + CQ_HOLD_TICKS\<rparr>
          in Some (StartCommand env (fits 48 (''/spot/api/1/volume?'' @ int_str v)) s))
     | gSearchBtn \<Rightarrow> Some (RunSearch env u s)
     | gQueueAddBtn \<Rightarrow> Some (QueueSelected env s)
     | _ \<Rightarrow> Some s)"

text \<open>A click on the progress bar, \<open>h\<close> from its left edge, of a bar of width \<open>width\<close>.\<close>

definition click_seek :: "('w, 'g) app_env \<Rightarrow> int \<Rightarrow> int \<Rightarrow> ('w, 'g) app \<Rightarrow> ('w, 'g) app" where
  "click_seek env h width s =
     (let frac = (if h < 0 then 0 else h); frac = (if frac > width then width else frac);
          ms = tdiv (wrap64 (now_duration_ms (gSnap s) * frac)) width
      in StartCommand env (fits 48 (''/spot/api/1/seek?'' @ int_str (wrap32 ms))) s)"

definition click_result :: "('w, 'g) app_env \<Rightarrow> 'g ui \<Rightarrow> int \<Rightarrow> ('w, 'g) app \<Rightarrow> ('w, 'g) app option" where
  "click_result env u row s = (case ResultKindAt s row of
       (CQ_ROW_TRACK, Some li) \<Rightarrow>
         PlayFrom env (titems (gSearchItems s)) (int li) (Some (titems (gQueueItems s))) s
     | (CQ_ROW_ARTIST, Some li) \<Rightarrow>
         (let a = ritems (gSearchArtists s) ! li in Some (StartArtistAlbums env (ref_id a) (ref_name a) s))
     | (CQ_ROW_ALBUM, Some li) \<Rightarrow>
         (let src = ritems (if gAlbumBrowse s then gArtistAlbums s else gSearchAlbums s)
          in Some (if li < length src then PlayContextAlbum env (ref_id (src ! li)) s else s))
     | (CQ_ROW_BACK, _) \<Rightarrow> Some (fill_results u (s\<lparr>gAlbumBrowse := False\<rparr>))
     | _ \<Rightarrow> Some s)"

definition click_queue :: "('w, 'g) app_env \<Rightarrow> int \<Rightarrow> ('w, 'g) app \<Rightarrow> ('w, 'g) app option" where
  "click_queue env row s = PlayFrom env (titems (gQueueItems s)) row None s"

text \<open>
  A click in a window of width \<open>c_width\<close>, at the point \<open>(c_h, c_v)\<close>: the control the Toolbox finds there
  and whether the button was let go inside it; for a click in a list, whether it was the second of
  two, and the row it selects.
\<close>

record click =
  c_width :: int
  c_h :: int
  c_v :: int
  c_ctl :: "control option"
  c_tracked :: bool
  c_double :: bool
  c_row :: "int option"

definition PtInRect :: "int \<Rightarrow> int \<Rightarrow> int \<Rightarrow> int \<Rightarrow> int \<Rightarrow> int \<Rightarrow> bool" where
  "PtInRect h v l t r b \<longleftrightarrow> l \<le> h \<and> h < r \<and> t \<le> v \<and> v < b"

text \<open>A list's view: its area without the room for the scroll bar.\<close>

definition in_list :: "int \<Rightarrow> int \<Rightarrow> int \<Rightarrow> int \<Rightarrow> bool" where
  "in_list h v left right = PtInRect h v left CQ_LIST_TOP (right - 15) CQ_LIST_BOTTOM"

definition DoContentClick :: "('w, 'g) app_env \<Rightarrow> 'g ui \<Rightarrow> click \<Rightarrow> ('w, 'g) app \<Rightarrow> ('w, 'g) app option" where
  "DoContentClick env u c s =
     (let w = c_width c; h = c_h c; v = c_v c in
      case c_ctl c of
        Some ctl \<Rightarrow> if ctl \<noteq> gSearchEdit \<and> c_tracked c then click_control env u ctl s else Some s
      | None \<Rightarrow>
          if gHaveSnap s \<and> now_duration_ms (gSnap s) > 0 \<and> PtInRect h v 16 108 (w - 16) 124
          then Some (click_seek env (h - 16) (w - 32) s)
          else if in_list h v 16 (tdiv w 2 - 6) then
            (let s = s\<lparr>search_pick := c_row c\<rparr>
             in case c_row c of Some row \<Rightarrow> if c_double c then click_result env u row s else Some s | None \<Rightarrow> Some s)
          else if in_list h v (tdiv w 2 + 4) (w - 16) then
            (let s = s\<lparr>queue_pick := c_row c\<rparr>
             in case c_row c of Some row \<Rightarrow> if c_double c then click_queue env row s else Some s | None \<Rightarrow> Some s)
          else Some s)"

subsection \<open>The server\<close>

definition drop_field :: "('w, 'g) app_env \<Rightarrow> (('w, 'g) app \<Rightarrow> ot_tx option) \<Rightarrow> (('w, 'g) app \<Rightarrow> ('w, 'g) app) \<Rightarrow>
    ('w, 'g) app \<Rightarrow> ('w, 'g) app" where
  "drop_field env get clear s = clear (drop_tx env s (get s))"

text \<open>The covers are per host; their pictures are released.\<close>

function clear_covers :: "'g cq_cache \<Rightarrow> 'g cq_cache" where
  "clear_covers c = (if cq_cache_count c > 0 then clear_covers (snd (cq_cache_take_oldest c)) else c)"
  by pat_completeness auto
termination
  by (relation "measure cq_cache_count")
    (auto simp: cq_cache_count_def cq_cache_take_oldest_def shift_out_oldest_def Let_def)

declare clear_covers.simps [simp del]

definition ApplyServerChange :: "('w, 'g) app_env \<Rightarrow> ('w, 'g) app \<Rightarrow> ('w, 'g) app" where
  "ApplyServerChange env s =
     (let s = drop_field env gTx (\<lambda>s. s\<lparr>gTx := None\<rparr>) s;
          s = drop_field env gCmd (\<lambda>s. s\<lparr>gCmd := None\<rparr>) s;
          s = drop_field env gCover (\<lambda>s. s\<lparr>gCover := None\<rparr>) s;
          s = drop_field env gFire (\<lambda>s. s\<lparr>gFire := None\<rparr>) s;
          s = drop_field env gSearchTx (\<lambda>s. s\<lparr>gSearchTx := None\<rparr>) s;
          s = drop_field env gArtistTx (\<lambda>s. s\<lparr>gArtistTx := None\<rparr>) s;
          s = drop_field env gQueueTx (\<lambda>s. s\<lparr>gQueueTx := None\<rparr>) s;
          s = drop_field env gFactTx (\<lambda>s. s\<lparr>gFactTx := None\<rparr>) s;
          s = drop_field env gPls (\<lambda>s. s\<lparr>gPls := None\<rparr>) s
      in s\<lparr>gGuard := cq_guard_reset (gGuard s), gBackoff := cq_backoff_init CQ_POLL_TICKS CQ_POLL_CAP,
           gQBackoff := cq_backoff_init CQ_QUEUE_POLL_TICKS CQ_POLL_CAP,
           gFBackoff := cq_backoff_init CQ_STREAM_POLL_TICKS CQ_POLL_CAP,
           gLastPoll := 0, gQueueLast := 0, gQueueKick := 0,
           gStreamProbe := 0, gHaveFact := False, gFactLast := 0,
           gCovers := clear_covers (gCovers s)\<rparr>)"

definition ReloadConfig :: "('w, 'g) app_env \<Rightarrow> ('w, 'g) app \<Rightarrow> ('w, 'g) app" where
  "ReloadConfig env s =
     (case LoadPrefs (prefs_file s) (gHost s, gPort s) of (h, p) \<Rightarrow>
        let s' = s\<lparr>gHost := h, gPort := p\<rparr>
        in if fits 64 (gHost s) \<noteq> h \<or> gPort s \<noteq> p then ApplyServerChange env s' else s')"

definition save_prefs :: "'g ui \<Rightarrow> ('w, 'g) app \<Rightarrow> ('w, 'g) app" where
  "save_prefs u s = s\<lparr>prefs_file := Some (SavePrefs (u_mem u) (gHost s) (gPort s))\<rparr>"

subsection \<open>Scripts, keys and the system\<close>

definition wake :: "('w, 'g) app_env \<Rightarrow> ('w, 'g) app \<Rightarrow> ('w, 'g) app" where
  "wake env s = StartCommand env ''/spot/api/1/wake?play=1'' (SetIntent env CQ_INTENT_PLAY s)"

definition DoScriptCmd :: "('w, 'g) app_env \<Rightarrow> 'g ui \<Rightarrow> cstr \<Rightarrow> ('w, 'g) app \<Rightarrow> ('w, 'g) app option" where
  "DoScriptCmd env u cmd s =
     (if cmd = ''listen'' then (if gAuSt s = AU_IDLE then ToggleListen env s else Some s)
      else if cmd = ''stop'' then (if gAuSt s \<noteq> AU_IDLE then ToggleListen env s else Some s)
      else if cmd = ''play'' then Some (StartCommand env ''/spot/api/1/play'' (SetIntent env CQ_INTENT_PLAY s))
      else if cmd = ''pause'' then Some (StartCommand env ''/spot/api/1/pause'' (SetIntent env CQ_INTENT_PAUSE s))
      else if cmd = ''next'' then NextCommand env s
      else if cmd = ''prev'' then Some (StartCommand env ''/spot/api/1/prev'' (SetIntent env CQ_INTENT_SKIP s))
      else if cmd = ''wake'' then Some (wake env s)
      else if take 7 cmd = ''search:'' then Some (RunSearch env u (s\<lparr>search_text := drop 7 cmd\<rparr>))
      else if cmd = ''add'' then
        Some (QueueSelected env
          (if search_pick s = None \<and> length (titems (gSearchItems s)) > 0 \<and> search_rows s \<noteq> []
           then s\<lparr>search_pick := Some 0\<rparr> else s))
      else if take 7 cmd = ''server:'' then
        (case script_server (drop 7 cmd) (gPort s) of None \<Rightarrow> Some s
         | Some (h, p) \<Rightarrow> Some (ApplyServerChange env (save_prefs u (s\<lparr>gHost := h, gPort := p\<rparr>))))
      else Some s)"

text \<open>
  The direct object of a script, read into a buffer of 256 characters; the Apple Event Manager
  reports the length of the whole text, also when it did not fit. None when the closing NUL is
  written outside the buffer.
\<close>

definition AEDoScriptHandler :: "('w, 'g) app_env \<Rightarrow> 'g ui \<Rightarrow> bytes \<Rightarrow> ('w, 'g) app \<Rightarrow> ('w, 'g) app option" where
  "AEDoScriptHandler env u d s = (if length d < 256 then DoScriptCmd env u (cview d) s else None)"

text \<open>A menu choice: the menu in the high half, the item in the low half.\<close>

definition DoMenu :: "'g ui \<Rightarrow> u32 \<Rightarrow> ('w, 'g) app \<Rightarrow> ('w, 'g) app" where
  "DoMenu u choice s =
     (let menu = drop_bit 16 choice; item = choice AND 0xFFFF in
      if menu = kFileMenu then
        (if item = kPrefsItem then save_prefs u s else if item = kQuitItem then s\<lparr>gRunning := False\<rparr> else s)
      else s)"

text \<open>Where the mouse went down, with what the Toolbox says of it.\<close>

datatype window_part = InMenuBar u32 | InGoAway bool bool | InContent bool bool click | InOther

definition DoMouseDown :: "('w, 'g) app_env \<Rightarrow> 'g ui \<Rightarrow> window_part \<Rightarrow> ('w, 'g) app \<Rightarrow> ('w, 'g) app option" where
  "DoMouseDown env u p s = (case p of
       InMenuBar choice \<Rightarrow> Some (DoMenu u choice s)
     | InGoAway tracked ours \<Rightarrow> Some (if tracked \<and> ours then s\<lparr>gRunning := False\<rparr> else s)
     | InContent front ours c \<Rightarrow> if front \<and> ours then DoContentClick env u c s else Some s
     | InOther \<Rightarrow> Some s)"

text \<open>
  A key with the command key down, with the menu choice the Toolbox makes of it; and a key without,
  with whether the search field has the focus and the field's text after it.
\<close>

definition cmd_key :: "('w, 'g) app_env \<Rightarrow> 'g ui \<Rightarrow> char \<Rightarrow> u32 \<Rightarrow> ('w, 'g) app \<Rightarrow> ('w, 'g) app option" where
  "cmd_key env u ch choice s =
     (if ch = CHR ''f'' \<or> ch = CHR ''F'' then Some s
      else if ch = CHR ''t'' \<or> ch = CHR ''T'' then ToggleListen env s
      else if ch = CHR ''k'' \<or> ch = CHR ''K'' then Some (wake env s)
      else if ch = CHR ''u'' \<or> ch = CHR ''U'' then Some (s\<lparr>gQueueKick := TickCount env s\<rparr>)
      else Some (DoMenu u choice s))"

definition plain_key :: "('w, 'g) app_env \<Rightarrow> 'g ui \<Rightarrow> char \<Rightarrow> bool \<Rightarrow> cstr \<Rightarrow> ('w, 'g) app \<Rightarrow> ('w, 'g) app" where
  "plain_key env u ch focus field s =
     (if focus then if ch = CHR 0x0D \<or> ch = CHR 0x0A then RunSearch env u s else s\<lparr>search_text := field\<rparr> else s)"

text \<open>Suspend and resume; a resume re-reads the preferences and kicks a poll.\<close>

definition os_event :: "('w, 'g) app_env \<Rightarrow> u32 \<Rightarrow> ('w, 'g) app \<Rightarrow> ('w, 'g) app" where
  "os_event env msg s =
     (if drop_bit 24 msg AND 0xFF = 1 then
        (let s = s\<lparr>gSuspended := (msg AND 1 = 0)\<rparr>
         in if \<not> gSuspended s then (ReloadConfig env s)\<lparr>gLastPoll := 0\<rparr> else s)
      else s)"

text \<open>
  The events of the loop. An edit of the preferences file by another program arrives as an event too.
\<close>

datatype app_event = MouseDown window_part | CmdKey char u32 | PlainKey char bool cstr | OsEvt u32 |
  AEScript bytes | AEQuit | AENoop | EditedPrefs bytes | NullEvent

definition HandleEvent :: "('w, 'g) app_env \<Rightarrow> 'g ui \<Rightarrow> app_event \<Rightarrow> ('w, 'g) app \<Rightarrow> ('w, 'g) app option" where
  "HandleEvent env u e s = (case e of
       MouseDown p \<Rightarrow> DoMouseDown env u p s
     | CmdKey ch choice \<Rightarrow> cmd_key env u ch choice s
     | PlainKey ch focus field \<Rightarrow> Some (plain_key env u ch focus field s)
     | OsEvt msg \<Rightarrow> Some (os_event env msg s)
     | AEScript d \<Rightarrow> AEDoScriptHandler env u d s
     | AEQuit \<Rightarrow> Some (s\<lparr>gRunning := False\<rparr>)
     | AENoop \<Rightarrow> Some s
     | EditedPrefs bs \<Rightarrow> Some (s\<lparr>prefs_file := Some bs\<rparr>)
     | NullEvent \<Rightarrow> Some s)"

text \<open>One pass of the event loop; the program ends with the audio stopped and the task gone.\<close>

definition loop_pass :: "('w, 'g) app_env \<Rightarrow> 'g ui \<Rightarrow> app_event \<Rightarrow> ('w, 'g) app \<Rightarrow> ('w, 'g) app option" where
  "loop_pass env u e s = do {
     s \<leftarrow> HandleEvent env u e s;
     s \<leftarrow> PollNetwork env u s;
     s \<leftarrow> PumpAux env u s;
     Some (TickView env s)
   }"

definition app_quit :: "('w, 'g) app_env \<Rightarrow> ('w, 'g) app \<Rightarrow> ('w, 'g) app option" where
  "app_quit env s = do {
     s \<leftarrow> StopAudio env s;
     s \<leftarrow> QuitDecTask env s;
     let s = drop_tx env s (gTx s);
     Some (s\<lparr>gSnap := cq_now_free (gSnap s)\<rparr>)
   }"

text \<open>The start: the cadences, the memories, the preferences, and tuning in unless OPTION is held.\<close>

definition app_boot :: "('w, 'g) app_env \<Rightarrow> bool \<Rightarrow> ('w, 'g) app \<Rightarrow> ('w, 'g) app option" where
  "app_boot env option_held s =
     (let s = s\<lparr>gGuard := cq_guard_init (gGuard s), gBackoff := cq_backoff_init CQ_POLL_TICKS CQ_POLL_CAP,
            gQBackoff := cq_backoff_init CQ_QUEUE_POLL_TICKS CQ_POLL_CAP,
            gFBackoff := cq_backoff_init CQ_STREAM_POLL_TICKS CQ_POLL_CAP,
            gCovers := cq_cache_init, gDeb := cq_debounce_init (gDeb s)\<rparr>
      in case LoadPrefs (prefs_file s) (gHost s, gPort s) of (h, p) \<Rightarrow>
        (let s = s\<lparr>gHost := h, gPort := p, gAutoStart := (gAutoStart s \<and> \<not> option_held), gSnap := cq_now_zero\<rparr>
         in if gAutoStart s \<and> gAuSt s = AU_IDLE then ToggleListen env s else Some s))"

end
