(* ===== verification/AppFrame.thy ===== *)
theory AppFrame
  imports AppUI
begin

text \<open>
  What the audio engine leaves alone: the lists and every global of the application beyond the
  engine's own. The task's side of the environment is bound by \<open>yield_ok\<close>.
\<close>

definition audio_frame :: "('w, 'a) audio_scheme \<Rightarrow> ('w, 'a) audio_scheme \<Rightarrow> bool" where
  "audio_frame s s' \<longleftrightarrow> results.truncate s' = results.truncate s \<and> audio.more s' = audio.more s"

lemma frame_refl [simp]: "audio_frame s s"
  by (simp add: audio_frame_def)

lemma frame_trans: "audio_frame a b \<Longrightarrow> audio_frame b c \<Longrightarrow> audio_frame a c"
  by (simp add: audio_frame_def)

lemma frame_upd [simp]:
  "audio_frame a (s\<lparr>mach := x1\<rparr>) = audio_frame a s" "audio_frame a (s\<lparr>gDec := x2\<rparr>) = audio_frame a s"
  "audio_frame a (s\<lparr>gMPDecode := x4\<rparr>) = audio_frame a s" "audio_frame a (s\<lparr>gDecTask := x5\<rparr>) = audio_frame a s"
  "audio_frame a (s\<lparr>gDecQ := x6\<rparr>) = audio_frame a s" "audio_frame a (s\<lparr>gDecCmd := x7\<rparr>) = audio_frame a s"
  "audio_frame a (s\<lparr>gDecAck := x8\<rparr>) = audio_frame a s" "audio_frame a (s\<lparr>gDecBeat := x9\<rparr>) = audio_frame a s"
  "audio_frame a (s\<lparr>gStream := y1\<rparr>) = audio_frame a s" "audio_frame a (s\<lparr>gAuSt := y2\<rparr>) = audio_frame a s"
  "audio_frame a (s\<lparr>gComp := y3\<rparr>) = audio_frame a s" "audio_frame a (s\<lparr>gHaveRing := y4\<rparr>) = audio_frame a s"
  "audio_frame a (s\<lparr>gHaveCompRing := y5\<rparr>) = audio_frame a s" "audio_frame a (s\<lparr>gFmt := y6\<rparr>) = audio_frame a s"
  "audio_frame a (s\<lparr>gChan := y7\<rparr>) = audio_frame a s" "audio_frame a (s\<lparr>gHaveDB := y8\<rparr>) = audio_frame a s"
  "audio_frame a (s\<lparr>gDB := y9\<rparr>) = audio_frame a s" "audio_frame a (s\<lparr>gPlaying := z1\<rparr>) = audio_frame a s"
  "audio_frame a (s\<lparr>gDBFires := z2\<rparr>) = audio_frame a s" "audio_frame a (s\<lparr>gDBSilence := z3\<rparr>) = audio_frame a s"
  "audio_frame a (s\<lparr>gRingSkip := z4\<rparr>) = audio_frame a s" "audio_frame a (s\<lparr>gTrims := z5\<rparr>) = audio_frame a s"
  "audio_frame a (s\<lparr>gStarveTick := z6\<rparr>) = audio_frame a s" "audio_frame a (s\<lparr>gRxTick := z7\<rparr>) = audio_frame a s"
  "audio_frame a (s\<lparr>gAuBeat := z8\<rparr>) = audio_frame a s" "audio_frame a (s\<lparr>gRxTotal := z9\<rparr>) = audio_frame a s"
  "audio_frame a (s\<lparr>gDecResSeen := v1\<rparr>) = audio_frame a s" "audio_frame a (s\<lparr>gDecFluSeen := v2\<rparr>) = audio_frame a s"
  "audio_frame a (s\<lparr>prevSil := v3\<rparr>) = audio_frame a s" "audio_frame a (s\<lparr>prevRx := v4\<rparr>) = audio_frame a s"
  "audio_frame a (s\<lparr>prevBeat := v5\<rparr>) = audio_frame a s"
  by (simp_all add: audio_frame_def results.truncate_def)

lemma parked_frame: "parked_from s s' \<Longrightarrow> audio_frame s s'"
  unfolding parked_from_def by (elim exE conjE) simp

lemma yield_frame: "yield_ok env \<Longrightarrow> audio_frame s (e_yield env s)"
  by (rule parked_frame) (rule yield_parked)

lemma park_frame: "yield_ok env \<Longrightarrow> ParkDecTask env s = Some s' \<Longrightarrow> audio_frame s s'"
  by (rule parked_frame) (rule park_parked)

lemma quit_frame: "yield_ok env \<Longrightarrow> QuitDecTask env s = Some s' \<Longrightarrow> audio_frame s s'"
proof -
  assume y: "yield_ok env" and q: "QuitDecTask env s = Some s'"
  show ?thesis
  proof (cases "gDecTask s")
    case False
    then show ?thesis using q by (simp add: QuitDecTask_def)
  next
    case True
    then obtain s1 where p: "ParkDecTask env s = Some s1"
      and e: "s' = (let s = e_yield env (s1\<lparr>gDecCmd := CQ_DEC_QUIT\<rparr>); s = (if e_mpjoin env then s else e_yield env s)
        in s\<lparr>gDecQ := False, gDecTask := False\<rparr>)"
      using q by (auto simp: QuitDecTask_def bind_eq_Some_conv Let_def)
    have f: "audio_frame s (s1\<lparr>gDecCmd := CQ_DEC_QUIT\<rparr>)" using park_frame [OF y p] by simp
    note y1 = frame_trans [OF f yield_frame [OF y]]
    note y2 = frame_trans [OF y1 yield_frame [OF y]]
    show ?thesis unfolding e Let_def using y1 y2 by simp
  qed
qed

lemma stop_frame:
  assumes "yield_ok env" "StopAudio env s = Some s'" shows "audio_frame s s'"
proof -
  define s1 where "s1 = (let s = s\<lparr>gChan := False\<rparr>;
     s = (case gStream s of Some t \<Rightarrow> s\<lparr>mach := cancel_free (e_ot env) (mach s) t, gStream := None\<rparr> | None \<Rightarrow> s)
     in s\<lparr>gAuSt := AU_IDLE, gComp := []\<rparr>)"
  obtain s2 where p: "ParkDecTask env s1 = Some s2" and e: "s' = s2\<lparr>gDec := (cq_decring_reset (gDec s2))\<lparr>pcm_wr := 0, pcm_rd := 0\<rparr>,
      gPlaying := False, gRingSkip := 0, gStarveTick := 0, gRxTick := 0\<rparr>"
    using assms(2) by (auto simp: StopAudio_def bind_eq_Some_conv Let_def s1_def)
  have "audio_frame s s1" by (simp add: s1_def Let_def split: option.split)
  then show ?thesis unfolding e using park_frame [OF assms(1) p] by (auto intro: frame_trans)
qed

lemma ring_frames: "take_ring env s = (s', ok) \<Longrightarrow> audio_frame s s'" "take_comp_ring env s = (s', ok) \<Longrightarrow> audio_frame s s'"
  by (auto simp: take_ring_def take_comp_ring_def split: if_splits option.splits)

lemma start_task_frame [simp]: "audio_frame s (StartDecTask env s)"
  by (simp add: StartDecTask_def Let_def)

lemma open_frame:
  assumes "yield_ok env" "OpenAudioOutput env s = Some (s', ok)" shows "audio_frame s s'"
proof -
  obtain s1 k1 where t1: "take_ring env s = (s1, k1)" by (cases "take_ring env s")
  obtain s2 k2 where t2: "take_comp_ring env s1 = (s2, k2)" by (cases "take_comp_ring env s1")
  have f: "audio_frame s s1" "audio_frame s s2" using ring_frames(1) [OF t1] ring_frames(2) [OF t2] by (auto intro: frame_trans)
  show ?thesis
  proof (cases "k1 \<and> k2")
    case False
    then show ?thesis using assms(2) f by (auto simp: OpenAudioOutput_def t1 t2 split: if_splits)
  next
    case True
    then obtain s3 where p: "ParkDecTask env (StartDecTask env s2) = Some s3" and "audio_frame s3 s'"
      using assms(2) by (auto simp: OpenAudioOutput_def t1 t2 bind_eq_Some_conv Let_def)
    then show ?thesis using f(2) park_frame [OF assms(1) p] start_task_frame by (metis frame_trans)
  qed
qed

lemma double_back_frame': "AudioDoubleBack s = (s', out, nf) \<Longrightarrow> audio_frame s s'"
  by (auto simp: AudioDoubleBack_def apply_skip_def Let_def split: if_splits)

lemma start_buffer_frame:
  assumes "StartDoubleBuffer env s = (s', ok)" shows "audio_frame s s'"
proof -
  define s1 where "s1 = (if gHaveDB s then s else s\<lparr>gHaveDB := e_newptr env CQ_AUD_CHUNK \<noteq> None\<rparr>)"
  have f1: "audio_frame s s1" by (simp add: s1_def)
  obtain s2 b0 f0 where d0: "AudioDoubleBack (s1\<lparr>gChan := True\<rparr>) = (s2, b0, f0)"
    by (cases "AudioDoubleBack (s1\<lparr>gChan := True\<rparr>)") auto
  obtain s3 b1 f1' where d1: "AudioDoubleBack s2 = (s3, b1, f1')" by (cases "AudioDoubleBack s2") auto
  have "audio_frame (s1\<lparr>gChan := True\<rparr>) s3" using double_back_frame' [OF d0] double_back_frame' [OF d1] by (rule frame_trans)
  then have "audio_frame s s3" using f1 frame_upd(15) frame_trans by (metis (no_types))
  moreover have "(s', ok) = (if \<not> gHaveDB s1 then (s1, False) else if \<not> e_sndnew env then (s1\<lparr>gChan := False\<rparr>, False)
      else if e_sndplay env then (s3\<lparr>gDB := (b0, b1), gPlaying := True\<rparr>, True) else (s3\<lparr>gDB := (b0, b1)\<rparr>, False))"
    unfolding assms [symmetric] StartDoubleBuffer_def Let_def s1_def [symmetric] d0 d1 prod.case by simp
  ultimately show ?thesis using f1 by (auto split: if_splits)
qed

lemma drain_frame [simp]: "audio_frame s (DrainStreamToDec s)" "audio_frame s (stage_drain b s)" "audio_frame s (close_stream env s)"
  by (auto simp: DrainStreamToDec_def stage_drain_def close_stream_def split: option.split prod.split)

lemma small_frames [simp]: "audio_frame s (note_ticks t s)" "audio_frame s (request_trim s)" "audio_frame s (heartbeat t s)"
  "audio_frame s (run_pump env s)" "audio_frame s (StartStream env url s)"
  by (auto simp: note_ticks_def request_trim_def heartbeat_def run_pump_def StartStream_def Let_def split: option.split prod.split)


subsection \<open>The whole service\<close>

lemma wire_frame:
  assumes "yield_ok env" "service_wire env s = Some (s', go)" shows "audio_frame s s'"
proof (cases "gStream s")
  case None
  then show ?thesis using assms(2) by (simp add: service_wire_def)
next
  case (Some t)
  obtain m t1 where p: "cq_tx_poll (e_fuel env) (e_ot env) (e_ticks env) (mach s) t = Some (m, t1)"
    using assms(2) Some by (auto simp: service_wire_def bind_eq_Some_conv)
  define s1 where "s1 = s\<lparr>mach := m, gStream := Some t1\<rparr>"
  define s2 where "s2 = (if gAuSt s1 = AU_PLAY then DrainStreamToDec s1 else stage_drain True s1)"
  have f2: "audio_frame s s2" by (rule frame_trans [of _ s1]) (simp_all add: s1_def s2_def)
  note e = assms(2) [unfolded service_wire_def Some option.case p bind.bind_lunit prod.case Let_def, folded s1_def, folded s2_def]
  have c: "audio_frame s (close_stream env (DrainStreamToDec s2))" "audio_frame s (close_stream env (stage_drain False s2))"
    using f2 drain_frame by (metis frame_trans)+
  show ?thesis
  proof (cases "status t1 = CQ_TX_RUNNING \<or> gAuSt s2 = AU_PLAY")
    case True
    then have "s' = s2 \<or> (\<exists>d. s' = (close_stream env (DrainStreamToDec s2))\<lparr>gDec := d\<rparr>)"
      using e by (auto split: if_splits)
    then show ?thesis using f2 c(1) by auto
  next
    case False
    then have "StopAudio env (close_stream env (stage_drain False s2)) = Some s'"
      using e by (auto simp: bind_eq_Some_conv)
    from frame_trans [OF c(2) stop_frame [OF assms(1) this]] show ?thesis .
  qed
qed

lemma header_frame:
  assumes "yield_ok env" "service_header env s = Some (s', go)" shows "audio_frame s s'"
  using assms by (auto simp: service_header_def Let_def split: if_splits dest: stop_frame)

lemma sync_frame:
  assumes "yield_ok env" "service_sync env s = Some (s', go)" shows "audio_frame s s'"
proof (cases "gAuSt s = AU_SYNC")
  case False
  then show ?thesis using assms(2) by (simp add: service_sync_def)
next
  case sync: True
  show ?thesis
  proof (cases "cq_mp3_sync (gComp s)")
    case None
    then show ?thesis using assms sync by (auto simp: service_sync_def split: if_splits dest: stop_frame)
  next
    case (Some res)
    obtain off fmt where res: "res = (off, fmt)" by (cases res)
    define s0 where "s0 = s\<lparr>gFmt := fmt, gComp := drop off (gComp s)\<rparr>"
    have f0: "audio_frame s s0" by (simp add: s0_def)
    obtain s1 ok where op: "OpenAudioOutput env s0 = Some (s1, ok)"
      using assms(2) sync by (auto simp: service_sync_def Some res s0_def bind_eq_Some_conv)
    have f1: "audio_frame s s1" using f0 open_frame [OF assms(1) op] by (rule frame_trans)
    show ?thesis using assms(2) sync f1 unfolding service_sync_def Some res
      by (auto simp: s0_def [symmetric] op Let_def split: if_splits dest!: stop_frame [OF assms(1)] intro: frame_trans)
  qed
qed

lemma play_frame:
  assumes "yield_ok env" "service_play env s = Some s'" shows "audio_frame s s'"
proof (cases "gAuSt s = AU_PLAY")
  case False
  then show ?thesis using assms(2) by (auto simp: service_play_def split: if_splits)
next
  case True
  define s1 where "s1 = (if gMPDecode s then s else run_pump env s)"
  define s2 where "s2 = s1\<lparr>gDecResSeen := resyncs (gDec s1), gDecFluSeen := flushes (gDec s1)\<rparr>"
  have f2: "audio_frame s s2" by (simp add: s2_def s1_def)
  obtain s3 where st: "service_start env s2 = Some s3"
    and e: "(if gAuSt s3 \<noteq> AU_PLAY then Some s3
        else (let s = request_trim (note_ticks (TickCount env s3) s3) in
           if gStream s = None \<and> cq_decring_idle (gDec s) \<and> gPlaying s \<and> gRingWr s = gRingRd s
           then StopAudio env s else Some (heartbeat (TickCount env s) s))) = Some s'"
    using assms(2) True by (auto simp: service_play_def s1_def [symmetric] s2_def [symmetric] Let_def bind_eq_Some_conv)
  have f3: "audio_frame s s3"
  proof -
    obtain v ok where b: "StartDoubleBuffer env s2 = (v, ok)" by (cases "StartDoubleBuffer env s2")
    have "s3 = s2 \<or> s3 = v \<or> StopAudio env v = Some s3" using st by (auto simp: service_start_def b split: if_splits)
    then show ?thesis using f2 frame_trans [OF f2 start_buffer_frame [OF b]] stop_frame [OF assms(1), of v s3]
      by (auto intro: frame_trans)
  qed
  define s4 where "s4 = request_trim (note_ticks (TickCount env s3) s3)"
  have f4: "audio_frame s s4" unfolding s4_def
    by (rule frame_trans [OF f3], rule frame_trans [OF small_frames(1) small_frames(2)])
  have "s' = s3 \<or> StopAudio env s4 = Some s' \<or> s' = heartbeat (TickCount env s4) s4"
    using e by (auto simp: Let_def s4_def [symmetric] split: if_splits)
  then show ?thesis using f3 f4 stop_frame [OF assms(1), of s4 s'] by (auto intro: frame_trans)
qed

lemma service_frame:
  assumes "yield_ok env" "ServiceAudio env s = Some s'" shows "audio_frame s s'"
proof (cases "gAuSt s = AU_IDLE")
  case True
  then show ?thesis using assms(2) by (simp add: ServiceAudio_def)
next
  case False
  obtain s1 g1 where w: "service_wire env s = Some (s1, g1)"
    and e1: "(if \<not> g1 then Some s1 else Option.bind (service_header env s1) (\<lambda>(s, go). if \<not> go then Some s
      else Option.bind (service_sync env s) (\<lambda>(s, go). if \<not> go then Some s else service_play env s))) = Some s'"
    using assms(2) False by (auto simp: ServiceAudio_def bind_eq_Some_conv)
  note f1 = wire_frame [OF assms(1) w]
  show ?thesis
  proof (cases g1)
    case True
    then obtain s2 g2 where h: "service_header env s1 = Some (s2, g2)"
      and e2: "(if \<not> g2 then Some s2 else Option.bind (service_sync env s2)
          (\<lambda>(s, go). if \<not> go then Some s else service_play env s)) = Some s'"
      using e1 by (cases "service_header env s1") auto
    note f2 = frame_trans [OF f1 header_frame [OF assms(1) h]]
    show ?thesis
    proof (cases g2)
      case True
      then obtain s3 g3 where y: "service_sync env s2 = Some (s3, g3)"
        and e3: "(if \<not> g3 then Some s3 else service_play env s3) = Some s'"
        using e2 by (cases "service_sync env s2") auto
      show ?thesis using e3 frame_trans [OF f2 sync_frame [OF assms(1) y]] play_frame [OF assms(1), of s3 s']
        by (auto split: if_splits intro: frame_trans)
    qed (use e2 f2 in simp)
  qed (use e1 f1 in simp)
qed

end
