(* ===== verification/AppInv.thy ===== *)
theory AppInv
  imports AppFrame
begin

text \<open>
  The invariant of the whole application over every pass of its event loop: the engine's invariant,
  sound transactions, cadences and caches, and texts inside their C buffers.
\<close>

definition tx_opt_ok :: "ot_tx option \<Rightarrow> bool" where
  "tx_opt_ok t = (case t of None \<Rightarrow> True | Some t \<Rightarrow> tx_ok t \<and> \<not> streaming t)"

definition net_ok :: "('w, 'g) app \<Rightarrow> bool" where
  "net_ok s \<longleftrightarrow> (\<forall>t \<in> {gTx s, gCmd s, gCover s, gFire s, gSearchTx s, gArtistTx s, gQueueTx s, gFactTx s, gPls s}.
     tx_opt_ok t) \<and> (gPls s \<noteq> None \<longrightarrow> gAuSt s = AU_IDLE) \<and> length (gHost s) < 64"

definition snap_ok :: "('w, 'g) app \<Rightarrow> bool" where
  "snap_ok s \<longleftrightarrow> backoff_ok (gBackoff s) \<and> 0 \<le> last_ts (gGuard s) \<and>
     length (gLastMsg s) < 128 \<and> length (gFallbackUri s) < 128 \<and> length (gLastAction s) < 240 \<and>
     length (i_pre_track_id (gIntent s)) < 24 \<and> gNativePlay s \<in> {-1, 0, 1}"

definition lists_ok :: "('w, 'g) app \<Rightarrow> bool" where
  "lists_ok s \<longleftrightarrow> backoff_ok (gQBackoff s) \<and> backoff_ok (gFBackoff s) \<and> cache_ok (gCovers s) \<and>
     gStreamProbe s \<in> {-1, 0, 1} \<and> length (gCoverReq s) < 64 \<and> length (gBrowseArtist s) < 64"

definition app_ok :: "('w, 'g) app \<Rightarrow> bool" where
  "app_ok s \<longleftrightarrow> au_ok s \<and> net_ok s \<and> snap_ok s \<and> lists_ok s"

lemmas app_ok_defs = app_ok_def au_ok_def net_ok_def snap_ok_def lists_ok_def

lemma fits_less [simp]: "0 < n \<Longrightarrow> length (fits n t) < n"
  by (rule length_fits_less)

text \<open>What the invariant asks of an update of each global.\<close>

lemma app_ok_free [simp]:
  "app_ok (s\<lparr>mach := x0\<rparr>) = app_ok s" "app_ok (s\<lparr>gSnap := x50\<rparr>) = app_ok s"
  "app_ok (s\<lparr>gPort := x1\<rparr>) = app_ok s"
  "app_ok (s\<lparr>gSuspended := x2\<rparr>) = app_ok s" "app_ok (s\<lparr>gSearchItems := x3\<rparr>) = app_ok s"
  "app_ok (s\<lparr>gSearchArtists := x4\<rparr>) = app_ok s" "app_ok (s\<lparr>gSearchAlbums := x5\<rparr>) = app_ok s"
  "app_ok (s\<lparr>gArtistAlbums := x6\<rparr>) = app_ok s" "app_ok (s\<lparr>gAlbumBrowse := x7\<rparr>) = app_ok s"
  "app_ok (s\<lparr>gQueueItems := x8\<rparr>) = app_ok s" "app_ok (s\<lparr>gHaveSnap := x9\<rparr>) = app_ok s"
  "app_ok (s\<lparr>gSnapTick := x10\<rparr>) = app_ok s" "app_ok (s\<lparr>gOnline := x11\<rparr>) = app_ok s"
  "app_ok (s\<lparr>gLastPoll := x12\<rparr>) = app_ok s" "app_ok (s\<lparr>gPolls := x13\<rparr>) = app_ok s"
  "app_ok (s\<lparr>gDone := x14\<rparr>) = app_ok s" "app_ok (s\<lparr>gLastStat := x15\<rparr>) = app_ok s"
  "app_ok (s\<lparr>gLastErr := x16\<rparr>) = app_ok s" "app_ok (s\<lparr>gLastLen := x17\<rparr>) = app_ok s"
  "app_ok (s\<lparr>gView := x18\<rparr>) = app_ok s" "app_ok (s\<lparr>lastDraw := x19\<rparr>) = app_ok s"
  "app_ok (s\<lparr>gAutoNexted := x20\<rparr>) = app_ok s" "app_ok (s\<lparr>gAutoStart := x21\<rparr>) = app_ok s"
  "app_ok (s\<lparr>gAutoWoke := x22\<rparr>) = app_ok s" "app_ok (s\<lparr>gAutoPlayPending := x23\<rparr>) = app_ok s"
  "app_ok (s\<lparr>gQueueKick := x24\<rparr>) = app_ok s" "app_ok (s\<lparr>gLastActionTick := x25\<rparr>) = app_ok s"
  "app_ok (s\<lparr>gDeb := x26\<rparr>) = app_ok s" "app_ok (s\<lparr>gCmdFire := x27\<rparr>) = app_ok s"
  "app_ok (s\<lparr>gVolHold := x28\<rparr>) = app_ok s" "app_ok (s\<lparr>play_title := x29\<rparr>) = app_ok s"
  "app_ok (s\<lparr>vol_value := x30\<rparr>) = app_ok s" "app_ok (s\<lparr>gHaveFact := x31\<rparr>) = app_ok s"
  "app_ok (s\<lparr>gFactLive := x32\<rparr>) = app_ok s" "app_ok (s\<lparr>gFactTs := x33\<rparr>) = app_ok s"
  "app_ok (s\<lparr>gFactLast := x34\<rparr>) = app_ok s" "app_ok (s\<lparr>gQueueLast := x35\<rparr>) = app_ok s"
  "app_ok (s\<lparr>gQueueEmptyRuns := x36\<rparr>) = app_ok s" "app_ok (s\<lparr>gQTOk := x37\<rparr>) = app_ok s"
  "app_ok (s\<lparr>search_rows := x38\<rparr>) = app_ok s" "app_ok (s\<lparr>search_pick := x39\<rparr>) = app_ok s"
  "app_ok (s\<lparr>queue_rows := x40\<rparr>) = app_ok s" "app_ok (s\<lparr>queue_pick := x41\<rparr>) = app_ok s"
  "app_ok (s\<lparr>search_text := x42\<rparr>) = app_ok s" "app_ok (s\<lparr>prefs_file := x43\<rparr>) = app_ok s"
  "app_ok (s\<lparr>gRunning := x44\<rparr>) = app_ok s"
  by (simp_all add: app_ok_defs)

lemma app_ok_upd [simp]:
  "app_ok s \<Longrightarrow> tx_opt_ok t \<Longrightarrow> app_ok (s\<lparr>gTx := t\<rparr>)"
  "app_ok s \<Longrightarrow> tx_opt_ok t \<Longrightarrow> app_ok (s\<lparr>gCmd := t\<rparr>)"
  "app_ok s \<Longrightarrow> tx_opt_ok t \<Longrightarrow> app_ok (s\<lparr>gCover := t\<rparr>)"
  "app_ok s \<Longrightarrow> tx_opt_ok t \<Longrightarrow> app_ok (s\<lparr>gFire := t\<rparr>)"
  "app_ok s \<Longrightarrow> tx_opt_ok t \<Longrightarrow> app_ok (s\<lparr>gSearchTx := t\<rparr>)"
  "app_ok s \<Longrightarrow> tx_opt_ok t \<Longrightarrow> app_ok (s\<lparr>gArtistTx := t\<rparr>)"
  "app_ok s \<Longrightarrow> tx_opt_ok t \<Longrightarrow> app_ok (s\<lparr>gQueueTx := t\<rparr>)"
  "app_ok s \<Longrightarrow> tx_opt_ok t \<Longrightarrow> app_ok (s\<lparr>gFactTx := t\<rparr>)"
  "app_ok s \<Longrightarrow> tx_opt_ok t \<Longrightarrow> t = None \<or> gAuSt s = AU_IDLE \<Longrightarrow> app_ok (s\<lparr>gPls := t\<rparr>)"
  "app_ok s \<Longrightarrow> length h < 64 \<Longrightarrow> app_ok (s\<lparr>gHost := h\<rparr>)"
  "app_ok s \<Longrightarrow> 0 \<le> last_ts g \<Longrightarrow> app_ok (s\<lparr>gGuard := g\<rparr>)"
  "app_ok s \<Longrightarrow> backoff_ok b \<Longrightarrow> app_ok (s\<lparr>gBackoff := b\<rparr>)"
  "app_ok s \<Longrightarrow> length m < 128 \<Longrightarrow> app_ok (s\<lparr>gLastMsg := m\<rparr>)"
  "app_ok s \<Longrightarrow> length m < 128 \<Longrightarrow> app_ok (s\<lparr>gFallbackUri := m\<rparr>)"
  "app_ok s \<Longrightarrow> length m < 240 \<Longrightarrow> app_ok (s\<lparr>gLastAction := m\<rparr>)"
  "app_ok s \<Longrightarrow> length (i_pre_track_id i) < 24 \<Longrightarrow> app_ok (s\<lparr>gIntent := i\<rparr>)"
  "app_ok s \<Longrightarrow> n \<in> {-1, 0, 1} \<Longrightarrow> app_ok (s\<lparr>gNativePlay := n\<rparr>)"
  "app_ok s \<Longrightarrow> backoff_ok b \<Longrightarrow> app_ok (s\<lparr>gQBackoff := b\<rparr>)"
  "app_ok s \<Longrightarrow> backoff_ok b \<Longrightarrow> app_ok (s\<lparr>gFBackoff := b\<rparr>)"
  "app_ok s \<Longrightarrow> cache_ok c \<Longrightarrow> app_ok (s\<lparr>gCovers := c\<rparr>)"
  "app_ok s \<Longrightarrow> n \<in> {-1, 0, 1} \<Longrightarrow> app_ok (s\<lparr>gStreamProbe := n\<rparr>)"
  "app_ok s \<Longrightarrow> length m < 64 \<Longrightarrow> app_ok (s\<lparr>gCoverReq := m\<rparr>)"
  "app_ok s \<Longrightarrow> length m < 64 \<Longrightarrow> app_ok (s\<lparr>gBrowseArtist := m\<rparr>)"
  by (auto simp: app_ok_defs)

lemma app_okD [simp]:
  assumes "app_ok s"
  shows "backoff_ok (gBackoff s)" "backoff_ok (gQBackoff s)" "backoff_ok (gFBackoff s)" "cache_ok (gCovers s)"
    "0 \<le> last_ts (gGuard s)" "au_ok s" "gPls s \<noteq> None \<longrightarrow> gAuSt s = AU_IDLE" "length (gHost s) < 64"
    "tx_opt_ok (gTx s)" "tx_opt_ok (gCmd s)" "tx_opt_ok (gCover s)" "tx_opt_ok (gFire s)" "tx_opt_ok (gSearchTx s)"
    "tx_opt_ok (gArtistTx s)" "tx_opt_ok (gQueueTx s)" "tx_opt_ok (gFactTx s)" "tx_opt_ok (gPls s)"
    "length (i_pre_track_id (gIntent s)) < 24"
  using assms by (simp_all add: app_ok_def net_ok_def snap_ok_def lists_ok_def)

text \<open>The audio engine's steps.\<close>

lemma frame_app_ok:
  assumes "audio_frame s s'" "au_ok s'" "gPls s \<noteq> None \<longrightarrow> gAuSt s' = AU_IDLE" "app_ok s"
  shows "app_ok s'"
proof -
  have "net_ok s' \<and> snap_ok s' \<and> lists_ok s'" using assms(1,3,4)
    by (cases s; cases s') (simp add: audio_frame_def results.truncate_def app_ok_def net_ok_def snap_ok_def lists_ok_def)
  then show ?thesis using assms(2) by (simp add: app_ok_def)
qed

lemma open_tx_ok [simp]: "tx_opt_ok (open_tx env s sel)" "tx_opt_ok None"
proof -
  have "\<not> streaming (cq_tx_start (TickCount env s) (cq_tx_new (gHost s) (gPort s) (Some sel)))"
    by (simp add: cq_tx_start_def cq_tx_new_def)
  then show "tx_opt_ok (open_tx env s sel)" using start_ok [OF new_ok(1)] by (simp add: open_tx_def tx_opt_ok_def)
qed (simp add: tx_opt_ok_def)

subsection \<open>Commands\<close>

lemma SetIntent_ok [simp]: "app_ok s \<Longrightarrow> app_ok (SetIntent env k s)"
  by (simp add: SetIntent_def split: option.split)

lemma settle_ok [simp]: "app_ok s \<Longrightarrow> app_ok (settle_intent v s)"
  by (simp add: settle_intent_def)

lemma Redraw_ok [simp]: "app_ok s \<Longrightarrow> app_ok (Redraw env s)"
  by (simp add: Redraw_def RenderView_def Let_def)

lemma TickView_ok [simp]: "app_ok s \<Longrightarrow> app_ok (TickView env s)"
  by (simp add: TickView_def Let_def)

lemma ActionRepeat_ok: "ActionRepeat env sel s = (rep, s') \<Longrightarrow> app_ok s \<Longrightarrow> app_ok s'"
  by (auto simp: ActionRepeat_def Let_def split: if_splits)

lemma StartCommand_ok [simp]: "app_ok s \<Longrightarrow> app_ok (StartCommand env sel s)"
  by (simp add: StartCommand_def)

lemma StartFire_ok [simp]: "app_ok s \<Longrightarrow> app_ok (StartFire env sel s)"
proof -
  assume s: "app_ok s"
  obtain rep s1 where a: "ActionRepeat env sel s = (rep, s1)" by (cases "ActionRepeat env sel s")
  have "app_ok s1" using ActionRepeat_ok [OF a s] .
  then show ?thesis by (simp add: StartFire_def a)
qed

lemma PlayItem_ok [simp]: "app_ok s \<Longrightarrow> app_ok (PlayItem env its row s)"
  by (simp add: PlayItem_def split: option.split)

lemma PlayFrom_cases:
  assumes "PlayFrom env its row cont s = Some s'"
  obtains (same) "s' = s" | (single) "s' = PlayItem env its row s"
    | (multi) uri sel rep s1 where "ActionRepeat env sel (s\<lparr>gFallbackUri := fits 128 uri\<rparr>) = (rep, s1)"
        "s' = (if rep then s1 else StartCommand env sel s1)"
proof (cases "row < 0 \<or> length its \<le> nat row \<or> it_uri (its ! nat row) = None \<or> gNativePlay s < 0 \<or> gCmd s \<noteq> None")
  case True
  then have "s' = s \<or> s' = PlayItem env its row s"
    using assms unfolding PlayFrom_def by (simp split: if_splits option.splits)
  then show ?thesis using same single by blast
next
  case False
  then obtain uri where u: "it_uri (its ! nat row) = Some uri" by auto
  have e: "(case uri_id (Some uri) of None \<Rightarrow> Some (PlayItem env its row s)
    | Some d \<Rightarrow> if d = [] then Some (PlayItem env its row s)
        else case from_sel d (case cont of Some c \<Rightarrow> c | None \<Rightarrow> drop (nat row + 1) its) of None \<Rightarrow> None
          | Some sel \<Rightarrow> (case ActionRepeat env sel (s\<lparr>gFallbackUri := fits 128 uri\<rparr>) of (rep, s) \<Rightarrow>
              Some (if rep then s else StartCommand env sel s))) = Some s'"
    using assms False u unfolding PlayFrom_def by simp
  show ?thesis
  proof (cases "s' = PlayItem env its row s")
    case no: False
    obtain d sel where "(case ActionRepeat env sel (s\<lparr>gFallbackUri := fits 128 uri\<rparr>) of (rep, s) \<Rightarrow>
        Some (if rep then s else StartCommand env sel s)) = Some s'"
      using e no by (cases "uri_id (Some uri)") (auto split: if_splits option.splits simp del: split_paired_All)
    then show ?thesis using multi [of sel uri]
      by (cases "ActionRepeat env sel (s\<lparr>gFallbackUri := fits 128 uri\<rparr>)") simp
  qed (rule single)
qed

lemma PlayFrom_ok:
  assumes "app_ok s" "PlayFrom env its row cont s = Some s'" shows "app_ok s'"
proof (rule PlayFrom_cases [OF assms(2)])
  fix uri sel rep s1
  assume a: "ActionRepeat env sel (s\<lparr>gFallbackUri := fits 128 uri\<rparr>) = (rep, s1)"
    and s': "s' = (if rep then s1 else StartCommand env sel s1)"
  have "app_ok s1" using ActionRepeat_ok [OF a] assms(1) by simp
  then show ?thesis using s' by simp
qed (use assms(1) in simp_all)

subsection \<open>Adopting replies\<close>

lemma set_msg_ok [simp]: "app_ok s \<Longrightarrow> app_ok (set_msg m s)"
  by (simp add: set_msg_def)

lemma adopt_error_ok [simp]: "app_ok s \<Longrightarrow> app_ok (adopt_error env isCmd err s)"
  by (simp add: adopt_error_def backoff_fail_ok)

lemma adopt_watchdog_ok: "app_ok s \<Longrightarrow> adopt_watchdog env tmp s = Some s' \<Longrightarrow> app_ok s'"
  by (auto simp: adopt_watchdog_def Let_def PlayFrom_ok split: if_splits intro: PlayFrom_ok [rotated])

lemma adopt_snap_ok [simp]: "app_ok s \<Longrightarrow> app_ok (adopt_snap env tmp h v s)"
  by (simp add: adopt_snap_def Let_def set_vol_def UpdatePlayTitle_def)

lemma adopt_autostart_ok [simp]: "app_ok s \<Longrightarrow> app_ok (adopt_autostart env s)"
  by (simp add: adopt_autostart_def Let_def)

lemma accept_guard_ok: "cq_guard_accept_ts g t = (ok, g') \<Longrightarrow> 0 \<le> last_ts g \<Longrightarrow> 0 \<le> last_ts g'"
  by (auto simp: cq_guard_accept_ts_def split: if_splits)

lemma adopt_good_ok:
  assumes "app_ok s" "adopt_good env isCmd tmp s = Some s'" shows "app_ok s'"
proof -
  define s1 where "s1 = (let s = (if isCmd \<and> gFallbackUri s \<noteq> [] then s\<lparr>gNativePlay := 1, gFallbackUri := []\<rparr> else s)
    in s\<lparr>gBackoff := cq_backoff_ok (gBackoff s)\<rparr>)"
  have s1: "app_ok s1" using assms(1) by (simp add: s1_def Let_def ok_ok)
  obtain ok g where a: "cq_guard_accept_ts (gGuard s) (now_ts tmp) = (ok, g)" by (cases "cq_guard_accept_ts (gGuard s) (now_ts tmp)")
  have s2: "app_ok (s1\<lparr>gGuard := g\<rparr>)" using s1 accept_guard_ok [OF a] assms(1) by simp
  define s2 where "s2 = s1\<lparr>gGuard := g\<rparr>"
  have "adopt_good env isCmd tmp s = (if \<not> ok then Some s2
      else map_option (\<lambda>v. adopt_autostart env (adopt_snap env tmp (sint (TickCount env s2 - gVolHold s2) < 0)
        (now_volume (gSnap s2)) v)) (adopt_watchdog env tmp s2))"
    by (simp add: adopt_good_def s2_def s1_def Let_def a)
  then have "s' = s2 \<or> (\<exists>s3 h v. adopt_watchdog env tmp s2 = Some s3 \<and> s' = adopt_autostart env (adopt_snap env tmp h v s3))"
    using assms(2) by (auto simp: map_option_case split: if_splits option.splits)
  then show ?thesis using s2 [folded s2_def] adopt_watchdog_ok [OF s2 [folded s2_def]] by auto
qed

lemma AdoptReply_ok:
  assumes "app_ok s" "AdoptReply env d isCmd s = Some s'" shows "app_ok s'"
  using assms adopt_good_ok [of "s\<lparr>gLastLen := wrap32 (int (length d)), gDone := wrap32 (gDone s + 1), gOnline := True\<rparr>"]
  by (auto simp: AdoptReply_def Let_def split: option.splits)

subsection \<open>The pumps\<close>

lemma poll_tx_ok:
  assumes "env_ok env rx tx" "app_ok s" "poll_tx env s t = Some (s', t')" "tx_opt_ok (Some t)"
  shows "app_ok s'" "tx_opt_ok (Some t')" "audio_frame s s'" "gAuSt s' = gAuSt s"
proof -
  obtain m where p: "cq_tx_poll (e_fuel env) (e_ot env) (e_ticks env) (mach s) t = Some (m, t')" and s': "s' = s\<lparr>mach := m\<rparr>"
    using assms(3) by (auto simp: poll_tx_def)
  have "ot_ok (e_ot env) rx tx" using assms(1) by (simp add: env_ok_def)
  from poll_ok [OF ot_ok_sends [OF this] _ p] assms(4) show "tx_opt_ok (Some t')"
    by (simp add: tx_opt_ok_def same_tx_def)
qed (use assms(2,3) in \<open>auto simp: poll_tx_def\<close>)

lemma put_tx_ok [simp]: "app_ok s \<Longrightarrow> tx_opt_ok t \<Longrightarrow> app_ok (put_tx b t s)"
  by (simp add: put_tx_def)

lemma free_tx_ok [simp]: "app_ok s \<Longrightarrow> app_ok (free_tx env s t)" "app_ok s \<Longrightarrow> app_ok (drop_tx env s t')"
  by (simp_all add: free_tx_def drop_tx_def split: option.split)

lemma PumpTx_ok:
  assumes "env_ok env rx tx" "app_ok s" "tx_opt_ok (Some t)" "PumpTx env isPoll t s = Some s'"
  shows "app_ok s'"
proof -
  obtain s1 t1 where p: "poll_tx env s t = Some (s1, t1)" using assms(4) by (auto simp: PumpTx_def bind_eq_Some_conv)
  note p1 = poll_tx_ok [OF assms(1,2) p assms(3)]
  define s2 where "s2 = (let s = put_tx isPoll (Some t1) s1 in if isPoll then s\<lparr>gLastStat := status_code (status t1)\<rparr> else s)"
  have s2: "app_ok s2" using p1 by (simp add: s2_def Let_def)
  note e = assms(4) [unfolded PumpTx_def p bind.bind_lunit prod.case Let_def, folded s2_def [unfolded Let_def]]
  show ?thesis
  proof (cases "status t1")
    case CQ_TX_RUNNING
    then show ?thesis using e s2 by simp
  next
    case CQ_TX_DONE
    then obtain s3 where "AdoptReply env (data t1) (\<not> isPoll) s2 = Some s3"
      and s': "s' = put_tx isPoll None (free_tx env (if isPoll then s3 else s3\<lparr>gLastPoll := TickCount env s3\<rparr>) t1)"
      using e by (auto simp: bind_eq_Some_conv)
    then show ?thesis using AdoptReply_ok [OF s2] by simp
  next
    case CQ_TX_FAILED
    then show ?thesis using e s2 by (auto simp: backoff_fail_ok)
  qed
qed

lemma pump_cover_ok:
  assumes "env_ok env rx tx" "app_ok s" "pump_cover env u s = Some s'"
  shows "app_ok s'"
proof (cases "gCover s")
  case None
  then show ?thesis using assms(2,3) by (simp add: pump_cover_def)
next
  case (Some t)
  obtain s1 t1 where p: "poll_tx env s t = Some (s1, t1)"
    using assms(3) Some by (auto simp: pump_cover_def bind_eq_Some_conv)
  have "tx_opt_ok (Some t)" using assms(2) Some by (metis app_okD(11))
  note p1 = poll_tx_ok [OF assms(1,2) p this]
  have c: "app_ok (v\<lparr>gCovers := snd (cq_cache_put (gCovers v) k g)\<rparr>)" if "app_ok v" for v :: "('a, 'b) app" and k g
    using put_refines [of "gCovers v"] that by simp
  have "app_ok (s1\<lparr>gCover := Some t1\<rparr>)" using p1 by simp
  note c1 = c [OF this]
  show ?thesis using assms(3) Some p p1(1,2) c1 by (auto simp: pump_cover_def Let_def split: if_splits)
qed

lemma start_net_ok [simp]:
  "app_ok s \<Longrightarrow> app_ok (start_cover env s)" "app_ok s \<Longrightarrow> app_ok (flush_command env s)" "app_ok s \<Longrightarrow> app_ok (start_poll env s)"
  by (simp_all add: start_cover_def flush_command_def start_poll_def Let_def cq_debounce_take_def split: option.split)

lemma PollNetwork_ok:
  assumes "env_ok env rx tx" "app_ok s" "PollNetwork env u s = Some s'"
  shows "app_ok s'"
proof -
  obtain s1 s2 where a: "(case gCmd s of Some t \<Rightarrow> PumpTx env False t s | None \<Rightarrow> Some s) = Some s1"
    and b: "pump_cover env u s1 = Some s2"
    and c: "(case gTx (flush_command env (start_cover env s2)) of
        Some t \<Rightarrow> PumpTx env True t (flush_command env (start_cover env s2))
      | None \<Rightarrow> Some (start_poll env (flush_command env (start_cover env s2)))) = Some s'"
    using assms(3) by (auto simp: PollNetwork_def bind_eq_Some_conv Let_def)
  have s1: "app_ok s1"
  proof (cases "gCmd s")
    case (Some t)
    then have "tx_opt_ok (Some t)" using app_okD(10) [OF assms(2)] by simp
    from PumpTx_ok [OF assms(1,2) this] show ?thesis using a Some by simp
  qed (use a assms(2) in simp)
  have "app_ok s2" using pump_cover_ok [OF assms(1) s1 b] .
  then have s3: "app_ok (flush_command env (start_cover env s2))" by simp
  show ?thesis
  proof (cases "gTx (flush_command env (start_cover env s2))")
    case (Some t)
    then have "tx_opt_ok (Some t)" using app_okD(9) [OF s3] by simp
    from PumpTx_ok [OF assms(1) s3 this] show ?thesis using c Some by simp
  qed (use c s3 in auto)
qed

lemma poll_step:
  assumes "env_ok env rx tx" "app_ok s" "tx_opt_ok (Some t)" "poll_tx env s t = Some (s', t')"
  shows "app_ok s'" "tx_opt_ok (Some t')"
  using poll_tx_ok [OF assms(1,2,4,3)] by simp_all

lemma pump_fire_ok:
  assumes "env_ok env rx tx" "app_ok s" "pump_fire env s = Some s'" shows "app_ok s'"
proof (cases "gFire s")
  case (Some t)
  then have t: "tx_opt_ok (Some t)" using app_okD(12) [OF assms(2)] by simp
  obtain s1 t1 where p: "poll_tx env s t = Some (s1, t1)" using assms(3) Some by (auto simp: pump_fire_def bind_eq_Some_conv)
  show ?thesis using assms(3) Some p poll_step [OF assms(1,2) t p] by (auto simp: pump_fire_def split: if_splits)
qed (use assms in \<open>simp add: pump_fire_def\<close>)

lemma ServiceAudio_ok:
  assumes "env_ok env rx tx" "app_ok s" "ServiceAudio env s = Some s'" shows "app_ok s'"
proof (cases "gAuSt s = AU_IDLE")
  case True
  then show ?thesis using assms(2,3) by (simp add: ServiceAudio_def)
next
  case False
  have "yield_ok env" using assms(1) by (simp add: env_ok_def)
  from service_frame [OF this assms(3)] service_ok [OF assms(1) _ assms(3)] show ?thesis
    by (rule frame_app_ok) (use assms(2) False in auto)
qed

lemma tune_app_ok:
  assumes "app_ok s" "gPls s = None" "gAuSt s = AU_IDLE" shows "app_ok (StartStream env url s)"
  by (rule frame_app_ok [OF small_frames(5)]) (use tune_ok [OF _ assms(3)] assms in simp_all)

lemma pump_pls_ok:
  assumes "env_ok env rx tx" "app_ok s" "pump_pls env s = Some s'" shows "app_ok s'"
proof (cases "gPls s")
  case (Some t)
  then have t: "tx_opt_ok (Some t)" and idle: "gAuSt s = AU_IDLE"
    using app_okD(17) [OF assms(2)] app_okD(7) [OF assms(2)] by simp_all
  obtain s1 t1 where p: "poll_tx env s t = Some (s1, t1)" using assms(3) Some by (auto simp: pump_pls_def bind_eq_Some_conv)
  note p1 = poll_tx_ok [OF assms(1,2) p t]
  have z: "app_ok (s1\<lparr>gPls := None\<rparr>)" using p1(1) by simp
  have tune: "(free_tx env (StartStream env url s1) t1)\<lparr>gPls := None\<rparr> = free_tx env (StartStream env url (s1\<lparr>gPls := None\<rparr>)) t1" for url
    by (simp add: StartStream_def free_tx_def TickCount_def split: option.split prod.split)
  have "app_ok (StartStream env url (s1\<lparr>gPls := None\<rparr>))" for url
    by (rule tune_app_ok [OF z]) (simp_all add: p1(4) idle)
  then have "app_ok (free_tx env (StartStream env url (s1\<lparr>gPls := None\<rparr>)) t1)" for url by simp
  then show ?thesis using assms(3) Some p p1(1,2,4) idle
    by (auto simp: pump_pls_def Let_def tune split: cq_tx_status.splits option.splits)
qed (use assms in \<open>simp add: pump_pls_def\<close>)

lemma fill_ok [simp]: "app_ok s \<Longrightarrow> app_ok (fill_results u s)" "app_ok s \<Longrightarrow> app_ok (fill_queue u s)"
  by (simp_all add: fill_results_def fill_queue_def)

lemma pump_search_ok:
  assumes "env_ok env rx tx" "app_ok s" "pump_search env u s = Some s'" shows "app_ok s'"
proof (cases "gSearchTx s")
  case (Some t)
  then have t: "tx_opt_ok (Some t)" using app_okD(13) [OF assms(2)] by simp
  obtain s1 t1 where p: "poll_tx env s t = Some (s1, t1)" using assms(3) Some by (auto simp: pump_search_def bind_eq_Some_conv)
  show ?thesis using assms(3) Some p poll_step [OF assms(1,2) t p]
    by (auto simp: pump_search_def Let_def split: cq_tx_status.splits)
qed (use assms in \<open>simp add: pump_search_def\<close>)

lemma pump_artist_ok:
  assumes "env_ok env rx tx" "app_ok s" "pump_artist env u s = Some s'" shows "app_ok s'"
proof (cases "gArtistTx s")
  case (Some t)
  then have t: "tx_opt_ok (Some t)" using app_okD(14) [OF assms(2)] by simp
  obtain s1 t1 where p: "poll_tx env s t = Some (s1, t1)" using assms(3) Some by (auto simp: pump_artist_def bind_eq_Some_conv)
  show ?thesis using assms(3) Some p poll_step [OF assms(1,2) t p]
    by (auto simp: pump_artist_def Let_def split: cq_tx_status.splits)
qed (use assms in \<open>simp add: pump_artist_def\<close>)

lemma adopt_queue_ok:
  assumes "app_ok s" "adopt_queue env u fresh s = Some s'" shows "app_ok s'"
  using assms by (auto simp: adopt_queue_def Let_def split: if_splits intro: PlayFrom_ok [rotated])

lemma start_aux_ok [simp]: "app_ok s \<Longrightarrow> app_ok (start_queue env s)" "app_ok s \<Longrightarrow> app_ok (start_fact env s)"
  by (simp_all add: start_queue_def start_fact_def Let_def)

lemma pump_queue_ok:
  assumes "env_ok env rx tx" "app_ok s" "pump_queue env u s = Some s'" shows "app_ok s'"
proof (cases "gQueueTx s")
  case (Some t)
  then have t: "tx_opt_ok (Some t)" using app_okD(15) [OF assms(2)] by simp
  obtain s1 t1 where p: "poll_tx env s t = Some (s1, t1)" using assms(3) Some by (auto simp: pump_queue_def bind_eq_Some_conv)
  have s2: "app_ok (s1\<lparr>gQueueTx := Some t1\<rparr>)" using poll_step [OF assms(1,2) t p] by simp
  note q = adopt_queue_ok [OF s2]
  have b: "app_ok v \<Longrightarrow> app_ok (v\<lparr>gQueueTx := None, gQueueLast := k, gQBackoff := cq_backoff_ok (gQBackoff v)\<rparr>)"
    "app_ok v \<Longrightarrow> app_ok (v\<lparr>gQueueTx := None, gQueueLast := k, gQBackoff := cq_backoff_fail (gQBackoff v)\<rparr>)"
    for v :: "('a, 'b) app" and k using app_okD(2) [of v] by (simp_all add: ok_ok backoff_fail_ok)
  show ?thesis
  proof (cases "status t1")
    case CQ_TX_DONE
    then obtain s3 where "adopt_queue env u (cq_track_list_from_response (data t1)) (s1\<lparr>gQueueTx := Some t1\<rparr>) = Some s3"
      and s': "s' = (let s = (free_tx env s3 t1)\<lparr>gQueueTx := None\<rparr>
        in s\<lparr>gQueueLast := TickCount env s, gQBackoff := cq_backoff_ok (gQBackoff s)\<rparr>)"
      using assms(3) Some p by (auto simp: pump_queue_def bind_eq_Some_conv Let_def)
    from q [OF this(1)] have "app_ok (free_tx env s3 t1)" by simp
    from b(1) [OF this] show ?thesis by (simp add: s' Let_def)
  next
    case CQ_TX_FAILED
    have "app_ok (free_tx env (s1\<lparr>gQueueTx := Some t1\<rparr>) t1)" using s2 by simp
    from b(2) [OF this] show ?thesis using assms(3) Some p CQ_TX_FAILED by (auto simp: pump_queue_def Let_def)
  qed (use assms(3) Some p s2 in \<open>simp add: pump_queue_def\<close>)
qed (use assms in \<open>auto simp: pump_queue_def\<close>)

lemma adopt_fact_ok [simp]: "app_ok s \<Longrightarrow> app_ok (adopt_fact d s)"
  by (simp add: adopt_fact_def Let_def ok_ok backoff_fail_ok)

lemma pump_fact_ok:
  assumes "env_ok env rx tx" "app_ok s" "pump_fact env s = Some s'" shows "app_ok s'"
proof (cases "gFactTx s")
  case (Some t)
  then have t: "tx_opt_ok (Some t)" using app_okD(16) [OF assms(2)] by simp
  obtain s1 t1 where p: "poll_tx env s t = Some (s1, t1)" using assms(3) Some by (auto simp: pump_fact_def bind_eq_Some_conv)
  note p1 = poll_step [OF assms(1,2) t p]
  have "app_ok (free_tx env s1 t1)" using p1(1) by simp
  then have f: "backoff_ok (gFBackoff (free_tx env s1 t1))" by simp
  show ?thesis using assms(3) Some p p1 f
    by (auto simp: pump_fact_def Let_def backoff_fail_ok split: cq_tx_status.splits)
qed (use assms in \<open>auto simp: pump_fact_def\<close>)

lemma PumpAux_ok:
  assumes "env_ok env rx tx" "app_ok s" "PumpAux env u s = Some s'" shows "app_ok s'"
proof -
  obtain s1 s2 s3 s4 s5 s6 where "pump_fire env s = Some s1" "ServiceAudio env s1 = Some s2" "pump_pls env s2 = Some s3"
    "pump_search env u s3 = Some s4" "pump_artist env u s4 = Some s5" "pump_queue env u s5 = Some s6" "pump_fact env s6 = Some s'"
    using assms(3) by (auto simp: PumpAux_def bind_eq_Some_conv)
  then show ?thesis using assms(1,2) pump_fire_ok ServiceAudio_ok pump_pls_ok pump_search_ok pump_artist_ok
    pump_queue_ok pump_fact_ok by metis
qed

subsection \<open>What is asked of the application\<close>

lemma artist_ok [simp]: "app_ok s \<Longrightarrow> app_ok (StartArtistAlbums env a n s)"
proof -
  assume s: "app_ok s"
  obtain rep s1 where a: "ActionRepeat env (artist_sel (the a)) s = (rep, s1)" by (cases "ActionRepeat env (artist_sel (the a)) s")
  have "app_ok s1" using ActionRepeat_ok [OF a s] .
  then show ?thesis using s by (simp add: StartArtistAlbums_def Let_def a)
qed

lemma album_ok [simp]: "app_ok s \<Longrightarrow> app_ok (PlayContextAlbum env a s)"
proof -
  assume s: "app_ok s"
  obtain rep s1 where a: "ActionRepeat env (album_context_sel (the a)) s = (rep, s1)"
    by (cases "ActionRepeat env (album_context_sel (the a)) s")
  have "app_ok s1" using ActionRepeat_ok [OF a s] .
  then show ?thesis using s by (simp add: PlayContextAlbum_def Let_def a)
qed

lemma search_ok [simp]: "app_ok s \<Longrightarrow> app_ok (RunSearch env u s)"
proof -
  assume s: "app_ok s"
  let ?sel = "search_sel (u_convout u) (cview (take 127 (search_text s)))"
  obtain rep s1 where a: "ActionRepeat env ?sel s = (rep, s1)" by (cases "ActionRepeat env ?sel s")
  have "app_ok s1" using ActionRepeat_ok [OF a s] .
  then show ?thesis using s by (simp add: RunSearch_def Let_def a)
qed

lemma queue_selected_ok [simp]: "app_ok s \<Longrightarrow> app_ok (QueueSelected env s)"
  by (simp add: QueueSelected_def Let_def split: option.split prod.split cq_row_kind.split)

lemma next_ok: "app_ok s \<Longrightarrow> NextCommand env s = Some s' \<Longrightarrow> app_ok s'"
  by (auto simp: NextCommand_def Let_def split: if_splits intro: PlayFrom_ok [rotated])

lemma toggle_ok:
  assumes "env_ok env rx tx" "app_ok s" "ToggleListen env s = Some s'" shows "app_ok s'"
proof (cases "gAuSt s = AU_IDLE")
  case True
  then show ?thesis using assms(2,3) by (auto simp: ToggleListen_def split: if_splits)
next
  case False
  then have st: "StopAudio env s = Some s'" using assms(3) by (simp add: ToggleListen_def)
  have y: "yield_ok env" using assms(1) by (simp add: env_ok_def)
  have "au_ok s'" using stop_ok [OF y st] au_ok_rings [of s] assms(2) by (simp add: rings_kept_def)
  moreover have "gPls s = None" using app_okD(7) [OF assms(2)] False by auto
  ultimately show ?thesis using frame_app_ok [OF stop_frame [OF y st]] assms(2) by simp
qed

lemma control_ok:
  assumes "app_ok s" "click_control env u c s = Some s'" shows "app_ok s'"
proof (cases c)
  case gPlay
  let ?ps = "if now_state (gSnap s) = CQ_STATE_PLAYING then ''/spot/api/1/pause'' else ''/spot/api/1/play''"
  obtain rep s1 where a: "ActionRepeat env ?ps s = (rep, s1)" by (cases "ActionRepeat env ?ps s")
  have s1: "app_ok s1" using ActionRepeat_ok [OF a assms(1)] .
  have "s' = (if rep then s1 else StartCommand env ?ps
      (SetIntent env (if now_state (gSnap s) = CQ_STATE_PLAYING then CQ_INTENT_PAUSE else CQ_INTENT_PLAY) s1))"
    using assms(2) unfolding click_control_def gPlay control.case Let_def a prod.case by simp
  then show ?thesis using s1 by simp
next
  case gNext
  then show ?thesis using assms next_ok by (simp add: click_control_def)
qed (use assms in \<open>auto simp: click_control_def Let_def\<close>)

lemma seek_ok [simp]: "app_ok s \<Longrightarrow> app_ok (click_seek env h w s)"
  unfolding click_seek_def Let_def by simp

lemma result_click_ok:
  assumes "app_ok s" "click_result env u row s = Some s'" shows "app_ok s'"
proof -
  obtain k li where k: "ResultKindAt s row = (k, li)" by (cases "ResultKindAt s row")
  show ?thesis
  proof (cases k)
    case CQ_ROW_TRACK
    then show ?thesis using assms k by (auto simp: click_result_def split: option.splits intro: PlayFrom_ok [rotated])
  qed (use assms k in \<open>auto simp: click_result_def Let_def split: option.splits\<close>)
qed

lemma queue_click_ok: "app_ok s \<Longrightarrow> click_queue env row s = Some s' \<Longrightarrow> app_ok s'"
  unfolding click_queue_def by (rule PlayFrom_ok)

subsection \<open>The server\<close>

lemma clear_covers_ok: "cache_ok c \<Longrightarrow> cache_ok (clear_covers c) \<and> cq_cache_count (clear_covers c) = 0"
proof (induction c rule: clear_covers.induct)
  case (1 c)
  then show ?case using take_oldest_spec [OF 1(2)] by (subst (1 2) clear_covers.simps) auto
qed

lemma drop_field_ok:
  assumes "app_ok s" "\<And>v. app_ok v \<Longrightarrow> app_ok (clear v)" shows "app_ok (drop_field env get clear s)"
  using assms by (simp add: drop_field_def)

lemma ApplyServerChange_ok [simp]: "app_ok s \<Longrightarrow> app_ok (ApplyServerChange env s)"
proof -
  assume s: "app_ok s"
  have rest: "app_ok v \<Longrightarrow> app_ok (v\<lparr>gGuard := cq_guard_reset (gGuard v), gBackoff := cq_backoff_init CQ_POLL_TICKS CQ_POLL_CAP,
           gQBackoff := cq_backoff_init CQ_QUEUE_POLL_TICKS CQ_POLL_CAP,
           gFBackoff := cq_backoff_init CQ_STREAM_POLL_TICKS CQ_POLL_CAP,
           gLastPoll := 0, gQueueLast := 0, gQueueKick := 0, gStreamProbe := 0, gHaveFact := False, gFactLast := 0,
           gCovers := clear_covers (gCovers v)\<rparr>)" for v :: "('a, 'b) app"
    using clear_covers_ok [of "gCovers v"] by (simp add: init_ok cq_guard_reset_def)
  show ?thesis unfolding ApplyServerChange_def Let_def
    by (rule rest) (intro drop_field_ok, simp_all add: s)
qed

lemma prefs_scan_host: "length h < 64 \<Longrightarrow> length (fst (prefs_scan ls h p)) < 64"
  by (induction ls arbitrary: h p) (auto simp: Let_def split: option.split)

lemma LoadPrefs_host: "length h < 64 \<Longrightarrow> LoadPrefs f (h, p) = (h', p') \<Longrightarrow> length h' < 64"
  using prefs_scan_host [of h _ p] by (auto simp: LoadPrefs_def split: option.splits if_splits) (metis fst_conv)

lemma ReloadConfig_ok [simp]: "app_ok s \<Longrightarrow> app_ok (ReloadConfig env s)"
proof -
  assume s: "app_ok s"
  obtain h p where l: "LoadPrefs (prefs_file s) (gHost s, gPort s) = (h, p)" by (cases "LoadPrefs (prefs_file s) (gHost s, gPort s)")
  have "length h < 64" using LoadPrefs_host [OF _ l] s by simp
  then show ?thesis using s by (simp add: ReloadConfig_def l Let_def)
qed

lemma save_prefs_ok [simp]: "app_ok s \<Longrightarrow> app_ok (save_prefs u s)"
  by (simp add: save_prefs_def)

lemma script_host: "script_server arg p = Some (h, p') \<Longrightarrow> length h < 64"
  by (auto simp: script_server_def Let_def split: option.splits if_splits prod.splits)

lemma wake_ok [simp]: "app_ok s \<Longrightarrow> app_ok (wake env s)"
  by (simp add: wake_def)

lemma if_SomeE: "(if c then x else y) = Some v \<Longrightarrow> (x = Some v \<Longrightarrow> P) \<Longrightarrow> (y = Some v \<Longrightarrow> P) \<Longrightarrow> P"
  by (cases c) simp_all

lemma DoScriptCmd_ok:
  assumes "env_ok env rx tx" "app_ok s" "DoScriptCmd env u cmd s = Some s'" shows "app_ok s'"
proof (cases "cmd \<in> {''listen'', ''stop'', ''next''} \<or> take 7 cmd = ''server:''")
  case True
  have srv: "app_ok (ApplyServerChange env (save_prefs u (s\<lparr>gHost := h, gPort := p\<rparr>)))"
    if "script_server (drop 7 cmd) (gPort s) = Some (h, p)" for h p
    using script_host [OF that] assms(2) by simp
  show ?thesis using assms(3) True toggle_ok [OF assms(1,2)] next_ok [OF assms(2)] srv assms(2)
    unfolding DoScriptCmd_def by (auto split: if_splits option.splits)
next
  case False
  then show ?thesis using assms(2,3) unfolding DoScriptCmd_def by (auto split: if_splits)
qed

lemma list_click_ok:
  assumes "app_ok s"
  shows "(case r of Some row \<Rightarrow> if d then click_result env u row (s\<lparr>search_pick := r\<rparr>) else Some (s\<lparr>search_pick := r\<rparr>)
      | None \<Rightarrow> Some (s\<lparr>search_pick := r\<rparr>)) = Some s' \<Longrightarrow> app_ok s'"
    "(case r of Some row \<Rightarrow> if d then click_queue env row (s\<lparr>queue_pick := r\<rparr>) else Some (s\<lparr>queue_pick := r\<rparr>)
      | None \<Rightarrow> Some (s\<lparr>queue_pick := r\<rparr>)) = Some s' \<Longrightarrow> app_ok s'"
proof -
  have k: "app_ok (s\<lparr>search_pick := r\<rparr>)" "app_ok (s\<lparr>queue_pick := r\<rparr>)" using assms by simp_all
  show "(case r of Some row \<Rightarrow> if d then click_result env u row (s\<lparr>search_pick := r\<rparr>) else Some (s\<lparr>search_pick := r\<rparr>)
      | None \<Rightarrow> Some (s\<lparr>search_pick := r\<rparr>)) = Some s' \<Longrightarrow> app_ok s'"
    using k(1) result_click_ok [OF k(1)] by (cases r; cases d) auto
  show "(case r of Some row \<Rightarrow> if d then click_queue env row (s\<lparr>queue_pick := r\<rparr>) else Some (s\<lparr>queue_pick := r\<rparr>)
      | None \<Rightarrow> Some (s\<lparr>queue_pick := r\<rparr>)) = Some s' \<Longrightarrow> app_ok s'"
    using k(2) queue_click_ok [OF k(2)] by (cases r; cases d) auto
qed

lemma click_ok:
  assumes "app_ok s" "DoContentClick env u c s = Some s'" shows "app_ok s'"
proof (cases "c_ctl c")
  case None
  note e = assms(2) [unfolded DoContentClick_def Let_def None option.case]
  show ?thesis
    by (rule if_SomeE [OF e], use assms(1) in force, erule if_SomeE, erule list_click_ok(1) [OF assms(1)],
        erule if_SomeE, erule list_click_ok(2) [OF assms(1)], use assms(1) in simp)
next
  case (Some ctl)
  then show ?thesis using assms(2) control_ok [OF assms(1), of env u ctl s'] assms(1)
    by (cases "ctl \<noteq> gSearchEdit \<and> c_tracked c") (simp_all add: DoContentClick_def)
qed

lemma DoMenu_ok [simp]: "app_ok s \<Longrightarrow> app_ok (DoMenu u choice s)"
  by (simp add: DoMenu_def Let_def)

lemma plain_key_ok [simp]: "app_ok s \<Longrightarrow> app_ok (plain_key env u ch f t s)"
  by (simp add: plain_key_def)

lemma os_event_ok [simp]: "app_ok s \<Longrightarrow> app_ok (os_event env msg s)"
  by (simp add: os_event_def Let_def)

lemma mouse_ok: "app_ok s \<Longrightarrow> DoMouseDown env u p s = Some s' \<Longrightarrow> app_ok s'"
  by (auto simp: DoMouseDown_def split: window_part.splits if_splits intro: click_ok)

lemma cmd_key_ok:
  assumes "env_ok env rx tx" "app_ok s" "cmd_key env u ch m s = Some s'" shows "app_ok s'"
  by (rule if_SomeE [OF assms(3) [unfolded cmd_key_def]], use assms(2) in simp, erule if_SomeE,
      erule toggle_ok [OF assms(1,2)], erule if_SomeE, use assms(2) in force, erule if_SomeE, use assms(2) in force)
    (use assms(2) in force)

lemma script_ok: "env_ok env rx tx \<Longrightarrow> app_ok s \<Longrightarrow> AEDoScriptHandler env u d s = Some s' \<Longrightarrow> app_ok s'"
  by (auto simp: AEDoScriptHandler_def split: if_splits intro: DoScriptCmd_ok)

lemma HandleEvent_ok:
  assumes "env_ok env rx tx" "app_ok s" "HandleEvent env u e s = Some s'" shows "app_ok s'"
  using assms mouse_ok [OF assms(2)] cmd_key_ok [OF assms(1,2)] script_ok [OF assms(1,2)]
  by (auto simp: HandleEvent_def split: app_event.splits)

end
