(* ===== verification/AppRun.thy ===== *)
theory AppRun
  imports AppInv
begin

text \<open>
  Runs of the application: the limbs of the event loop in any order, with refills at interrupt time
  and passes of the decode task between them. \<open>loop_pass\<close> is one such order.
\<close>

datatype limb = LHandle app_event | LNet | LAux | LView | LRefill | LTask

definition limb_step :: "('w, 'g) app_env \<Rightarrow> 'g ui \<Rightarrow> limb \<Rightarrow> ('w, 'g) app \<Rightarrow> ('w, 'g) app option" where
  "limb_step env u l s = (case l of
       LHandle e \<Rightarrow> HandleEvent env u e s
     | LNet \<Rightarrow> PollNetwork env u s
     | LAux \<Rightarrow> PumpAux env u s
     | LView \<Rightarrow> Some (TickView env s)
     | LRefill \<Rightarrow> Some (if gPlaying s then fst (AudioDoubleBack s) else s)
     | LTask \<Rightarrow> Some (if gDecCmd s = CQ_DEC_RUN \<and> gAuSt s = AU_PLAY then run_pump env s else s))"

primrec app_run :: "('w, 'g) app_env \<Rightarrow> 'g ui \<Rightarrow> limb list \<Rightarrow> ('w, 'g) app \<Rightarrow> ('w, 'g) app option" where
  "app_run env u [] s = Some s"
| "app_run env u (l # ls) s = Option.bind (limb_step env u l s) (app_run env u ls)"

lemma loop_pass_run: "loop_pass env u e s = app_run env u [LHandle e, LNet, LAux, LView] s"
proof (cases "HandleEvent env u e s")
  case (Some s1)
  then show ?thesis
    by (cases "PollNetwork env u s1"; cases "Option.bind (PollNetwork env u s1) (PumpAux env u)")
      (simp_all add: loop_pass_def limb_step_def)
qed (simp add: loop_pass_def limb_step_def)

text \<open>The globals' initial values that the start relies on.\<close>

definition app_start :: "('w, 'g) app \<Rightarrow> bool" where
  "app_start s \<longleftrightarrow> engine_boot s \<and> gTx s = None \<and> gCmd s = None \<and> gCover s = None \<and> gFire s = None \<and>
     gSearchTx s = None \<and> gArtistTx s = None \<and> gQueueTx s = None \<and> gFactTx s = None \<and> gPls s = None \<and>
     length (gHost s) < 64 \<and> gLastMsg s = [] \<and> gFallbackUri s = [] \<and> gLastAction s = [] \<and>
     i_pre_track_id (gIntent s) = [] \<and> gNativePlay s = 0 \<and> gStreamProbe s = 0 \<and> gCoverReq s = [] \<and>
     gBrowseArtist s = []"

lemma boot_ok:
  assumes "env_ok env rx tx" "app_start s" "app_boot env opt s = Some s'" shows "app_ok s'"
proof -
  obtain h p where l: "LoadPrefs (prefs_file s) (gHost s, gPort s) = (h, p)" by (cases "LoadPrefs (prefs_file s) (gHost s, gPort s)")
  have h: "length h < 64" using LoadPrefs_host [OF _ l] assms(2) by (simp add: app_start_def)
  define s1 where "s1 = s\<lparr>gGuard := cq_guard_init (gGuard s), gBackoff := cq_backoff_init CQ_POLL_TICKS CQ_POLL_CAP,
            gQBackoff := cq_backoff_init CQ_QUEUE_POLL_TICKS CQ_POLL_CAP,
            gFBackoff := cq_backoff_init CQ_STREAM_POLL_TICKS CQ_POLL_CAP,
            gCovers := cq_cache_init, gDeb := cq_debounce_init (gDeb s), gHost := h, gPort := p,
            gAutoStart := gAutoStart s \<and> \<not> opt, gSnap := cq_now_zero\<rparr>"
  have "engine_boot s" using assms(2) by (simp add: app_start_def)
  then have "au_ok s1" by (simp add: s1_def engine_boot_def au_ok_def)
  moreover have "net_ok s1" using assms(2) h by (simp add: s1_def net_ok_def app_start_def)
  moreover have "snap_ok s1" using assms(2) by (simp add: s1_def snap_ok_def app_start_def init_ok cq_guard_init_def)
  moreover have "lists_ok s1" using assms(2) by (simp add: s1_def lists_ok_def app_start_def init_ok init_cache_ok)
  ultimately have "app_ok s1" by (simp add: app_ok_def)
  moreover have "app_boot env opt s = (if gAutoStart s1 \<and> gAuSt s1 = AU_IDLE then ToggleListen env s1 else Some s1)"
    unfolding app_boot_def Let_def s1_def by (simp add: l)
  ultimately show ?thesis using toggle_ok [OF assms(1)] assms(3) by (auto split: if_splits)
qed

lemma limb_ok:
  assumes "env_ok env rx tx" "app_ok s" "limb_step env u l s = Some s'" shows "app_ok s'"
proof (cases l)
  case LRefill
  obtain v out nf where r: "AudioDoubleBack s = (v, out, nf)" by (cases "AudioDoubleBack s") auto
  have au: "au_ok s" using assms(2) by simp
  have "app_ok v" if "gPlaying s"
  proof -
    have play: "gAuSt s = AU_PLAY" using au that by (simp add: au_ok_def)
    then have "gPls s = None" using app_okD(7) [OF assms(2)] by auto
    then show ?thesis using frame_app_ok [OF double_back_frame' [OF r] refill_ok [OF au play r]] assms(2) by simp
  qed
  then show ?thesis using LRefill assms(2,3) by (auto simp: limb_step_def r split: if_splits)
next
  case LTask
  have "app_ok (run_pump env s)" if play: "gAuSt s = AU_PLAY"
  proof -
    have "dec_ok (e_dec env)" "au_ok s" using assms(1,2) by (simp_all add: env_ok_def)
    note k = pass_ok [OF this play]
    have "gPls s = None" using app_okD(7) [OF assms(2)] play by auto
    then show ?thesis using frame_app_ok [OF small_frames(4) k] assms(2) by simp
  qed
  then show ?thesis using LTask assms(2,3) by (auto simp: limb_step_def split: if_splits)
qed (use assms in \<open>auto simp: limb_step_def intro: HandleEvent_ok PollNetwork_ok PumpAux_ok\<close>)

lemma run_ok: "env_ok env rx tx \<Longrightarrow> app_ok s \<Longrightarrow> app_run env u ls s = Some s' \<Longrightarrow> app_ok s'"
  by (induction ls arbitrary: s) (auto simp: bind_eq_Some_conv dest: limb_ok)


text \<open>An application with its initial globals, and interrupts and time standing still.\<close>

definition demo_ui :: "unit ui" where
  "demo_ui = \<lparr>u_conv = None, u_convout = None, u_decode = \<lambda>d. Some (), u_mem = []\<rparr>"

definition demo_app :: "(nat, unit) app" where
  "demo_app = audio.extend (quiet_audio\<lparr>gHaveRing := False, gHaveCompRing := False\<rparr>)
     \<lparr>gHost = ''192.0.2.10'', gPort = 70, gSuspended = False, gTx = None, gCmd = None, gCover = None,
      gFire = None, gSearchTx = None, gArtistTx = None, gQueueTx = None, gFactTx = None, gPls = None,
      gSnap = cq_now_zero, gHaveSnap = False, gSnapTick = 0, gGuard = \<lparr>last_ts = 0\<rparr>,
      gBackoff = cq_backoff_init 120 1800, gOnline = False, gLastPoll = 0, gPolls = 0, gDone = 0,
      gLastStat = -1, gLastErr = 0, gLastLen = 0, gLastMsg = [],
      gIntent = \<lparr>i_kind = CQ_INTENT_NONE, i_ticks = 0, i_pre_track_id = [], i_pre_state = CQ_STATE_STOPPED\<rparr>,
      gView = cq_view_zero, lastDraw = 0, gAutoNexted = False, gNativePlay = 0, gFallbackUri = [],
      gAutoStart = True, gAutoWoke = False, gAutoPlayPending = False, gQueueKick = 0, gLastAction = [],
      gLastActionTick = 0, gDeb = \<lparr>pending = None\<rparr>, gCmdFire = 0, gVolHold = 0, play_title = ''Play'',
      vol_value = 50,
      gStreamProbe = 0, gHaveFact = False, gFactLive = 0, gFactTs = 0, gFactLast = 0,
      gFBackoff = cq_backoff_init 600 1800, gQueueLast = 0, gQBackoff = cq_backoff_init 600 1800,
      gQueueEmptyRuns = 0, gQTOk = True, gCovers = cq_cache_init, gCoverReq = [], search_rows = [],
      search_pick = None, queue_rows = [], queue_pick = None, search_text = [], prefs_file = None,
      gRunning = True\<rparr>"

lemma demo_app_fields [simp]:
  "gStream demo_app = None" "gAuSt demo_app = AU_IDLE" "gComp demo_app = []" "\<not> gHaveRing demo_app"
  "\<not> gHaveCompRing demo_app" "\<not> gChan demo_app" "\<not> gPlaying demo_app" "gRingSkip demo_app = 0"
  "gTx demo_app = None" "gCmd demo_app = None" "gCover demo_app = None" "gFire demo_app = None"
  "gSearchTx demo_app = None" "gArtistTx demo_app = None" "gQueueTx demo_app = None" "gFactTx demo_app = None"
  "gPls demo_app = None" "gHost demo_app = ''192.0.2.10''" "gPort demo_app = 70" "gLastMsg demo_app = []"
  "gFallbackUri demo_app = []" "gLastAction demo_app = []" "i_pre_track_id (gIntent demo_app) = []"
  "gNativePlay demo_app = 0" "gStreamProbe demo_app = 0" "gCoverReq demo_app = []" "gBrowseArtist demo_app = []"
  "prefs_file demo_app = None" "gAutoStart demo_app" "world (mach demo_app) = 0" "\<not> gHaveSnap demo_app"
  "gSnap demo_app = cq_now_zero" "last_ts (gGuard demo_app) = 0" "\<not> gAutoPlayPending demo_app"
  "gQueueEmptyRuns demo_app = 0" "gQueueItems demo_app = cq_track_list_empty" "\<not> gAlbumBrowse demo_app"
  "gSearchItems demo_app = cq_track_list_empty" "gSearchArtists demo_app = cq_ref_list_empty"
  "gSearchAlbums demo_app = cq_ref_list_empty" "gArtistAlbums demo_app = cq_ref_list_empty"
  "\<not> gAutoNexted demo_app"
  by (simp_all add: demo_app_def audio.extend_def quiet_audio_def idle_task_def)

lemma demo_start: "app_start demo_app"
  by (simp add: app_start_def engine_boot_def)


end
