(* ===== verification/AppQuiet.thy ===== *)
theory AppQuiet
  imports AppRun
begin

text \<open>
  What an operation leaves alone. A view of the application that reads neither the commands, the
  fired requests, the intent, the lists, the cadences nor the audio engine is kept by every action of
  the user and by every pump that serves them. The contract is a locale, so that each view of the
  state gets these facts by an interpretation.
\<close>

locale aside =
  fixes f :: "('w, 'g) app \<Rightarrow> 'b"
  assumes upd [simp]:
    "\<And>s x. f (s\<lparr>gCmd := x\<rparr>) = f s" "\<And>s x. f (s\<lparr>gFire := x\<rparr>) = f s"
    "\<And>s x. f (s\<lparr>gLastAction := x\<rparr>) = f s" "\<And>s x. f (s\<lparr>gLastActionTick := x\<rparr>) = f s"
    "\<And>s x. f (s\<lparr>gFallbackUri := x\<rparr>) = f s" "\<And>s x. f (s\<lparr>gNativePlay := x\<rparr>) = f s"
    "\<And>s x. f (s\<lparr>gIntent := x\<rparr>) = f s" "\<And>s x. f (s\<lparr>gDeb := x\<rparr>) = f s"
    "\<And>s x. f (s\<lparr>gCmdFire := x\<rparr>) = f s" "\<And>s x. f (s\<lparr>gPls := x\<rparr>) = f s"
    "\<And>s x. f (s\<lparr>gSearchTx := x\<rparr>) = f s" "\<And>s x. f (s\<lparr>gArtistTx := x\<rparr>) = f s"
    "\<And>s x. f (s\<lparr>gSearchItems := x\<rparr>) = f s" "\<And>s x. f (s\<lparr>gSearchArtists := x\<rparr>) = f s"
    "\<And>s x. f (s\<lparr>gSearchAlbums := x\<rparr>) = f s" "\<And>s x. f (s\<lparr>gArtistAlbums := x\<rparr>) = f s"
    "\<And>s x. f (s\<lparr>gAlbumBrowse := x\<rparr>) = f s" "\<And>s x. f (s\<lparr>gBrowseArtist := x\<rparr>) = f s"
    "\<And>s x. f (s\<lparr>gQueueItems := x\<rparr>) = f s" "\<And>s x. f (s\<lparr>search_rows := x\<rparr>) = f s"
    "\<And>s x. f (s\<lparr>search_pick := x\<rparr>) = f s" "\<And>s x. f (s\<lparr>queue_rows := x\<rparr>) = f s"
    "\<And>s x. f (s\<lparr>queue_pick := x\<rparr>) = f s" "\<And>s x. f (s\<lparr>gQueueKick := x\<rparr>) = f s"
    "\<And>s x. f (s\<lparr>gQueueEmptyRuns := x\<rparr>) = f s" "\<And>s x. f (s\<lparr>gAutoPlayPending := x\<rparr>) = f s"
    "\<And>s x. f (s\<lparr>gQueueLast := x\<rparr>) = f s" "\<And>s x. f (s\<lparr>gQBackoff := x\<rparr>) = f s"
    "\<And>s x. f (s\<lparr>gStreamProbe := x\<rparr>) = f s" "\<And>s x. f (s\<lparr>gFactLive := x\<rparr>) = f s"
    "\<And>s x. f (s\<lparr>gFactTs := x\<rparr>) = f s" "\<And>s x. f (s\<lparr>gHaveFact := x\<rparr>) = f s"
    "\<And>s x. f (s\<lparr>gFBackoff := x\<rparr>) = f s" "\<And>s x. f (s\<lparr>gFactLast := x\<rparr>) = f s"
    "\<And>s x. f (s\<lparr>gBackoff := x\<rparr>) = f s" "\<And>s x. f (s\<lparr>gLastMsg := x\<rparr>) = f s"
    "\<And>s x. f (s\<lparr>gAutoNexted := x\<rparr>) = f s" "\<And>s x. f (s\<lparr>gAutoWoke := x\<rparr>) = f s"
    "\<And>s x. f (s\<lparr>mach := x\<rparr>) = f s" "\<And>s x. f (s\<lparr>gVolHold := x\<rparr>) = f s"
    "\<And>s x. f (s\<lparr>vol_value := x\<rparr>) = f s" "\<And>s x. f (s\<lparr>search_text := x\<rparr>) = f s"
    "\<And>s x. f (s\<lparr>prefs_file := x\<rparr>) = f s" "\<And>s x. f (s\<lparr>gRunning := x\<rparr>) = f s"
    "\<And>s x. f (s\<lparr>gOnline := x\<rparr>) = f s" "\<And>s x. f (s\<lparr>gDone := x\<rparr>) = f s"
    "\<And>s x. f (s\<lparr>gLastLen := x\<rparr>) = f s" "\<And>s x. f (s\<lparr>gLastStat := x\<rparr>) = f s"
    "\<And>s x. f (s\<lparr>gLastErr := x\<rparr>) = f s" "\<And>s x. f (s\<lparr>gLastPoll := x\<rparr>) = f s"
    "\<And>s x. f (s\<lparr>gHost := x\<rparr>) = f s" "\<And>s x. f (s\<lparr>gPort := x\<rparr>) = f s"
    "\<And>s x. f (s\<lparr>gCovers := x\<rparr>) = f s" "\<And>s x. f (s\<lparr>gCoverReq := x\<rparr>) = f s"
    "\<And>s x. f (s\<lparr>gPolls := x\<rparr>) = f s"
    and frame: "\<And>s s'. audio_frame s s' \<Longrightarrow> f s' = f s"
begin

subsection \<open>Commands\<close>

lemma SetIntent_keep [simp]: "f (SetIntent env k s) = f s"
  by (simp add: SetIntent_def)

lemma ActionRepeat_keep: "ActionRepeat env sel s = (rep, s') \<Longrightarrow> f s' = f s"
  by (auto simp: ActionRepeat_def Let_def split: if_splits)

lemma StartCommand_keep [simp]: "f (StartCommand env sel s) = f s"
  by (simp add: StartCommand_def)

lemma StartFire_keep [simp]: "f (StartFire env sel s) = f s"
  using ActionRepeat_keep [of env sel s] by (cases "ActionRepeat env sel s") (simp add: StartFire_def)

lemma PlayItem_keep [simp]: "f (PlayItem env its row s) = f s"
  by (simp add: PlayItem_def split: option.split)

lemma PlayFrom_keep: "PlayFrom env its row cont s = Some s' \<Longrightarrow> f s' = f s"
proof (erule PlayFrom_cases)
  fix uri sel rep s1 assume "ActionRepeat env sel (s\<lparr>gFallbackUri := fits 128 uri\<rparr>) = (rep, s1)"
    and "s' = (if rep then s1 else StartCommand env sel s1)"
  then show ?thesis using ActionRepeat_keep by fastforce
qed simp_all

lemma net_keep [simp]: "f (free_tx env s t) = f s" "f (drop_tx env s t') = f s" "f (set_msg m s) = f s"
  by (simp_all add: free_tx_def drop_tx_def set_msg_def split: option.split)

lemma poll_tx_keep: "poll_tx env s t = Some (s', t') \<Longrightarrow> f s' = f s"
  by (auto simp: poll_tx_def)

subsection \<open>The auxiliary pump\<close>

lemma fill_keep [simp]: "f (fill_results u s) = f s" "f (fill_queue u s) = f s"
  by (simp_all add: fill_results_def fill_queue_def)

lemma pump_fire_keep: "pump_fire env s = Some s' \<Longrightarrow> f s' = f s"
  by (auto simp: pump_fire_def bind_eq_Some_conv split: option.splits if_splits dest: poll_tx_keep)

lemma pump_pls_keep: "pump_pls env s = Some s' \<Longrightarrow> f s' = f s"
proof -
  assume p: "pump_pls env s = Some s'"
  have tune: "f (StartStream env url v) = f v" for url and v :: "('w, 'g) app"
    by (rule frame) (rule small_frames(5))
  show ?thesis using p tune
    by (auto simp: pump_pls_def bind_eq_Some_conv Let_def split: option.splits cq_tx_status.splits dest!: poll_tx_keep)
qed

lemma pump_search_keep: "pump_search env u s = Some s' \<Longrightarrow> f s' = f s"
proof (cases "gSearchTx s")
  case (Some t)
  assume p: "pump_search env u s = Some s'"
  then obtain s1 t1 where q: "poll_tx env s t = Some (s1, t1)" using Some by (auto simp: pump_search_def bind_eq_Some_conv)
  show ?thesis using p Some q poll_tx_keep [OF q] by (cases "status t1") (auto simp: pump_search_def Let_def)
qed (simp add: pump_search_def)

lemma pump_artist_keep: "pump_artist env u s = Some s' \<Longrightarrow> f s' = f s"
proof (cases "gArtistTx s")
  case (Some t)
  assume p: "pump_artist env u s = Some s'"
  then obtain s1 t1 where q: "poll_tx env s t = Some (s1, t1)" using Some by (auto simp: pump_artist_def bind_eq_Some_conv)
  show ?thesis using p Some q poll_tx_keep [OF q] by (cases "status t1") (auto simp: pump_artist_def Let_def)
qed (simp add: pump_artist_def)

lemma adopt_queue_keep: "adopt_queue env u fresh s = Some s' \<Longrightarrow> f s' = f s"
  by (auto simp: adopt_queue_def Let_def split: if_splits dest!: PlayFrom_keep)

lemma adopt_fact_keep [simp]: "f (adopt_fact d s) = f s"
  by (simp add: adopt_fact_def Let_def)

lemma ServiceAudio_keep: "env_ok env rx tx \<Longrightarrow> ServiceAudio env s = Some s' \<Longrightarrow> f s' = f s"
  by (rule frame, rule service_frame) (simp_all add: env_ok_def)

lemma aux_front_keep:
  assumes "env_ok env rx tx" "pump_fire env s = Some s1" "ServiceAudio env s1 = Some s2" "pump_pls env s2 = Some s3"
    "pump_search env u s3 = Some s4" "pump_artist env u s4 = Some s5"
  shows "f s5 = f s"
  using pump_fire_keep [OF assms(2)] ServiceAudio_keep [OF assms(1,3)] pump_pls_keep [OF assms(4)]
    pump_search_keep [OF assms(5)] pump_artist_keep [OF assms(6)] by simp

lemma flush_keep: "f (flush_command env s) = f s"
  by (simp add: flush_command_def Let_def split: option.split prod.split)

lemma adopt_error_keep [simp]: "f (adopt_error env isCmd err s) = f s"
  by (simp add: adopt_error_def)

lemma adopt_watchdog_keep: "adopt_watchdog env tmp s = Some s' \<Longrightarrow> f s' = f s"
  by (auto simp: adopt_watchdog_def Let_def split: if_splits dest!: PlayFrom_keep)

lemma adopt_autostart_keep [simp]: "f (adopt_autostart env s) = f s"
  by (simp add: adopt_autostart_def Let_def)

subsection \<open>Events\<close>

lemma actions_keep [simp]:
  "f (StartArtistAlbums env i n s) = f s" "f (PlayContextAlbum env i s) = f s" "f (RunSearch env u s) = f s"
  "f (QueueSelected env s) = f s" "f (click_seek env h w s) = f s" "f (wake env s) = f s" "f (DoMenu u choice s) = f s"
  "f (save_prefs u s) = f s" "f (plain_key env u ch focus field s) = f s"
proof -
  show a: "f (StartArtistAlbums env i n s) = f s"
    by (simp add: StartArtistAlbums_def Let_def split: prod.split) (use ActionRepeat_keep in blast)
  show "f (PlayContextAlbum env i s) = f s"
    by (simp add: PlayContextAlbum_def Let_def split: prod.split) (use ActionRepeat_keep in blast)
  show r: "f (RunSearch env u s) = f s" for s :: "('w, 'g) app"
    by (simp add: RunSearch_def Let_def split: prod.split) (use ActionRepeat_keep in blast)
  show "f (plain_key env u ch focus field s) = f s" by (simp add: plain_key_def r)
qed (simp_all add: QueueSelected_def click_seek_def wake_def DoMenu_def save_prefs_def Let_def
    split: option.split prod.split cq_row_kind.split)

lemma NextCommand_keep: "NextCommand env s = Some s' \<Longrightarrow> f s' = f s"
  by (auto simp: NextCommand_def Let_def split: if_splits dest!: PlayFrom_keep)

lemma ToggleListen_keep: "env_ok env rx tx \<Longrightarrow> ToggleListen env s = Some s' \<Longrightarrow> f s' = f s"
  using frame [OF stop_frame, of env s s'] by (auto simp: ToggleListen_def env_ok_def split: if_splits)

lemma control_keep: "click_control env u c s = Some s' \<Longrightarrow> f s' = f s"
proof (cases c)
  case gPlay
  assume k: "click_control env u c s = Some s'"
  let ?ps = "if now_state (gSnap s) = CQ_STATE_PLAYING then ''/spot/api/1/pause'' else ''/spot/api/1/play''"
  obtain rep s1 where a: "ActionRepeat env ?ps s = (rep, s1)" by (cases "ActionRepeat env ?ps s")
  have "s' = (if rep then s1 else StartCommand env ?ps
      (SetIntent env (if now_state (gSnap s) = CQ_STATE_PLAYING then CQ_INTENT_PAUSE else CQ_INTENT_PLAY) s1))"
    using k unfolding click_control_def gPlay control.case Let_def a prod.case by simp
  then show ?thesis using ActionRepeat_keep [OF a] by simp
next
  case gNext
  then show "click_control env u c s = Some s' \<Longrightarrow> f s' = f s" using NextCommand_keep by (simp add: click_control_def)
qed (auto simp: click_control_def Let_def)

lemma row_keep: "click_result env u row s = Some s' \<Longrightarrow> f s' = f s" "click_queue env row s = Some s' \<Longrightarrow> f s' = f s"
proof -
  obtain k li where k: "ResultKindAt s row = (k, li)" by (cases "ResultKindAt s row")
  show "click_result env u row s = Some s' \<Longrightarrow> f s' = f s" using k
    by (cases k) (auto simp: click_result_def Let_def split: option.splits dest!: PlayFrom_keep)
qed (simp add: click_queue_def PlayFrom_keep)

lemma list_click_keep:
  "(case r of Some row \<Rightarrow> if d then click_result env u row (s\<lparr>search_pick := r\<rparr>) else Some (s\<lparr>search_pick := r\<rparr>)
    | None \<Rightarrow> Some (s\<lparr>search_pick := r\<rparr>)) = Some s' \<Longrightarrow> f s' = f s"
  "(case r of Some row \<Rightarrow> if d then click_queue env row (s\<lparr>queue_pick := r\<rparr>) else Some (s\<lparr>queue_pick := r\<rparr>)
    | None \<Rightarrow> Some (s\<lparr>queue_pick := r\<rparr>)) = Some s' \<Longrightarrow> f s' = f s"
  by (cases r; cases d; auto dest!: row_keep)+

lemma click_keep:
  assumes "DoContentClick env u c s = Some s'" shows "f s' = f s"
proof (cases "c_ctl c")
  case None
  note e = assms [unfolded DoContentClick_def Let_def None option.case]
  show ?thesis
    by (rule if_SomeE [OF e], force, erule if_SomeE, erule list_click_keep(1), erule if_SomeE, erule list_click_keep(2), simp)
next
  case (Some ctl)
  then show ?thesis using assms control_keep [of env u ctl s s']
    by (cases "ctl \<noteq> gSearchEdit \<and> c_tracked c") (simp_all add: DoContentClick_def)
qed

lemma mouse_keep: "DoMouseDown env u p s = Some s' \<Longrightarrow> f s' = f s"
  by (cases p) (auto simp: DoMouseDown_def split: if_splits dest!: click_keep)

lemma cmd_key_keep:
  assumes "env_ok env rx tx" "cmd_key env u ch m s = Some s'" shows "f s' = f s"
  by (rule if_SomeE [OF assms(2) [unfolded cmd_key_def]], simp, erule if_SomeE,
      erule ToggleListen_keep [OF assms(1)], erule if_SomeE, force, erule if_SomeE, force) force

text \<open>A script and a resume keep the view, or change the server from a state that has the same view.\<close>

lemma reload_keep: "f (ReloadConfig env s) = f s \<or> (\<exists>v. f v = f s \<and> ReloadConfig env s = ApplyServerChange env v)"
proof -
  obtain h p where l: "LoadPrefs (prefs_file s) (gHost s, gPort s) = (h, p)" by (cases "LoadPrefs (prefs_file s) (gHost s, gPort s)")
  then have "ReloadConfig env s = s\<lparr>gHost := h, gPort := p\<rparr> \<or>
      ReloadConfig env s = ApplyServerChange env (s\<lparr>gHost := h, gPort := p\<rparr>)"
    unfolding ReloadConfig_def Let_def by simp
  moreover have "f (s\<lparr>gHost := h, gPort := p\<rparr>) = f s" by simp
  ultimately show ?thesis by metis
qed

lemma script_keep:
  assumes "env_ok env rx tx" "DoScriptCmd env u cmd s = Some s'"
  shows "f s' = f s \<or> (\<exists>v. f v = f s \<and> s' = ApplyServerChange env v)"
proof -
  have srv: "\<exists>v. f v = f s \<and> ApplyServerChange env (save_prefs u (s\<lparr>gHost := h, gPort := p\<rparr>)) = ApplyServerChange env v" for h p
    by (rule exI [of _ "save_prefs u (s\<lparr>gHost := h, gPort := p\<rparr>)"]) simp
  note e = assms(2) [unfolded DoScriptCmd_def]
  note tog = ToggleListen_keep [OF assms(1)]
  show ?thesis
    apply (rule if_SomeE [OF e], erule if_SomeE, blast dest: tog, simp)
    apply (erule if_SomeE, erule if_SomeE, blast dest: tog, simp)
    apply (erule if_SomeE, force, erule if_SomeE, force, erule if_SomeE, blast dest: NextCommand_keep)
    apply (erule if_SomeE, force, erule if_SomeE, force, erule if_SomeE, force, erule if_SomeE, force)
    apply (erule if_SomeE, use srv in \<open>auto split: option.splits\<close>)
    done
qed

end

end
