(* ===== verification/AppKeep.thy ===== *)
theory AppKeep
  imports AppQuiet
begin

text \<open>
  The background view: suspension, the transactions the program starts by itself, the snapshot and
  its guard. Commands, fired requests, the audio engine, the lists and the repaint leave it alone;
  each pump touches its own part of it.
\<close>

definition bg :: "('w, 'g) app \<Rightarrow> bool \<times> ot_tx option \<times> ot_tx option \<times> ot_tx option \<times> ot_tx option \<times> cq_now \<times> cq_guard" where
  "bg s = (gSuspended s, gTx s, gCover s, gQueueTx s, gFactTx s, gSnap s, gGuard s)"

lemma bgD:
  assumes "bg s' = bg s"
  shows "gSuspended s' = gSuspended s" "gTx s' = gTx s" "gCover s' = gCover s" "gQueueTx s' = gQueueTx s"
    "gFactTx s' = gFactTx s" "gSnap s' = gSnap s" "gGuard s' = gGuard s"
  using assms by (simp_all add: bg_def)

lemma frame_bg: "audio_frame s s' \<Longrightarrow> bg s' = bg s"
  by (cases s; cases s') (simp add: audio_frame_def bg_def)

text \<open>Actions, commands and the repaint leave it alone.\<close>

interpretation bgk: aside bg
  by unfold_locales (simp_all add: bg_def frame_bg [unfolded bg_def])

lemma view_upd [simp]: "bg (s\<lparr>gView := v\<rparr>) = bg s" "bg (s\<lparr>lastDraw := d\<rparr>) = bg s"
  by (simp_all add: bg_def)

lemma view_bg [simp]: "bg (settle_intent v s) = bg s" "bg (RenderView env s) = bg s" "bg (Redraw env s) = bg s"
    "bg (TickView env s) = bg s"
  by (simp_all add: settle_intent_def RenderView_def Redraw_def TickView_def Let_def)

text \<open>The queue's and the fact's pumps touch their own transaction only, and start it only in the foreground.\<close>

lemma bg_own:
  "bg v = bg s \<Longrightarrow> bg (v\<lparr>gQueueTx := q\<rparr>) = bg (s\<lparr>gQueueTx := q\<rparr>)"
  "bg v = bg s \<Longrightarrow> bg (v\<lparr>gFactTx := q\<rparr>) = bg (s\<lparr>gFactTx := q\<rparr>)"
  "bg v = bg s \<Longrightarrow> bg (v\<lparr>gCover := q\<rparr>) = bg (s\<lparr>gCover := q\<rparr>)"
  "bg v = bg s \<Longrightarrow> bg (v\<lparr>gTx := q\<rparr>) = bg (s\<lparr>gTx := q\<rparr>)"
  by (simp_all add: bg_def)

lemma bg_same: "bg s = bg (s\<lparr>gQueueTx := gQueueTx s\<rparr>)" "bg s = bg (s\<lparr>gFactTx := gFactTx s\<rparr>)"
    "bg s = bg (s\<lparr>gCover := gCover s\<rparr>)" "bg s = bg (s\<lparr>gTx := gTx s\<rparr>)"
  by (simp_all add: bg_def)

lemma bg_twice: "bg v = bg (s\<lparr>gQueueTx := q\<rparr>) \<Longrightarrow> bg (v\<lparr>gQueueTx := r\<rparr>) = bg (s\<lparr>gQueueTx := r\<rparr>)"
  "bg v = bg (s\<lparr>gCover := q\<rparr>) \<Longrightarrow> bg (v\<lparr>gCover := r\<rparr>) = bg (s\<lparr>gCover := r\<rparr>)"
  "bg v = bg (s\<lparr>gTx := q\<rparr>) \<Longrightarrow> bg (v\<lparr>gTx := r\<rparr>) = bg (s\<lparr>gTx := r\<rparr>)"
  by (simp_all add: bg_def)

lemma start_bg:
  "bg (start_queue env s) = bg (s\<lparr>gQueueTx := gQueueTx (start_queue env s)\<rparr>)"
  "bg (start_fact env s) = bg (s\<lparr>gFactTx := gFactTx (start_fact env s)\<rparr>)"
  by (simp_all add: start_queue_def start_fact_def Let_def bg_def)

lemma pump_queue_bg: "pump_queue env u s = Some s' \<Longrightarrow> \<exists>q. bg s' = bg (s\<lparr>gQueueTx := q\<rparr>)"
proof (cases "gQueueTx s")
  case None
  then show "pump_queue env u s = Some s' \<Longrightarrow> \<exists>q. bg s' = bg (s\<lparr>gQueueTx := q\<rparr>)"
    using start_bg(1) [of env s] by (auto simp: pump_queue_def)
next
  case (Some t)
  assume p: "pump_queue env u s = Some s'"
  then obtain s1 t1 where q: "poll_tx env s t = Some (s1, t1)" using Some by (auto simp: pump_queue_def bind_eq_Some_conv)
  note b1 = bg_own(1) [OF bgk.poll_tx_keep [OF q]]
  show "\<exists>q. bg s' = bg (s\<lparr>gQueueTx := q\<rparr>)"
  proof (cases "status t1")
    case CQ_TX_RUNNING
    then show ?thesis using p Some q b1 by (auto simp: pump_queue_def)
  next
    case CQ_TX_DONE
    then obtain s2 where "adopt_queue env u (cq_track_list_from_response (data t1)) (s1\<lparr>gQueueTx := Some t1\<rparr>) = Some s2"
      and s': "bg s' = bg ((free_tx env s2 t1)\<lparr>gQueueTx := None\<rparr>)"
      using p Some q by (auto simp: pump_queue_def bind_eq_Some_conv Let_def)
    from bgk.adopt_queue_keep [OF this(1)] b1 have "bg (free_tx env s2 t1) = bg (s\<lparr>gQueueTx := Some t1\<rparr>)" by simp
    from bg_twice(1) [OF this] s' show ?thesis by auto
  next
    case CQ_TX_FAILED
    have "bg (free_tx env (s1\<lparr>gQueueTx := Some t1\<rparr>) t1) = bg (s\<lparr>gQueueTx := Some t1\<rparr>)" using b1 by simp
    from bg_twice(1) [OF this] show ?thesis using p Some q CQ_TX_FAILED by (auto simp: pump_queue_def Let_def)
  qed
qed

lemma pump_fact_bg: "pump_fact env s = Some s' \<Longrightarrow> \<exists>q. bg s' = bg (s\<lparr>gFactTx := q\<rparr>)"
proof (cases "gFactTx s")
  case None
  assume "pump_fact env s = Some s'"
  then have "s' = start_fact env s" using None by (simp add: pump_fact_def)
  then show "\<exists>q. bg s' = bg (s\<lparr>gFactTx := q\<rparr>)" using start_bg(2) [of env s] by auto
next
  case (Some t)
  assume p: "pump_fact env s = Some s'"
  then obtain s1 t1 where q: "poll_tx env s t = Some (s1, t1)" using Some by (auto simp: pump_fact_def bind_eq_Some_conv)
  have b: "bg (free_tx env (adopt_fact (data t1) s1) t1) = bg s" "bg (free_tx env s1 t1) = bg s" "bg s1 = bg s"
    using bgk.poll_tx_keep [OF q] by simp_all
  show "\<exists>q. bg s' = bg (s\<lparr>gFactTx := q\<rparr>)"
    using p Some q bg_own(2) [OF b(1)] bg_own(2) [OF b(2)] bg_own(2) [OF b(3)]
    by (auto simp: pump_fact_def Let_def split: cq_tx_status.splits)
qed

lemma pump_suspended: "pump_queue env u s = Some s' \<Longrightarrow> gSuspended s \<Longrightarrow> gQueueTx s = None \<Longrightarrow> s' = s"
    "pump_fact env s = Some s' \<Longrightarrow> gSuspended s \<Longrightarrow> gFactTx s = None \<Longrightarrow> s' = s"
  by (simp_all add: pump_queue_def start_queue_def pump_fact_def start_fact_def)

lemma PumpAux_bg:
  assumes "env_ok env rx tx" "PumpAux env u s = Some s'"
  obtains q r where "bg s' = bg (s\<lparr>gQueueTx := q, gFactTx := r\<rparr>)"
    "gSuspended s \<Longrightarrow> gQueueTx s = None \<Longrightarrow> q = None" "gSuspended s \<Longrightarrow> gFactTx s = None \<Longrightarrow> r = None"
proof -
  obtain s1 s2 s3 s4 s5 s6 where st: "pump_fire env s = Some s1" "ServiceAudio env s1 = Some s2" "pump_pls env s2 = Some s3"
      "pump_search env u s3 = Some s4" "pump_artist env u s4 = Some s5" "pump_queue env u s5 = Some s6" "pump_fact env s6 = Some s'"
    using assms(2) by (auto simp: PumpAux_def bind_eq_Some_conv)
  have b5: "bg s5 = bg s" by (rule bgk.aux_front_keep [OF assms(1) st(1-5)])
  obtain q where q: "bg s6 = bg (s5\<lparr>gQueueTx := q\<rparr>)" using pump_queue_bg [OF st(6)] by blast
  obtain r where r: "bg s' = bg (s6\<lparr>gFactTx := r\<rparr>)" using pump_fact_bg [OF st(7)] by blast
  have b6: "bg s6 = bg (s\<lparr>gQueueTx := q\<rparr>)" using q bg_own(1) [OF b5] by simp
  show ?thesis
  proof (rule that)
    show "bg s' = bg (s\<lparr>gQueueTx := q, gFactTx := r\<rparr>)" using r bg_own(2) [OF b6] by simp
    show "q = None" if "gSuspended s" "gQueueTx s = None"
      using pump_suspended(1) [OF st(6)] bgD(1,4) [OF b5] bgD(4) [OF q] that by simp
    show "r = None" if "gSuspended s" "gFactTx s = None"
      using pump_suspended(2) [OF st(7)] bgD(1,5) [OF b6] bgD(5) [OF r] that by simp
  qed
qed

subsection \<open>Replies\<close>

text \<open>The snapshot a reply carries, if it is a healthy one.\<close>

definition reply_snap :: "bytes \<Rightarrow> cq_now option" where
  "reply_snap d = (let f = cq_fields_parse cq_fields_init d in
     if cq_fields_get f ''error'' = None then Some (cq_now_from_fields f) else None)"

lemma adopt_snap_bg: "bg (adopt_snap env tmp held keep s) = bg (s\<lparr>gSnap := (if held then tmp\<lparr>now_volume := keep\<rparr> else tmp)\<rparr>)"
  by (simp add: adopt_snap_def Let_def set_vol_def UpdatePlayTitle_def bg_def)

lemma adopt_good_bg:
  assumes "adopt_good env isCmd tmp s = Some s'" "cq_guard_accept_ts (gGuard s) (now_ts tmp) = (ok, g)"
  shows "\<exists>v. v \<in> {now_volume tmp, now_volume (gSnap s)} \<and>
    bg s' = bg (if ok then s\<lparr>gGuard := g, gSnap := tmp\<lparr>now_volume := v\<rparr>\<rparr> else s\<lparr>gGuard := g\<rparr>)"
proof -
  define s1 where "s1 = (let s = (if isCmd \<and> gFallbackUri s \<noteq> [] then s\<lparr>gNativePlay := 1, gFallbackUri := []\<rparr> else s)
    in s\<lparr>gBackoff := cq_backoff_ok (gBackoff s)\<rparr>)"
  define s2 where "s2 = s1\<lparr>gGuard := g\<rparr>"
  have "bg s1 = bg s" by (simp add: s1_def Let_def)
  then have b2: "bg s2 = bg (s\<lparr>gGuard := g\<rparr>)" by (simp add: s2_def bg_def)
  have "adopt_good env isCmd tmp s = (if \<not> ok then Some s2
      else map_option (\<lambda>v. adopt_autostart env (adopt_snap env tmp (sint (TickCount env s2 - gVolHold s2) < 0)
        (now_volume (gSnap s2)) v)) (adopt_watchdog env tmp s2))"
    by (simp add: adopt_good_def s2_def s1_def Let_def assms(2))
  note e = assms(1) [unfolded this]
  show ?thesis
  proof (cases ok)
    case True
    then obtain s3 h k where w: "adopt_watchdog env tmp s2 = Some s3" and s': "s' = adopt_autostart env (adopt_snap env tmp h k s3)"
      and k: "k = now_volume (gSnap s2)"
      using e by (auto simp: map_option_case split: option.splits)
    have "bg s' = bg (s3\<lparr>gSnap := (if h then tmp\<lparr>now_volume := k\<rparr> else tmp)\<rparr>)" by (simp add: s' adopt_snap_bg)
    moreover have "bg s3 = bg (s\<lparr>gGuard := g\<rparr>)" using bgk.adopt_watchdog_keep [OF w] b2 by simp
    ultimately have "bg s' = bg (s\<lparr>gGuard := g, gSnap := (if h then tmp\<lparr>now_volume := k\<rparr> else tmp)\<rparr>)" by (simp add: bg_def)
    moreover have "tmp = tmp\<lparr>now_volume := now_volume tmp\<rparr>" "k = now_volume (gSnap s)"
      using bgD(6) [OF b2] k by simp_all
    ultimately show ?thesis using True by (cases h) auto
  qed (use e b2 in auto)
qed

lemma AdoptReply_bg:
  assumes "AdoptReply env d isCmd s = Some s'"
  shows "case reply_snap d of None \<Rightarrow> bg s' = bg s
    | Some n \<Rightarrow> (case cq_guard_accept_ts (gGuard s) (now_ts n) of (ok, g) \<Rightarrow>
        \<exists>v. v \<in> {now_volume n, now_volume (gSnap s)} \<and> bg s' = bg (if ok then s\<lparr>gGuard := g, gSnap := n\<lparr>now_volume := v\<rparr>\<rparr> else s\<lparr>gGuard := g\<rparr>))"
proof -
  define f where "f = cq_fields_parse cq_fields_init d"
  define s1 where "s1 = s\<lparr>gLastLen := wrap32 (int (length d)), gDone := wrap32 (gDone s + 1), gOnline := True\<rparr>"
  have b1: "bg s1 = bg s" "gGuard s1 = gGuard s" "gSnap s1 = gSnap s" by (simp_all add: s1_def)
  have e: "map_option (Redraw env) (case cq_fields_get f ''error'' of Some err \<Rightarrow> Some (adopt_error env isCmd err s1)
      | None \<Rightarrow> adopt_good env isCmd (cq_now_from_fields f) s1) = Some s'"
    using assms unfolding AdoptReply_def Let_def f_def s1_def .
  show ?thesis
  proof (cases "cq_fields_get f ''error''")
    case None
    then obtain s2 where g: "adopt_good env isCmd (cq_now_from_fields f) s1 = Some s2" and s': "bg s' = bg s2"
      using e by (auto simp: map_option_case split: option.splits)
    obtain ok m where a: "cq_guard_accept_ts (gGuard s) (now_ts (cq_now_from_fields f)) = (ok, m)"
      by (cases "cq_guard_accept_ts (gGuard s) (now_ts (cq_now_from_fields f))")
    from adopt_good_bg [OF g] a b1(2,3) obtain v where v: "v \<in> {now_volume (cq_now_from_fields f), now_volume (gSnap s)}"
      and "bg s2 = bg (if ok then s1\<lparr>gGuard := m, gSnap := (cq_now_from_fields f)\<lparr>now_volume := v\<rparr>\<rparr> else s1\<lparr>gGuard := m\<rparr>)" by auto
    then have "bg s' = bg (if ok then s\<lparr>gGuard := m, gSnap := (cq_now_from_fields f)\<lparr>now_volume := v\<rparr>\<rparr> else s\<lparr>gGuard := m\<rparr>)"
      using s' b1(1) by (simp add: bg_def)
    then show ?thesis using None a v by (auto simp: reply_snap_def Let_def f_def)
  next
    case (Some err)
    then have "bg s' = bg s" using e b1(1) by auto
    then show ?thesis using Some by (simp add: reply_snap_def Let_def f_def)
  qed
qed

subsection \<open>What is shown, and what is started in the background\<close>

text \<open>The picture is undated or the newest one the guard has let through since its last reset.\<close>

definition shown_ok :: "('w, 'g) app \<Rightarrow> bool" where
  "shown_ok s \<longleftrightarrow> 0 \<le> last_ts (gGuard s) \<and>
     (last_ts (gGuard s) = 0 \<or> now_ts (gSnap s) \<le> 0 \<or> now_ts (gSnap s) = last_ts (gGuard s))"

definition forward :: "('w, 'g) app \<Rightarrow> ('w, 'g) app \<Rightarrow> bool" where
  "forward s s' \<longleftrightarrow> (shown_ok s \<longrightarrow> shown_ok s' \<and> last_ts (gGuard s) \<le> last_ts (gGuard s'))"

definition no_start :: "ot_tx option \<Rightarrow> ot_tx option \<Rightarrow> bool" where
  "no_start t t' \<longleftrightarrow> (t = None \<longrightarrow> t' = None)"

definition quiet :: "('w, 'g) app \<Rightarrow> ('w, 'g) app \<Rightarrow> bool" where
  "quiet s s' \<longleftrightarrow> (gSuspended s \<longrightarrow> gSuspended s' \<and> no_start (gTx s) (gTx s') \<and> no_start (gCover s) (gCover s') \<and>
     no_start (gQueueTx s) (gQueueTx s') \<and> no_start (gFactTx s) (gFactTx s'))"

lemma no_start_refl [simp]: "no_start t t" "no_start t None"
  by (simp_all add: no_start_def)

lemma forward_trans: "forward a b \<Longrightarrow> forward b c \<Longrightarrow> forward a c"
  by (auto simp: forward_def)

lemma quiet_trans: "quiet a b \<Longrightarrow> quiet b c \<Longrightarrow> quiet a c"
  by (auto simp: quiet_def no_start_def)

lemma bg_forward: "bg s' = bg s \<Longrightarrow> forward s s'" "bg s' = bg (s\<lparr>gQueueTx := q, gFactTx := r\<rparr>) \<Longrightarrow> forward s s'"
  "bg s' = bg (s\<lparr>gCover := q\<rparr>) \<Longrightarrow> forward s s'" "bg s' = bg (s\<lparr>gTx := q\<rparr>) \<Longrightarrow> forward s s'"
  by (simp_all add: bg_def forward_def shown_ok_def)

lemma bg_quiet: "bg s' = bg s \<Longrightarrow> quiet s s'"
  by (simp add: bg_def quiet_def)

lemma AdoptReply_forward:
  assumes "AdoptReply env d isCmd s = Some s'" shows "forward s s'"
    "(gSuspended s', gTx s', gCover s', gQueueTx s', gFactTx s') = (gSuspended s, gTx s, gCover s, gQueueTx s, gFactTx s)"
proof -
  note k = AdoptReply_bg [OF assms]
  show "forward s s'"
  proof (cases "reply_snap d")
    case None
    then show ?thesis using k by (simp add: bg_forward(1))
  next
    case (Some n)
    obtain ok g where a: "cq_guard_accept_ts (gGuard s) (now_ts n) = (ok, g)" by (cases "cq_guard_accept_ts (gGuard s) (now_ts n)")
    obtain v where b: "bg s' = bg (if ok then s\<lparr>gGuard := g, gSnap := n\<lparr>now_volume := v\<rparr>\<rparr> else s\<lparr>gGuard := g\<rparr>)"
      using k Some a by auto
    have g: "gGuard s' = g" "now_ts (gSnap s') = (if ok then now_ts n else now_ts (gSnap s))"
      using b by (simp_all add: bg_def split: if_splits)
    show ?thesis
    proof (cases "0 \<le> last_ts (gGuard s)")
      case True
      then have "last_ts g = max (last_ts (gGuard s)) (now_ts n)" "ok \<longleftrightarrow> now_ts n \<le> 0 \<or> last_ts (gGuard s) \<le> now_ts n"
        using accept_mark [OF True, of "now_ts n"] accept_iff [OF True, of "now_ts n"] a by simp_all
      then show ?thesis using g by (auto simp: forward_def shown_ok_def)
    qed (simp add: forward_def shown_ok_def)
  qed
  show "(gSuspended s', gTx s', gCover s', gQueueTx s', gFactTx s') = (gSuspended s, gTx s, gCover s, gQueueTx s, gFactTx s)"
    using k by (auto simp: bg_def split: option.splits prod.splits if_splits)
qed

lemma PumpTx_bg:
  assumes "PumpTx env isPoll t s = Some s'"
  shows "forward s s'" "(gSuspended s', gCover s', gQueueTx s', gFactTx s') = (gSuspended s, gCover s, gQueueTx s, gFactTx s)"
    "\<not> isPoll \<Longrightarrow> gTx s' = gTx s"
proof -
  obtain s1 t1 where p: "poll_tx env s t = Some (s1, t1)" using assms by (auto simp: PumpTx_def bind_eq_Some_conv)
  define s2 where "s2 = (let s = put_tx isPoll (Some t1) s1 in if isPoll then s\<lparr>gLastStat := status_code (status t1)\<rparr> else s)"
  note e = assms [unfolded PumpTx_def p bind.bind_lunit prod.case Let_def, folded s2_def [unfolded Let_def]]
  have put: "bg (put_tx isPoll x v) = bg (if isPoll then w\<lparr>gTx := x\<rparr> else w)" if "bg v = bg w" for x and v w :: "('a, 'b) app"
    using bg_own(4) [OF that] that by (simp add: put_tx_def)
  have b2: "bg s2 = bg (if isPoll then s\<lparr>gTx := Some t1\<rparr> else s)"
    using put [OF bgk.poll_tx_keep [OF p], of "Some t1"] by (cases isPoll) (simp_all add: s2_def Let_def)
  have "\<exists>s3. forward s2 s3 \<and> (gSuspended s3, gTx s3, gCover s3, gQueueTx s3, gFactTx s3) =
      (gSuspended s2, gTx s2, gCover s2, gQueueTx s2, gFactTx s2) \<and>
      (bg s' = bg s3 \<or> bg s' = bg (if isPoll then s3\<lparr>gTx := None\<rparr> else s3))"
  proof (cases "status t1")
    case CQ_TX_RUNNING
    then show ?thesis using e by (intro exI [of _ s2]) (simp add: bg_forward(1))
  next
    case CQ_TX_DONE
    then obtain s3 where a: "AdoptReply env (data t1) (\<not> isPoll) s2 = Some s3"
      and s': "s' = put_tx isPoll None (free_tx env (if isPoll then s3 else s3\<lparr>gLastPoll := TickCount env s3\<rparr>) t1)"
      using e by (auto simp: bind_eq_Some_conv)
    have "bg (free_tx env (if isPoll then s3 else s3\<lparr>gLastPoll := TickCount env s3\<rparr>) t1) = bg s3" by simp
    from put [OF this, of None] have "bg s' = bg (if isPoll then s3\<lparr>gTx := None\<rparr> else s3)" by (simp only: s')
    then show ?thesis using AdoptReply_forward [OF a] by blast
  next
    case CQ_TX_FAILED
    have f: "bg (free_tx env ((if isPoll then s2\<lparr>gLastErr := error_code (error t1)\<rparr> else s2)
        \<lparr>gLastMsg := m, gOnline := False, gBackoff := k\<rparr>) t1) = bg s2" for m k by simp
    from put [OF f, of None] have "bg s' = bg (if isPoll then s2\<lparr>gTx := None\<rparr> else s2)" using e CQ_TX_FAILED by auto
    then show ?thesis by (intro exI [of _ s2]) (simp add: bg_forward(1))
  qed
  then obtain s3 where f: "forward s2 s3" and k: "(gSuspended s3, gTx s3, gCover s3, gQueueTx s3, gFactTx s3) =
      (gSuspended s2, gTx s2, gCover s2, gQueueTx s2, gFactTx s2)"
    and s': "bg s' = bg s3 \<or> bg s' = bg (if isPoll then s3\<lparr>gTx := None\<rparr> else s3)" by blast
  have "forward s s2" "forward s3 s'" using b2 s' bg_forward(1,4) by (auto split: if_splits)
  then show "forward s s'" using f forward_trans by blast
  show "(gSuspended s', gCover s', gQueueTx s', gFactTx s') = (gSuspended s, gCover s, gQueueTx s, gFactTx s)"
    "\<not> isPoll \<Longrightarrow> gTx s' = gTx s" using b2 k s' by (auto simp: bg_def split: if_splits)
qed

lemma pump_cover_bg:
  assumes "pump_cover env u s = Some s'"
  shows "\<exists>q. bg s' = bg (s\<lparr>gCover := q\<rparr>) \<and> (gCover s = None \<longrightarrow> q = None)"
proof (cases "gCover s")
  case None
  then have "s' = s" using assms by (simp add: pump_cover_def)
  then have "bg s' = bg (s\<lparr>gCover := None\<rparr>)" using None by (simp add: bg_def)
  then show ?thesis by blast
next
  case (Some t)
  obtain s1 t1 where p: "poll_tx env s t = Some (s1, t1)"
    using assms Some by (auto simp: pump_cover_def bind_eq_Some_conv)
  have b: "bg (s1\<lparr>gCover := Some t1\<rparr>) = bg (s\<lparr>gCover := Some t1\<rparr>)" using bgk.poll_tx_keep [OF p] by (rule bg_own(3))
  show ?thesis
  proof (cases "status t1 = CQ_TX_RUNNING")
    case True
    then show ?thesis using assms Some p b by (auto simp: pump_cover_def)
  next
    case False
    have twice: "bg ((free_tx env v t1)\<lparr>gCover := None\<rparr>) = bg (s\<lparr>gCover := None\<rparr>)"
      if "bg v = bg (s\<lparr>gCover := Some t1\<rparr>)" for v
      by (rule bg_twice(2) [where q = "Some t1"]) (simp add: that)
    have "bg s' = bg (s\<lparr>gCover := None\<rparr>)"
      using assms Some p b False by (auto simp: pump_cover_def Let_def intro!: twice split: if_splits)
    then show ?thesis by blast
  qed
qed

lemma start_cover_bg: "bg (start_cover env s) = bg (s\<lparr>gCover := gCover (start_cover env s)\<rparr>)"
    "gSuspended s \<Longrightarrow> start_cover env s = s"
  by (simp_all add: start_cover_def Let_def bg_def split: option.split)

lemma start_poll_bg: "bg (start_poll env s) = bg (s\<lparr>gTx := gTx (start_poll env s)\<rparr>)"
    "gSuspended s \<Longrightarrow> start_poll env s = s"
  by (simp_all add: start_poll_def Let_def bg_def)

lemma start_cover_keeps: "forward s (start_cover env s)" "quiet s (start_cover env s)"
proof -
  show "forward s (start_cover env s)" using start_cover_bg(1) by (rule bg_forward(3))
  show "quiet s (start_cover env s)"
    using start_cover_bg(2) [of s env] by (cases "gSuspended s") (simp_all add: quiet_def)
qed

lemma start_poll_keeps: "forward s (start_poll env s)" "quiet s (start_poll env s)"
proof -
  show "forward s (start_poll env s)" using start_poll_bg(1) by (rule bg_forward(4))
  show "quiet s (start_poll env s)"
    using start_poll_bg(2) [of s env] by (cases "gSuspended s") (simp_all add: quiet_def)
qed

lemma pump_cover_keeps: "pump_cover env u s = Some s' \<Longrightarrow> forward s s'" "pump_cover env u s = Some s' \<Longrightarrow> quiet s s'"
proof -
  assume "pump_cover env u s = Some s'"
  then obtain q where q: "bg s' = bg (s\<lparr>gCover := q\<rparr>)" "gCover s = None \<longrightarrow> q = None" using pump_cover_bg by blast
  show "forward s s'" using q(1) by (rule bg_forward(3))
  show "quiet s s'" using bgD [OF q(1)] q(2) by (simp add: quiet_def no_start_def)
qed

lemma PumpTx_keeps:
  assumes "PumpTx env isPoll t s = Some s'" "isPoll \<Longrightarrow> gTx s \<noteq> None" shows "forward s s'" "quiet s s'"
proof -
  show "forward s s'" using assms(1) by (rule PumpTx_bg(1))
  show "quiet s s'" using PumpTx_bg(2,3) [OF assms(1)] assms(2) by (cases isPoll) (auto simp: quiet_def no_start_def)
qed

lemma PollNetwork_bg:
  assumes "PollNetwork env u s = Some s'" shows "forward s s'" "quiet s s'"
proof -
  obtain s1 s2 where a: "(case gCmd s of Some t \<Rightarrow> PumpTx env False t s | None \<Rightarrow> Some s) = Some s1"
    and b: "pump_cover env u s1 = Some s2"
    and c: "(case gTx (flush_command env (start_cover env s2)) of
        Some t \<Rightarrow> PumpTx env True t (flush_command env (start_cover env s2))
      | None \<Rightarrow> Some (start_poll env (flush_command env (start_cover env s2)))) = Some s'"
    using assms by (auto simp: PollNetwork_def bind_eq_Some_conv Let_def)
  define s3 where "s3 = flush_command env (start_cover env s2)"
  have r1: "forward s s1 \<and> quiet s s1"
    using a PumpTx_keeps [of env False _ s s1] bg_forward(1) [of s s] bg_quiet [of s s] by (cases "gCmd s") auto
  have "forward s1 s3 \<and> quiet s1 s3"
    using pump_cover_keeps [OF b] start_cover_keeps [of s2 env] bg_forward(1) [OF bgk.flush_keep [of env "start_cover env s2"]]
      bg_quiet [OF bgk.flush_keep [of env "start_cover env s2"]] forward_trans quiet_trans unfolding s3_def by blast
  moreover have "forward s3 s' \<and> quiet s3 s'"
    using c start_poll_keeps [of s3 env] PumpTx_keeps [of env True _ s3 s'] unfolding s3_def by (auto split: option.splits)
  ultimately show "forward s s'" "quiet s s'" using r1 forward_trans quiet_trans by blast+
qed

lemma PumpAux_keeps:
  assumes "env_ok env rx tx" "PumpAux env u s = Some s'" shows "forward s s'" "quiet s s'"
proof -
  obtain q r where b: "bg s' = bg (s\<lparr>gQueueTx := q, gFactTx := r\<rparr>)"
    and n: "gSuspended s \<and> gQueueTx s = None \<longrightarrow> q = None" "gSuspended s \<and> gFactTx s = None \<longrightarrow> r = None"
    using PumpAux_bg [OF assms] by metis
  show "forward s s'" using b by (rule bg_forward(2))
  show "quiet s s'" using bgD [OF b] n by (auto simp: quiet_def no_start_def)
qed

subsection \<open>Events\<close>

text \<open>The change of the server, field by field.\<close>

lemma drop_field_mach: "\<exists>m. drop_field env get clear s = clear (s\<lparr>mach := m\<rparr>)"
proof -
  have "drop_tx env s (get s) = s\<lparr>mach := mach (drop_tx env s (get s))\<rparr>" by (simp add: drop_tx_def split: option.split)
  then show ?thesis unfolding drop_field_def by (metis (no_types))
qed

lemma server_change_eq:
  "\<exists>m. ApplyServerChange env s = s\<lparr>gTx := None, gCmd := None, gCover := None, gFire := None,
     gSearchTx := None, gArtistTx := None, gQueueTx := None, gFactTx := None, mach := m, gPls := None,
     gGuard := cq_guard_reset (gGuard s), gBackoff := cq_backoff_init CQ_POLL_TICKS CQ_POLL_CAP,
     gQBackoff := cq_backoff_init CQ_QUEUE_POLL_TICKS CQ_POLL_CAP,
     gFBackoff := cq_backoff_init CQ_STREAM_POLL_TICKS CQ_POLL_CAP,
     gLastPoll := 0, gQueueLast := 0, gQueueKick := 0, gStreamProbe := 0, gHaveFact := False, gFactLast := 0,
     gCovers := clear_covers (gCovers s)\<rparr>"
proof -
  obtain m1 where d1: "drop_field env gTx (\<lambda>s. s\<lparr>gTx := None\<rparr>) (s) =
      s\<lparr>mach := m1, gTx := None\<rparr>"
    using drop_field_mach [of env gTx "\<lambda>s. s\<lparr>gTx := None\<rparr>" "s"] by auto
  obtain m2 where d2: "drop_field env gCmd (\<lambda>s. s\<lparr>gCmd := None\<rparr>) (s\<lparr>mach := m1, gTx := None\<rparr>) =
      s\<lparr>gTx := None, mach := m2, gCmd := None\<rparr>"
    using drop_field_mach [of env gCmd "\<lambda>s. s\<lparr>gCmd := None\<rparr>" "s\<lparr>mach := m1, gTx := None\<rparr>"] by auto
  obtain m3 where d3: "drop_field env gCover (\<lambda>s. s\<lparr>gCover := None\<rparr>) (s\<lparr>gTx := None, mach := m2, gCmd := None\<rparr>) =
      s\<lparr>gTx := None, gCmd := None, mach := m3, gCover := None\<rparr>"
    using drop_field_mach [of env gCover "\<lambda>s. s\<lparr>gCover := None\<rparr>" "s\<lparr>gTx := None, mach := m2, gCmd := None\<rparr>"] by auto
  obtain m4 where d4: "drop_field env gFire (\<lambda>s. s\<lparr>gFire := None\<rparr>) (s\<lparr>gTx := None, gCmd := None, mach := m3, gCover := None\<rparr>) =
      s\<lparr>gTx := None, gCmd := None, gCover := None, mach := m4, gFire := None\<rparr>"
    using drop_field_mach [of env gFire "\<lambda>s. s\<lparr>gFire := None\<rparr>" "s\<lparr>gTx := None, gCmd := None, mach := m3, gCover := None\<rparr>"] by auto
  obtain m5 where d5: "drop_field env gSearchTx (\<lambda>s. s\<lparr>gSearchTx := None\<rparr>) (s\<lparr>gTx := None, gCmd := None, gCover := None, mach := m4, gFire := None\<rparr>) =
      s\<lparr>gTx := None, gCmd := None, gCover := None, gFire := None, mach := m5, gSearchTx := None\<rparr>"
    using drop_field_mach [of env gSearchTx "\<lambda>s. s\<lparr>gSearchTx := None\<rparr>" "s\<lparr>gTx := None, gCmd := None, gCover := None, mach := m4, gFire := None\<rparr>"] by auto
  obtain m6 where d6: "drop_field env gArtistTx (\<lambda>s. s\<lparr>gArtistTx := None\<rparr>) (s\<lparr>gTx := None, gCmd := None, gCover := None, gFire := None, mach := m5, gSearchTx := None\<rparr>) =
      s\<lparr>gTx := None, gCmd := None, gCover := None, gFire := None, gSearchTx := None, mach := m6, gArtistTx := None\<rparr>"
    using drop_field_mach [of env gArtistTx "\<lambda>s. s\<lparr>gArtistTx := None\<rparr>" "s\<lparr>gTx := None, gCmd := None, gCover := None, gFire := None, mach := m5, gSearchTx := None\<rparr>"] by auto
  obtain m7 where d7: "drop_field env gQueueTx (\<lambda>s. s\<lparr>gQueueTx := None\<rparr>) (s\<lparr>gTx := None, gCmd := None, gCover := None, gFire := None, gSearchTx := None, mach := m6, gArtistTx := None\<rparr>) =
      s\<lparr>gTx := None, gCmd := None, gCover := None, gFire := None, gSearchTx := None, gArtistTx := None, mach := m7, gQueueTx := None\<rparr>"
    using drop_field_mach [of env gQueueTx "\<lambda>s. s\<lparr>gQueueTx := None\<rparr>" "s\<lparr>gTx := None, gCmd := None, gCover := None, gFire := None, gSearchTx := None, mach := m6, gArtistTx := None\<rparr>"] by auto
  obtain m8 where d8: "drop_field env gFactTx (\<lambda>s. s\<lparr>gFactTx := None\<rparr>) (s\<lparr>gTx := None, gCmd := None, gCover := None, gFire := None, gSearchTx := None, gArtistTx := None, mach := m7, gQueueTx := None\<rparr>) =
      s\<lparr>gTx := None, gCmd := None, gCover := None, gFire := None, gSearchTx := None, gArtistTx := None, gQueueTx := None, mach := m8, gFactTx := None\<rparr>"
    using drop_field_mach [of env gFactTx "\<lambda>s. s\<lparr>gFactTx := None\<rparr>" "s\<lparr>gTx := None, gCmd := None, gCover := None, gFire := None, gSearchTx := None, gArtistTx := None, mach := m7, gQueueTx := None\<rparr>"] by auto
  obtain m9 where d9: "drop_field env gPls (\<lambda>s. s\<lparr>gPls := None\<rparr>) (s\<lparr>gTx := None, gCmd := None, gCover := None, gFire := None, gSearchTx := None, gArtistTx := None, gQueueTx := None, mach := m8, gFactTx := None\<rparr>) =
      s\<lparr>gTx := None, gCmd := None, gCover := None, gFire := None, gSearchTx := None, gArtistTx := None, gQueueTx := None, gFactTx := None, mach := m9, gPls := None\<rparr>"
    using drop_field_mach [of env gPls "\<lambda>s. s\<lparr>gPls := None\<rparr>" "s\<lparr>gTx := None, gCmd := None, gCover := None, gFire := None, gSearchTx := None, gArtistTx := None, gQueueTx := None, mach := m8, gFactTx := None\<rparr>"] by auto
  show ?thesis unfolding ApplyServerChange_def Let_def d1 d2 d3 d4 d5 d6 d7 d8 d9 by (intro exI [of _ m9]) simp
qed

lemma server_change_bg: "bg (ApplyServerChange env s) = (gSuspended s, None, None, None, None, gSnap s, cq_guard_reset (gGuard s))"
proof -
  obtain m where e: "ApplyServerChange env s = s\<lparr>gTx := None, gCmd := None, gCover := None, gFire := None,
     gSearchTx := None, gArtistTx := None, gQueueTx := None, gFactTx := None, mach := m, gPls := None,
     gGuard := cq_guard_reset (gGuard s), gBackoff := cq_backoff_init CQ_POLL_TICKS CQ_POLL_CAP,
     gQBackoff := cq_backoff_init CQ_QUEUE_POLL_TICKS CQ_POLL_CAP,
     gFBackoff := cq_backoff_init CQ_STREAM_POLL_TICKS CQ_POLL_CAP,
     gLastPoll := 0, gQueueLast := 0, gQueueKick := 0, gStreamProbe := 0, gHaveFact := False, gFactLast := 0,
     gCovers := clear_covers (gCovers s)\<rparr>" using server_change_eq by blast
  show ?thesis unfolding e by (simp add: bg_def)
qed

text \<open>An event leaves the view alone, or changes the server and drops every transaction.\<close>

definition repoints :: "app_event \<Rightarrow> bool" where
  "repoints e = (case e of OsEvt msg \<Rightarrow> True | AEScript d \<Rightarrow> True | _ \<Rightarrow> False)"

lemma script_bg:
  assumes "env_ok env rx tx" "DoScriptCmd env u cmd s = Some s'"
  shows "bg s' = bg s \<or> bg s' = (gSuspended s, None, None, None, None, gSnap s, cq_guard_reset (gGuard s))"
proof -
  have "bg v = bg s \<Longrightarrow> bg (ApplyServerChange env v) = (gSuspended s, None, None, None, None, gSnap s, cq_guard_reset (gGuard s))" for v
    using bgD [of v s] by (simp add: server_change_bg)
  then show ?thesis using bgk.script_keep [OF assms] by blast
qed

end
