(* ===== verification/AppProps.thy ===== *)
theory AppProps
  imports AppKeep
begin

text \<open>
  The application's properties over runs of its event loop: what the picture on screen may show, what
  a suspended program starts, how the queue, the repeat guard, the end-of-track watchdog, seeking and
  a change of the server behave.
\<close>

subsection \<open>The limbs of the loop\<close>

lemma HandleEvent_bg:
  assumes "env_ok env rx tx" "HandleEvent env u e s = Some s'" "\<not> repoints e" shows "bg s' = bg s"
  using assms(2,3) bgk.mouse_keep [of env u _ s s'] bgk.cmd_key_keep [OF assms(1), of u _ _ s s']
  by (auto simp: HandleEvent_def repoints_def split: app_event.splits)

definition dropped :: "('w, 'g) app \<Rightarrow> ('w, 'g) app \<Rightarrow> bool" where
  "dropped s s' \<longleftrightarrow> bg s' = (gSuspended s', None, None, None, None, gSnap s, cq_guard_reset (gGuard s))"

lemma HandleEvent_repoints:
  assumes "env_ok env rx tx" "HandleEvent env u e s = Some s'" "repoints e"
  shows "dropped s s' \<or> bg s' = bg (s\<lparr>gSuspended := gSuspended s'\<rparr>)"
    "e \<notin> range OsEvt \<Longrightarrow> gSuspended s' = gSuspended s"
proof -
  have suspended: "gSuspended (ApplyServerChange env v) = gSuspended v" for v :: "('a, 'b) app"
    using server_change_bg [of env v] by (simp add: bg_def)
  have reload: "bg (ReloadConfig env v) = bg v \<or>
      bg (ReloadConfig env v) = (gSuspended v, None, None, None, None, gSnap v, cq_guard_reset (gGuard v))" for v :: "('a, 'b) app"
    by (simp add: ReloadConfig_def Let_def server_change_bg split: prod.split)
  have script: "bg s' = bg s \<or> bg s' = (gSuspended s, None, None, None, None, gSnap s, cq_guard_reset (gGuard s))"
    if "e = AEScript d" for d
    using assms(2) that script_bg [OF assms(1)] by (auto simp: HandleEvent_def AEDoScriptHandler_def split: if_splits)
  have os: "dropped s s' \<or> bg s' = bg (s\<lparr>gSuspended := gSuspended s'\<rparr>)" if "e = OsEvt msg" for msg
  proof -
    have "s' = os_event env msg s" using assms(2) that by (simp add: HandleEvent_def)
    then show ?thesis using reload [of "s\<lparr>gSuspended := (msg AND 1 = 0)\<rparr>"]
      by (auto simp: os_event_def Let_def dropped_def bg_def)
  qed
  show "dropped s s' \<or> bg s' = bg (s\<lparr>gSuspended := gSuspended s'\<rparr>)"
    using assms(3) os script by (cases e) (auto simp: repoints_def dropped_def bg_def)
  show "e \<notin> range OsEvt \<Longrightarrow> gSuspended s' = gSuspended s"
    using assms(3) script by (cases e) (auto simp: repoints_def bg_def)
qed

text \<open>Every limb: the picture stays the guard's newest, and forward in time unless the server changed.\<close>

lemma refill_bg: "bg (if gPlaying s then fst (AudioDoubleBack s) else s) = bg s"
proof -
  obtain v out nf where r: "AudioDoubleBack s = (v, out, nf)" by (cases "AudioDoubleBack s") auto
  show ?thesis using frame_bg [OF double_back_frame' [OF r]] by (simp add: r)
qed

definition repoint_limb :: "limb \<Rightarrow> bool" where
  "repoint_limb l = (case l of LHandle e \<Rightarrow> repoints e | _ \<Rightarrow> False)"

lemma limb_forward:
  assumes "env_ok env rx tx" "limb_step env u l s = Some s'" "\<not> repoint_limb l" shows "forward s s'"
proof (cases l)
  case (LHandle e)
  then show ?thesis using assms(2,3) bg_forward(1) [OF HandleEvent_bg [OF assms(1)]]
    by (simp add: limb_step_def repoint_limb_def)
next
  case LTask
  have "bg (run_pump env s) = bg s" by (rule frame_bg) (rule small_frames(4))
  then show ?thesis using LTask assms(2) by (auto simp: limb_step_def intro: bg_forward(1) split: if_splits)
next
  case LRefill
  then show ?thesis using assms(2) bg_forward(1) [OF refill_bg [of s]] by (simp add: limb_step_def)
qed (use assms(2) PollNetwork_bg(1) PumpAux_keeps(1) [OF assms(1)] in \<open>auto simp: limb_step_def intro: bg_forward(1)\<close>)

lemma limb_shown:
  assumes "env_ok env rx tx" "limb_step env u l s = Some s'" "shown_ok s" shows "shown_ok s'"
proof (cases "repoint_limb l")
  case True
  then obtain e where e: "l = LHandle e" "repoints e" by (cases l) (auto simp: repoint_limb_def)
  then have "dropped s s' \<or> bg s' = bg (s\<lparr>gSuspended := gSuspended s'\<rparr>)"
    using HandleEvent_repoints(1) [OF assms(1)] assms(2) by (simp add: limb_step_def)
  then show ?thesis using assms(3) by (auto simp: dropped_def bg_def shown_ok_def cq_guard_reset_def)
next
  case False
  then show ?thesis using limb_forward [OF assms(1,2)] assms(3) by (simp add: forward_def)
qed

lemma run_shown: "env_ok env rx tx \<Longrightarrow> app_run env u ls s = Some s' \<Longrightarrow> shown_ok s \<Longrightarrow> shown_ok s'"
  by (induction ls arbitrary: s) (auto simp: bind_eq_Some_conv dest: limb_shown)

lemma run_forward:
  "env_ok env rx tx \<Longrightarrow> app_run env u ls s = Some s' \<Longrightarrow> list_all (\<lambda>l. \<not> repoint_limb l) ls \<Longrightarrow> forward s s'"
proof (induction ls arbitrary: s)
  case Nil
  then show ?case by (simp add: forward_def)
next
  case (Cons l ls)
  then obtain s1 where "limb_step env u l s = Some s1" "app_run env u ls s1 = Some s'" by (auto simp: bind_eq_Some_conv)
  then show ?case using Cons limb_forward [of env rx tx u l s s1] forward_trans by auto
qed

lemma boot_shown:
  assumes "env_ok env rx tx" "app_boot env opt s = Some s'" shows "shown_ok s'"
proof -
  obtain h p where l: "LoadPrefs (prefs_file s) (gHost s, gPort s) = (h, p)" by (cases "LoadPrefs (prefs_file s) (gHost s, gPort s)")
  define s1 where "s1 = s\<lparr>gGuard := cq_guard_init (gGuard s), gBackoff := cq_backoff_init CQ_POLL_TICKS CQ_POLL_CAP,
            gQBackoff := cq_backoff_init CQ_QUEUE_POLL_TICKS CQ_POLL_CAP,
            gFBackoff := cq_backoff_init CQ_STREAM_POLL_TICKS CQ_POLL_CAP,
            gCovers := cq_cache_init, gDeb := cq_debounce_init (gDeb s), gHost := h, gPort := p,
            gAutoStart := gAutoStart s \<and> \<not> opt, gSnap := cq_now_zero\<rparr>"
  have e: "app_boot env opt s = (if gAutoStart s1 \<and> gAuSt s1 = AU_IDLE then ToggleListen env s1 else Some s1)"
    unfolding app_boot_def Let_def s1_def by (simp add: l)
  have "bg s' = bg s1" using assms(2) e bgk.ToggleListen_keep [OF assms(1)] by (auto split: if_splits)
  then show ?thesis by (simp add: bg_def s1_def shown_ok_def cq_guard_init_def)
qed



subsection \<open>Suspended\<close>

lemma limb_quiet:
  assumes "env_ok env rx tx" "limb_step env u l s = Some s'" "\<forall>msg. l \<noteq> LHandle (OsEvt msg)" shows "quiet s s'"
proof (cases l)
  case (LHandle e)
  then have h: "HandleEvent env u e s = Some s'" using assms(2) by (simp add: limb_step_def)
  show ?thesis
  proof (cases "repoints e")
    case True
    have e: "e \<notin> range OsEvt" using assms(3) LHandle by auto
    show ?thesis using HandleEvent_repoints(1) [OF assms(1) h True] HandleEvent_repoints(2) [OF assms(1) h True e]
      by (auto simp: dropped_def bg_def quiet_def)
  qed (use HandleEvent_bg [OF assms(1) h] bg_quiet in blast)
next
  case LTask
  have "bg (run_pump env s) = bg s" by (rule frame_bg) (rule small_frames(4))
  then show ?thesis using LTask assms(2) by (auto simp: limb_step_def intro: bg_quiet split: if_splits)
next
  case LRefill
  then show ?thesis using assms(2) bg_quiet [OF refill_bg [of s]] by (simp add: limb_step_def)
qed (use assms(2) PollNetwork_bg(2) PumpAux_keeps(2) [OF assms(1)] in \<open>auto simp: limb_step_def intro: bg_quiet\<close>)

text \<open>C11. While the program is in the background, whatever else happens but a resume, it stays there and starts
no poll, no cover fetch, no queue poll and no media-fact poll of its own: a slot that is free stays
free, and a transaction in flight drains.\<close>

theorem suspended_starts_nothing:
  assumes "env_ok env rx tx" "app_run env u ls s = Some s'" "gSuspended s" "\<forall>msg. LHandle (OsEvt msg) \<notin> set ls"
  shows "gSuspended s' \<and> (gTx s = None \<longrightarrow> gTx s' = None) \<and> (gCover s = None \<longrightarrow> gCover s' = None) \<and>
    (gQueueTx s = None \<longrightarrow> gQueueTx s' = None) \<and> (gFactTx s = None \<longrightarrow> gFactTx s' = None)"
proof -
  have "quiet s s'" using assms(2,4)
  proof (induction ls arbitrary: s)
    case Nil
    then show ?case by (simp add: quiet_def)
  next
    case (Cons l ls)
    then obtain s1 where l: "limb_step env u l s = Some s1" and r: "app_run env u ls s1 = Some s'"
      by (auto simp: bind_eq_Some_conv)
    have "\<forall>msg. l \<noteq> LHandle (OsEvt msg)" using Cons.prems(2) by auto
    from quiet_trans [OF limb_quiet [OF assms(1) l this] Cons.IH [OF r]] Cons.prems(2) show ?case by simp
  qed
  then show ?thesis using assms(3) by (simp add: quiet_def no_start_def)
qed

theorem suspended_starts_nothing_witness:
  "\<exists>s'. app_run still_env demo_ui [LNet, LHandle (CmdKey CHR ''k'' 0), LView, LRefill] (demo_app\<lparr>gSuspended := True\<rparr>) = Some s' \<and>
     gTx s' = None \<and> gCmd s' \<noteq> None"
proof -
  let ?s = "demo_app\<lparr>gSuspended := True\<rparr>"
  have "\<not> cq_debounce_has (gDeb demo_app)"
    by (simp add: demo_app_def audio.extend_def cq_debounce_has_def)
  then have "\<exists>s'. app_run still_env demo_ui [LNet, LHandle (CmdKey CHR ''k'' 0), LView, LRefill] ?s = Some s' \<and> gCmd s' \<noteq> None"
    by (simp add: limb_step_def HandleEvent_def cmd_key_def PollNetwork_def pump_cover_def start_cover_def
        flush_command_def start_poll_def cq_now_zero_def)
      (simp add: TickView_def RenderView_def Redraw_def settle_intent_def wake_def StartCommand_def SetIntent_def open_tx_def Let_def)
  then obtain s' where r: "app_run still_env demo_ui [LNet, LHandle (CmdKey CHR ''k'' 0), LView, LRefill] ?s = Some s'"
    and c: "gCmd s' \<noteq> None" by blast
  have "gSuspended ?s" "gTx ?s = None" by simp_all
  with suspended_starts_nothing [OF still_env_ok r] c r show ?thesis by auto
qed

subsection \<open>Replies\<close>

primrec adopt_all :: "('w, 'g) app_env \<Rightarrow> (bytes \<times> bool) list \<Rightarrow> ('w, 'g) app \<Rightarrow> ('w, 'g) app option" where
  "adopt_all env [] s = Some s"
| "adopt_all env (r # rs) s = Option.bind (AdoptReply env (fst r) (snd r) s) (adopt_all env rs)"

text \<open>C10. An error reply never touches the picture, the guard or the command slot: the answer of a busy server
keeps the cadence, an old server's refusal of a list play turns to single plays and sends the fallback
request once, and every other error lengthens the cadence and is named on screen.\<close>

theorem error_reply_keeps_picture:
  assumes "cq_fields_get (cq_fields_parse cq_fields_init d) ''error'' = Some err"
  shows "\<exists>s'. AdoptReply env d isCmd s = Some s' \<and>
    gSnap s' = gSnap s \<and> gHaveSnap s' = gHaveSnap s \<and> gSnapTick s' = gSnapTick s \<and> gGuard s' = gGuard s \<and>
    gCmd s' = gCmd s \<and> gOnline s' \<and>
    (if err = ''rate_limited''
     then gBackoff s' = gBackoff s \<and> gLastMsg s' = ''Spotify busy - holding steady'' \<and> gFire s' = gFire s
     else if isCmd \<and> err = ''not_found'' \<and> gFallbackUri s \<noteq> []
     then gBackoff s' = gBackoff s \<and> gNativePlay s' = -1 \<and> gFallbackUri s' = [] \<and>
       (let sel = fallback_sel (gFallbackUri s) in
        gFire s' = (if gFire s = None \<and> \<not> fst (ActionRepeat env sel s) then open_tx env s sel else gFire s))
     else gBackoff s' = cq_backoff_fail (gBackoff s) \<and> gLastMsg s' = fits 128 (''server error: '' @ err) \<and>
       gFire s' = gFire s)"
proof -
  define s1 where "s1 = s\<lparr>gLastLen := wrap32 (int (length d)), gDone := wrap32 (gDone s + 1), gOnline := True\<rparr>"
  have e: "AdoptReply env d isCmd s = Some (Redraw env (adopt_error env isCmd err s1))"
    using assms by (simp add: AdoptReply_def Let_def s1_def)
  have view: "gFire (Redraw env v) = gFire v" "gNativePlay (Redraw env v) = gNativePlay v"
    "gFallbackUri (Redraw env v) = gFallbackUri v" "gBackoff (Redraw env v) = gBackoff v" "gLastMsg (Redraw env v) = gLastMsg v"
    "gSnap (Redraw env v) = gSnap v" "gHaveSnap (Redraw env v) = gHaveSnap v" "gSnapTick (Redraw env v) = gSnapTick v"
    "gGuard (Redraw env v) = gGuard v" "gCmd (Redraw env v) = gCmd v" "gOnline (Redraw env v) = gOnline v"
    for v :: "('a, 'b) app" by (simp_all add: Redraw_def RenderView_def settle_intent_def Let_def)
  have busy: "fits 128 ''Spotify busy - holding steady'' = ''Spotify busy - holding steady''" by (simp add: fits_def)
  show ?thesis unfolding e
    by (simp add: view) (simp add: busy adopt_error_def set_msg_def StartFire_def ActionRepeat_def open_tx_def TickCount_def Let_def s1_def)
qed

theorem error_reply_keeps_picture_witness:
  "\<exists>s'. AdoptReply still_env (''error'' @ [TAB] @ ''rate_limited'' @ [LF]) True demo_app = Some s' \<and>
     gSnap s' = cq_now_zero \<and> gLastMsg s' = ''Spotify busy - holding steady''"
proof -
  have "cq_fields_get (cq_fields_parse cq_fields_init (''error'' @ [TAB] @ ''rate_limited'' @ [LF])) ''error'' = Some ''rate_limited''"
    by code_simp
  from error_reply_keeps_picture [OF this, of still_env True demo_app] show ?thesis by auto
qed

subsection \<open>The end-of-track watchdog\<close>

text \<open>With the watchdog spent, a reply that is not a playing snapshot starts no command.\<close>

lemma spent_reply:
  assumes "AdoptReply env d isCmd s = Some s'" "gAutoNexted s" "gAutoWoke s"
    "case reply_snap d of Some n \<Rightarrow> now_state n \<noteq> CQ_STATE_PLAYING | None \<Rightarrow> True"
  shows "gAutoNexted s' \<and> gAutoWoke s' \<and> gCmd s' = gCmd s"
proof -
  define f where "f = cq_fields_parse cq_fields_init d"
  define s1 where "s1 = s\<lparr>gLastLen := wrap32 (int (length d)), gDone := wrap32 (gDone s + 1), gOnline := True\<rparr>"
  let ?k = "\<lambda>v. gAutoNexted v \<and> gAutoWoke v \<and> gCmd v = gCmd s"
  have k1: "?k s1" using assms(2,3) by (simp add: s1_def)
  have view: "?k (Redraw env v) = ?k v" for v by (simp add: Redraw_def RenderView_def settle_intent_def Let_def)
  have e: "map_option (Redraw env) (case cq_fields_get f ''error'' of Some err \<Rightarrow> Some (adopt_error env isCmd err s1)
      | None \<Rightarrow> adopt_good env isCmd (cq_now_from_fields f) s1) = Some s'"
    using assms(1) unfolding AdoptReply_def Let_def f_def s1_def .
  show ?thesis
  proof (cases "cq_fields_get f ''error''")
    case (Some err)
    have "?k (adopt_error env isCmd err s1)"
      using k1 by (simp add: adopt_error_def set_msg_def StartFire_def ActionRepeat_def Let_def)
    then show ?thesis using e Some view by auto
  next
    case None
    define n where "n = cq_now_from_fields f"
    have n: "now_state n \<noteq> CQ_STATE_PLAYING" using assms(4) None by (simp add: reply_snap_def Let_def f_def n_def)
    have w: "adopt_watchdog env n v = Some v" if "?k v" for v
      using that n by (simp add: adopt_watchdog_def track_ended_def)
    have snap: "?k (adopt_autostart env (adopt_snap env n h k v))" if "?k v" for v h k
      using that by (simp add: adopt_autostart_def adopt_snap_def set_vol_def UpdatePlayTitle_def Let_def)
    obtain s2 where g: "adopt_good env isCmd n s1 = Some s2" and s': "s' = Redraw env s2"
      using e None by (auto simp: n_def map_option_case split: option.splits)
    have "?k s2" using g k1 by (auto simp: adopt_good_def Let_def w snap split: prod.splits if_splits)
    then show ?thesis using view s' by simp
  qed
qed

text \<open>C13. The end-of-track watchdog is single-shot: once it has fired, no series of replies without a playing
snapshot, healthy or not, to polls or to commands, starts a command again.\<close>

theorem watchdog_single_shot:
  assumes "adopt_all env rs s = Some s'" "gAutoNexted s" "gAutoWoke s"
    "\<forall>r \<in> set rs. case reply_snap (fst r) of Some n \<Rightarrow> now_state n \<noteq> CQ_STATE_PLAYING | None \<Rightarrow> True"
  shows "gAutoNexted s' \<and> gCmd s' = gCmd s"
  using assms
proof (induction rs arbitrary: s)
  case (Cons r rs)
  then obtain s1 where a: "AdoptReply env (fst r) (snd r) s = Some s1" and b: "adopt_all env rs s1 = Some s'"
    by (auto simp: bind_eq_Some_conv)
  have k: "gAutoNexted s1 \<and> gAutoWoke s1 \<and> gCmd s1 = gCmd s"
    using spent_reply [OF a Cons.prems(2,3)] Cons.prems(4) by simp
  then have "gAutoNexted s' \<and> gCmd s' = gCmd s1" using Cons.IH [OF b] Cons.prems(4) by simp
  then show ?case using k by simp
qed simp

theorem watchdog_single_shot_witness:
  "\<exists>s'. adopt_all still_env [(''state'' @ [TAB] @ ''stopped'' @ [LF], False), (''error'' @ [TAB] @ ''upstream'' @ [LF], False)]
     (demo_app\<lparr>gAutoNexted := True, gAutoWoke := True\<rparr>) = Some s' \<and> gAutoNexted s' \<and> gCmd s' = None"
proof -
  let ?s = "demo_app\<lparr>gAutoNexted := True, gAutoWoke := True\<rparr>"
  let ?a = "''state'' @ [TAB] @ ''stopped'' @ [LF]" and ?b = "''error'' @ [TAB] @ ''upstream'' @ [LF]"
  have ra: "reply_snap ?a \<noteq> None" "now_state (the (reply_snap ?a)) \<noteq> CQ_STATE_PLAYING" by code_simp+
  have rb: "reply_snap ?b = None" by code_simp
  have "\<exists>s1. AdoptReply env ?a False ?s = Some s1" for env :: "(nat, unit) app_env"
    using ra by (auto simp: AdoptReply_def reply_snap_def adopt_good_def adopt_watchdog_def track_ended_def Let_def
        split: prod.splits if_splits option.splits)
  then obtain s1 where a: "AdoptReply still_env ?a False ?s = Some s1" by blast
  have "\<exists>s2. AdoptReply still_env ?b False s1 = Some s2"
    using rb by (auto simp: AdoptReply_def reply_snap_def Let_def split: option.splits if_splits)
  then obtain s2 where b: "AdoptReply still_env ?b False s1 = Some s2" by blast
  have run: "adopt_all still_env [(?a, False), (?b, False)] ?s = Some s2" using a b by simp
  have "\<forall>r \<in> set [(?a, False), (?b, False)]. case reply_snap (fst r) of Some n \<Rightarrow> now_state n \<noteq> CQ_STATE_PLAYING | None \<Rightarrow> True"
    using ra rb by (auto split: option.splits)
  from watchdog_single_shot [OF run _ _ this] run show ?thesis by auto
qed

text \<open>
  A stop that is learnt while a command is in flight, and so from every command's own reply, spends the
  watchdog without playing the next row.
\<close>

lemma watchdog_lost:
  assumes "track_ended tmp s" "gCmd s \<noteq> None" "0 \<le> gNativePlay s"
  shows "adopt_watchdog env tmp s = Some (s\<lparr>gAutoNexted := True\<rparr>)"
  using assms by (auto simp: adopt_watchdog_def PlayFrom_def Let_def split: option.split)

subsection \<open>The queue\<close>

primrec queue_run :: "('w, 'g) app_env \<Rightarrow> 'g ui \<Rightarrow> cq_track_list list \<Rightarrow> ('w, 'g) app \<Rightarrow> ('w, 'g) app option" where
  "queue_run env u [] s = Some s"
| "queue_run env u (q # qs) s = Option.bind (adopt_queue env u q s) (queue_run env u qs)"

lemma empty_replies:
  assumes "\<forall>q \<in> set qs. titems q = []" "gQueueEmptyRuns s = int n" "n + length qs < 2 ^ 31"
    "n < 2 \<longrightarrow> titems (gQueueItems s) \<noteq> []" "2 \<le> n \<longrightarrow> gQueueItems s = cq_track_list_empty"
    "queue_rows s = FillList (u_conv u) (gQueueItems s)"
  shows "\<exists>s'. queue_run env u qs s = Some s' \<and>
    gQueueItems s' = (if n + length qs < 2 then gQueueItems s else cq_track_list_empty) \<and>
    queue_rows s' = FillList (u_conv u) (gQueueItems s')"
  using assms
proof (induction qs arbitrary: s n)
  case (Cons q qs)
  have c: "wrap32 (int n + 1) = int (Suc n)" using Cons.prems(3) by (subst wrap32_id) simp_all
  define s1 where "s1 = (if n = 1 then fill_queue u (s\<lparr>gQueueEmptyRuns := int (Suc n), gQueueItems := cq_track_list_empty\<rparr>)
    else s\<lparr>gQueueEmptyRuns := int (Suc n)\<rparr>)"
  have a: "adopt_queue env u q s = Some s1"
    using Cons.prems(1,2,4,5) c by (auto simp: adopt_queue_def Let_def s1_def cq_track_list_empty_def)
  have "\<exists>s'. queue_run env u qs s1 = Some s' \<and>
    gQueueItems s' = (if Suc n + length qs < 2 then gQueueItems s1 else cq_track_list_empty) \<and>
    queue_rows s' = FillList (u_conv u) (gQueueItems s')"
    by (rule Cons.IH) (use Cons.prems in \<open>auto simp: s1_def fill_queue_def cq_track_list_empty_def\<close>)
  then show ?case using a by (auto simp: s1_def split: if_splits)
qed auto

text \<open>C31. One spurious empty answer does not wipe the visible queue: after a list with rows, the queue and the rows
on screen are that list while at most one empty reply has followed, and empty from the second on.\<close>

theorem queue_second_empty:
  assumes "titems q \<noteq> []" "\<not> gAutoPlayPending s" "\<forall>e \<in> set es. titems e = []" "length es < 2 ^ 31"
  shows "\<exists>s'. queue_run env u (q # es) s = Some s' \<and>
    gQueueItems s' = (if length es < 2 then q else cq_track_list_empty) \<and>
    queue_rows s' = FillList (u_conv u) (gQueueItems s')"
proof -
  define s1 where "s1 = (fill_queue u (s\<lparr>gQueueItems := q\<rparr>))\<lparr>gQueueEmptyRuns := 0\<rparr>"
  have "adopt_queue env u q s = Some s1" using assms(1,2) by (simp add: adopt_queue_def Let_def s1_def fill_queue_def)
  moreover have "\<exists>s'. queue_run env u es s1 = Some s' \<and>
      gQueueItems s' = (if 0 + length es < 2 then gQueueItems s1 else cq_track_list_empty) \<and>
      queue_rows s' = FillList (u_conv u) (gQueueItems s')"
    by (rule empty_replies) (use assms in \<open>simp_all add: s1_def fill_queue_def\<close>)
  ultimately show ?thesis by (auto simp: s1_def fill_queue_def)
qed

theorem queue_second_empty_witness:
  "\<exists>q s'. queue_run still_env demo_ui [q, cq_track_list_empty, cq_track_list_empty] demo_app = Some s' \<and>
     titems q \<noteq> [] \<and> gQueueItems s' = cq_track_list_empty"
proof -
  define q where "q = cq_track_list_empty\<lparr>titems := [\<lparr>it_uri = None, it_track = Some ''x'', it_artist = None, it_album_id = None, it_duration_ms = 0\<rparr>]\<rparr>"
  have "titems q \<noteq> []" by (simp add: q_def)
  from queue_second_empty [OF this, of demo_app "[cq_track_list_empty, cq_track_list_empty]" still_env demo_ui] this
  show ?thesis by (auto simp: cq_track_list_empty_def)
qed

subsection \<open>The repeat guard\<close>

text \<open>C32. After an accepted action, the same action is swallowed exactly while 40 ticks have not passed and its text
fits the 239 characters that are remembered; another action is swallowed only when it equals the
remembered beginning of a longer one. So a request that is longer, such as a list play of many
ids, is never debounced.\<close>

theorem action_guard_exact:
  assumes "ActionRepeat env sel s = (False, s1)" "gLastAction t = gLastAction s1" "gLastActionTick t = gLastActionTick s1"
  shows "(fst (ActionRepeat env sel t) \<longleftrightarrow>
      sel \<noteq> [] \<and> length sel < 240 \<and> sint (TickCount env t - TickCount env s) < 40) \<and>
    (\<forall>other. fst (ActionRepeat env other t) \<longrightarrow> other = take 239 sel \<and> sint (TickCount env t - TickCount env s) < 40)"
proof -
  have k: "gLastAction t = take 239 sel" "gLastActionTick t = TickCount env s"
    using assms by (auto simp: ActionRepeat_def Let_def fits_def split: if_splits)
  have "take 239 sel = sel \<longleftrightarrow> length sel < 240" by (auto simp: take_all_iff)
  then have "sel = take 239 sel \<longleftrightarrow> length sel < 240" by metis
  then show ?thesis using k by (simp add: ActionRepeat_def Let_def)
qed

theorem action_guard_exact_witness:
  "fst (ActionRepeat still_env ''/spot/api/1/play'' (snd (ActionRepeat still_env ''/spot/api/1/play'' demo_app)))"
proof -
  let ?e = "still_env :: (nat, unit) app_env"
  have a: "ActionRepeat ?e ''/spot/api/1/play'' demo_app = (False, snd (ActionRepeat ?e ''/spot/api/1/play'' demo_app))"
    by (simp add: ActionRepeat_def Let_def)
  have "TickCount ?e (snd (ActionRepeat ?e ''/spot/api/1/play'' demo_app)) = TickCount ?e demo_app"
    by (simp add: ActionRepeat_def TickCount_def Let_def)
  with action_guard_exact [OF a refl refl] show ?thesis by simp
qed

subsection \<open>Seeking\<close>



subsection \<open>Changing the server\<close>

lemma clear_covers_none: "cq_cache_count (clear_covers c) = 0"
  by (induction c rule: clear_covers.induct) (subst clear_covers.simps, simp)

lemma start_poll_due:
  assumes "gBackoff s = cq_backoff_init CQ_POLL_TICKS CQ_POLL_CAP" "gLastPoll s = 0" "\<not> gSuspended s" "150 \<le> TickCount env s"
  shows "gTx (start_poll env s) = open_tx env s ''/spot/api/1/now''"
proof -
  let ?i = "cq_backoff_interval_seeded (gBackoff s) (TickCount env s)"
  have "current (gBackoff s) = 120" using assms(1) by (simp add: cq_backoff_init_def)
  then have "120 \<le> ?i" "?i \<le> 150" using seeded_bounds [of "gBackoff s" "TickCount env s"] by simp_all
  then have "(of_int ?i :: u32) \<le> 150" by (simp add: word_le_def uint_word_of_int)
  then have "of_int ?i \<le> TickCount env s" using assms(4) by (rule order_trans)
  then show ?thesis using assms(2,3) by (simp add: start_poll_def Let_def open_tx_def TickCount_def)
qed

text \<open>C12. After a change of the server nothing is in flight against the old one, the covers are gone, every reply
is let through whatever its timestamp, the cadences start afresh, and the next pass polls the new server
unless the program is suspended or the machine is up for less than two and a half seconds; the picture
on screen, the audio engine and, unlike the media-fact probe, the outcome of the list-play probe stay.\<close>

theorem server_change:
  fixes s :: "('w, 'g) app" and env :: "('w, 'g) app_env"
  defines "s' \<equiv> ApplyServerChange env s"
  shows "TxInFlight s' = 0 \<and> gArtistTx s' = None \<and> cq_cache_count (gCovers s') = 0 \<and>
    fst (cq_guard_accept_ts (gGuard s') ts) \<and>
    current (gBackoff s') = CQ_POLL_TICKS \<and> current (gQBackoff s') = CQ_QUEUE_POLL_TICKS \<and>
    current (gFBackoff s') = CQ_STREAM_POLL_TICKS \<and> gStreamProbe s' = 0 \<and> \<not> gHaveFact s' \<and>
    gSnap s' = gSnap s \<and> gHaveSnap s' = gHaveSnap s \<and> gHost s' = gHost s \<and> gPort s' = gPort s \<and>
    gStream s' = gStream s \<and> gAuSt s' = gAuSt s \<and> gPlaying s' = gPlaying s \<and> gDec s' = gDec s \<and>
    gNativePlay s' = gNativePlay s \<and> gFallbackUri s' = gFallbackUri s \<and>
    (gTx (start_poll env s') = open_tx env s' ''/spot/api/1/now'' \<or> gSuspended s \<or> TickCount env s' < 150)"
proof -
  obtain m where e: "s' = s\<lparr>gTx := None, gCmd := None, gCover := None, gFire := None,
     gSearchTx := None, gArtistTx := None, gQueueTx := None, gFactTx := None, mach := m, gPls := None,
     gGuard := cq_guard_reset (gGuard s), gBackoff := cq_backoff_init CQ_POLL_TICKS CQ_POLL_CAP,
     gQBackoff := cq_backoff_init CQ_QUEUE_POLL_TICKS CQ_POLL_CAP,
     gFBackoff := cq_backoff_init CQ_STREAM_POLL_TICKS CQ_POLL_CAP,
     gLastPoll := 0, gQueueLast := 0, gQueueKick := 0, gStreamProbe := 0, gHaveFact := False, gFactLast := 0,
     gCovers := clear_covers (gCovers s)\<rparr>" using server_change_eq unfolding s'_def by blast
  have "gTx (start_poll env s') = open_tx env s' ''/spot/api/1/now''" if "\<not> gSuspended s" "150 \<le> TickCount env s'"
    by (rule start_poll_due) (use that in \<open>simp_all add: e\<close>)
  moreover have "TxInFlight s' = 0 \<and> gArtistTx s' = None \<and> cq_cache_count (gCovers s') = 0 \<and>
    fst (cq_guard_accept_ts (gGuard s') ts) \<and>
    current (gBackoff s') = CQ_POLL_TICKS \<and> current (gQBackoff s') = CQ_QUEUE_POLL_TICKS \<and>
    current (gFBackoff s') = CQ_STREAM_POLL_TICKS \<and> gStreamProbe s' = 0 \<and> \<not> gHaveFact s' \<and>
    gSnap s' = gSnap s \<and> gHaveSnap s' = gHaveSnap s \<and> gHost s' = gHost s \<and> gPort s' = gPort s \<and>
    gStream s' = gStream s \<and> gAuSt s' = gAuSt s \<and> gPlaying s' = gPlaying s \<and> gDec s' = gDec s \<and>
    gNativePlay s' = gNativePlay s \<and> gFallbackUri s' = gFallbackUri s"
    by (simp add: e TxInFlight_def clear_covers_none cq_guard_accept_ts_def cq_guard_reset_def cq_backoff_init_def)
  ultimately show ?thesis by (meson not_le)
qed

subsection \<open>Loose ends\<close>

text \<open>
  A list play that the repeat guard swallows has armed the fallback without a command of its own, so the
  refusal of a later command, whatever it was, turns list plays off for good.
\<close>

lemma play_from_swallowed:
  assumes "0 \<le> row" "nat row < length its" "it_uri (its ! nat row) = Some uri" "0 \<le> gNativePlay s" "gCmd s = None"
    "uri_id (Some uri) = Some d" "d \<noteq> []" "from_sel d (drop (nat row + 1) its) = Some sel" "fst (ActionRepeat env sel s)"
  shows "PlayFrom env its row None s = Some (s\<lparr>gFallbackUri := fits 128 uri\<rparr>)"
  using assms by (auto simp: PlayFrom_def ActionRepeat_def TickCount_def Let_def split: if_splits)

lemma stale_fallback: "gFallbackUri s \<noteq> [] \<Longrightarrow> gNativePlay (adopt_error env True ''not_found'' s) = -1"
  by (simp add: adopt_error_def StartFire_def ActionRepeat_def Let_def)

text \<open>
  A search from inside an artist's albums leaves the albums on display until its reply comes, while
  clicks are already resolved against the earlier search.
\<close>

lemma search_keeps_rows:
  assumes "gAlbumBrowse s" "cview (take 127 (search_text s)) \<noteq> []"
    "\<not> fst (ActionRepeat env (search_sel (u_convout u) (cview (take 127 (search_text s)))) s)"
  shows "search_rows (RunSearch env u s) = search_rows s" "ResultKindAt s 0 = (CQ_ROW_BACK, None)"
    "fst (ResultKindAt (RunSearch env u s) 0) \<noteq> CQ_ROW_BACK"
proof -
  obtain s1 where a: "ActionRepeat env (search_sel (u_convout u) (cview (take 127 (search_text s)))) s = (False, s1)"
    using assms(3) by (cases "ActionRepeat env (search_sel (u_convout u) (cview (take 127 (search_text s)))) s") auto
  have s1: "search_rows s1 = search_rows s" using a by (auto simp: ActionRepeat_def Let_def split: if_splits)
  have d: "search_rows (drop_tx env v t) = search_rows v" "gAlbumBrowse (drop_tx env v t) = gAlbumBrowse v"
    for v :: "('a, 'b) app" and t by (simp_all add: drop_tx_def split: option.split)
  have r: "search_rows (RunSearch env u s) = search_rows s \<and> \<not> gAlbumBrowse (RunSearch env u s)"
    using assms(2) s1 by (simp add: RunSearch_def Let_def a d)
  then show "search_rows (RunSearch env u s) = search_rows s" ..
  show "ResultKindAt s 0 = (CQ_ROW_BACK, None)" using assms(1) by (simp add: ResultKindAt_def)
  show "fst (ResultKindAt (RunSearch env u s) 0) \<noteq> CQ_ROW_BACK" using r by (simp add: ResultKindAt_def Let_def)
qed

end
