(* ===== verification/PosixUdp.thy ===== *)
theory PosixUdp
  imports TransportPosix
begin

text \<open>
  The one-shot datagram of the BSD-socket implementation (\<open>cq_tx_udp\<close> and its counters in
  \<open>cq_transport_posix.c\<close>), best effort with its errors counted. The system's calls are a
  parameter: each answers its result and the error number it leaves. An address is known by its text.
\<close>

datatype udp_call = USocket | InetPton cstr | SendTo int cstr int bytes

type_synonym 'w udp_sys = "'w \<Rightarrow> udp_call \<Rightarrow> 'w \<times> int \<times> int"

text \<open>The socket is untried (-2), dead (-1) or open.\<close>

record px_udp =
  ufd :: int
  g_udp_ok :: int
  g_udp_fail :: int
  g_udp_lasterr :: int

definition px_udp_boot :: px_udp where
  "px_udp_boot = \<lparr>ufd = -2, g_udp_ok = 0, g_udp_fail = 0, g_udp_lasterr = 0\<rparr>"

definition cq_tx_udp_stats :: "px_udp \<Rightarrow> int \<times> int \<times> int" where
  "cq_tx_udp_stats u = (g_udp_ok u, g_udp_fail u, g_udp_lasterr u)"

definition udp_socket :: "'w udp_sys \<Rightarrow> 'w \<Rightarrow> px_udp \<Rightarrow> 'w \<times> px_udp" where
  "udp_socket sys w u =
     (if ufd u = -2 then (case sys w USocket of (w, r, e) \<Rightarrow> (w, u\<lparr>ufd := (if r < 0 then -1 else r)\<rparr>))
      else (w, u))"

definition udp_send :: "'w udp_sys \<Rightarrow> cstr \<Rightarrow> int \<Rightarrow> bytes \<Rightarrow> 'w \<Rightarrow> px_udp \<Rightarrow> 'w \<times> px_udp" where
  "udp_send sys h p d w u =
     (case sys w (InetPton h) of (w, r, e) \<Rightarrow>
        if r \<noteq> 1 then (w, u)
        else (case sys w (SendTo (ufd u) h (p mod 65536) d) of (w, n, e) \<Rightarrow>
          (w, if n = int (length d) then u\<lparr>g_udp_ok := g_udp_ok u + 1\<rparr>
              else u\<lparr>g_udp_fail := g_udp_fail u + 1, g_udp_lasterr := e\<rparr>)))"

definition cq_tx_udp :: "'w udp_sys \<Rightarrow> cstr option \<Rightarrow> int \<Rightarrow> bytes option \<Rightarrow> 'w \<times> px_udp \<Rightarrow> 'w \<times> px_udp" where
  "cq_tx_udp sys h p d wu =
     (case wu of (w, u) \<Rightarrow>
      case (h, d) of
        (Some h, Some d) \<Rightarrow>
          if d = [] \<or> ufd u = -1 then (w, u)
          else (case udp_socket sys w u of (w, u) \<Rightarrow> if ufd u < 0 then (w, u) else udp_send sys h p d w u)
      | _ \<Rightarrow> (w, u))"

subsection \<open>Accounting\<close>

definition udp_run :: "'w udp_sys \<Rightarrow> (cstr option \<times> int \<times> bytes option) list \<Rightarrow> 'w \<times> px_udp \<Rightarrow> 'w \<times> px_udp" where
  "udp_run sys ms wu = fold (\<lambda>(h, p, d). cq_tx_udp sys h p d) ms wu"

text \<open>\<open>obs\<close> observes the calls a world has answered, each with its result.\<close>

definition udp_seen :: "'w udp_sys \<Rightarrow> ('w \<Rightarrow> (udp_call \<times> int) list) \<Rightarrow> bool" where
  "udp_seen sys obs \<longleftrightarrow> (\<forall>w c w' r e. sys w c = (w', r, e) \<longrightarrow> obs w' = obs w @ [(c, r)])"

lemma udp_seenD: "udp_seen sys obs \<Longrightarrow> sys w c = (w', r, e) \<Longrightarrow> obs w' = obs w @ [(c, r)]"
  by (auto simp: udp_seen_def)

fun sockets :: "(udp_call \<times> int) list \<Rightarrow> int list" where
  "sockets [] = []"
| "sockets ((USocket, r) # cs) = r # sockets cs"
| "sockets (_ # cs) = sockets cs"

fun sends :: "(udp_call \<times> int) list \<Rightarrow> (int \<times> bytes \<times> int) list" where
  "sends [] = []"
| "sends ((SendTo f h p d, r) # cs) = (f, d, r) # sends cs"
| "sends (_ # cs) = sends cs"

lemma sockets_append [simp]: "sockets (a @ b) = sockets a @ sockets b"
  by (induction a rule: sockets.induct) simp_all

lemma sends_append [simp]: "sends (a @ b) = sends a @ sends b"
  by (induction a rule: sends.induct) simp_all

text \<open>What the counters and the socket say of the calls made.\<close>

definition went_whole :: "int \<times> bytes \<times> int \<Rightarrow> bool" where
  "went_whole x = (case x of (f, d, r) \<Rightarrow> r = int (length d))"

definition udp_books :: "px_udp \<Rightarrow> (udp_call \<times> int) list \<Rightarrow> bool" where
  "udp_books u cs \<longleftrightarrow> -2 \<le> ufd u \<and>
     length (sockets cs) = (if ufd u = -2 then 0 else 1) \<and>
     (ufd u \<ge> 0 \<longrightarrow> sockets cs = [ufd u]) \<and>
     (\<forall>x \<in> set (sends cs). fst x = ufd u \<and> fst x \<ge> 0 \<and> fst (snd x) \<noteq> []) \<and>
     g_udp_ok u = int (length (filter went_whole (sends cs))) \<and>
     g_udp_fail u = int (length (filter (\<lambda>x. \<not> went_whole x) (sends cs)))"

lemma udp_socket_books:
  assumes "udp_seen sys obs" "udp_books u (obs w)" "udp_socket sys w u = (w', u')"
  shows "udp_books u' (obs w')" "ufd u' \<noteq> -2"
proof -
  have "udp_books u' (obs w') \<and> ufd u' \<noteq> -2"
  proof (cases "ufd u = -2")
    case True
    obtain w1 r e where c: "sys w USocket = (w1, r, e)" by (cases "sys w USocket") auto
    then have "w' = w1" "u' = u\<lparr>ufd := (if r < 0 then -1 else r)\<rparr>" using assms(3) True by (auto simp: udp_socket_def)
    moreover have "sockets (obs w) = []" using assms(2) True by (simp add: udp_books_def)
    moreover have "False" if "x \<in> set (sends (obs w))" for x
      using assms(2) [unfolded udp_books_def] that True by force
    then have "sends (obs w) = []" by (cases "sends (obs w)") auto
    ultimately show ?thesis using assms(2) udp_seenD [OF assms(1) c] by (cases "r < 0") (simp_all add: udp_books_def)
  next
    case False
    then show ?thesis using assms(2,3) by (simp add: udp_socket_def)
  qed
  then show "udp_books u' (obs w')" "ufd u' \<noteq> -2" by blast+
qed

lemma udp_send_books:
  assumes "udp_seen sys obs" "udp_books u (obs w)" "udp_send sys h p d w u = (w', u')" "0 \<le> ufd u" "d \<noteq> []"
  shows "udp_books u' (obs w')"
proof -
  obtain w1 r e where a: "sys w (InetPton h) = (w1, r, e)" by (cases "sys w (InetPton h)") auto
  obtain w2 n e2 where b: "sys w1 (SendTo (ufd u) h (p mod 65536) d) = (w2, n, e2)"
    by (cases "sys w1 (SendTo (ufd u) h (p mod 65536) d)") auto
  note o = udp_seenD [OF assms(1) a] udp_seenD [OF assms(1) b]
  show ?thesis
  proof (cases "r = 1")
    case True
    then have "w' = w2" "u' = (if n = int (length d) then u\<lparr>g_udp_ok := g_udp_ok u + 1\<rparr>
        else u\<lparr>g_udp_fail := g_udp_fail u + 1, g_udp_lasterr := e2\<rparr>)"
      using assms(3) by (simp_all add: udp_send_def a b)
    then show ?thesis using assms(2,4,5) o by (auto simp: udp_books_def went_whole_def)
  next
    case False
    then show ?thesis using assms(2,3) o by (auto simp: udp_send_def a udp_books_def)
  qed
qed

lemma udp_step_books:
  assumes "udp_seen sys obs" "udp_books u (obs w)" "cq_tx_udp sys h p d (w, u) = (w', u')"
  shows "udp_books u' (obs w')"
proof (cases "\<exists>h' d'. h = Some h' \<and> d = Some d' \<and> d' \<noteq> [] \<and> ufd u \<noteq> -1")
  case True
  then obtain h' d' where s: "h = Some h'" "d = Some d'" "d' \<noteq> []" "ufd u \<noteq> -1" by blast
  obtain w1 u1 where c: "udp_socket sys w u = (w1, u1)" by (cases "udp_socket sys w u")
  note k = udp_socket_books [OF assms(1,2) c]
  show ?thesis
  proof (cases "ufd u1 < 0")
    case True
    then show ?thesis using assms(3) k(1) s by (simp add: cq_tx_udp_def c)
  next
    case False
    then have "udp_send sys h' p d' w1 u1 = (w', u')" using assms(3) s by (simp add: cq_tx_udp_def c)
    then show ?thesis using udp_send_books [OF assms(1) k(1)] False s(3) by simp
  qed
next
  case False
  then have "(w', u') = (w, u)" using assms(3) by (auto simp: cq_tx_udp_def split: option.splits)
  then show ?thesis using assms(2) by simp
qed

text \<open>Over any run of messages the socket is opened once at most, every datagram goes out on it, and the
counters tell the datagrams that left whole from those that did not.\<close>

lemma udp_accounts:
  assumes "udp_seen sys obs" "obs w = []" "udp_run sys ms (w, px_udp_boot) = (w', u')"
  shows "udp_books u' (obs w')"
proof -
  have "udp_run sys ms (w, u) = (w', u') \<Longrightarrow> udp_books u (obs w) \<Longrightarrow> udp_books u' (obs w')" for w u
  proof (induction ms arbitrary: w u)
    case (Cons m ms)
    obtain h p d where m: "m = (h, p, d)" by (cases m)
    obtain w1 u1 where c: "cq_tx_udp sys h p d (w, u) = (w1, u1)" by (cases "cq_tx_udp sys h p d (w, u)")
    have "udp_run sys ms (w1, u1) = (w', u')" using Cons.prems(1) by (simp add: udp_run_def m c)
    then show ?case using Cons.IH udp_step_books [OF assms(1) Cons.prems(2) c] by blast
  qed (simp add: udp_run_def)
  moreover have "udp_books px_udp_boot (obs w)" using assms(2) by (simp add: udp_books_def px_udp_boot_def)
  ultimately show ?thesis using assms(3) by blast
qed

end
