(* ===== verification/Tools.thy ===== *)
theory Tools
  imports TransportPosix Mp3 Now AppText
begin

text \<open>
  The host-side programs: \<open>tools/mp3scan.c\<close>, the forensics of a captured stream over the header reader,
  and \<open>tools/probe.c\<close>, one fetch of the snapshot over the POSIX transport. What they print is kept as
  values. The duration in seconds, a floating-point sum that is only printed, is left out.
\<close>

subsection \<open>The stream scanner\<close>

datatype scan_line = Gap nat nat | Flip nat cq_mp3_frame cq_mp3_frame

record scan =
  s_off :: nat
  s_frames :: nat
  s_gaps :: nat
  s_gap_bytes :: nat
  s_flips :: nat
  s_prev :: "cq_mp3_frame option"
  s_cur :: "cq_mp3_frame option"
  s_lines :: "scan_line list"

definition scan_start :: scan where
  "scan_start = \<lparr>s_off = 0, s_frames = 0, s_gaps = 0, s_gap_bytes = 0, s_flips = 0, s_prev = None, s_cur = None,
     s_lines = []\<rparr>"

definition flips :: "cq_mp3_frame option \<Rightarrow> cq_mp3_frame \<Rightarrow> bool" where
  "flips prev cur = (case prev of None \<Rightarrow> False
     | Some p \<Rightarrow> bitrate_kbps cur \<noteq> bitrate_kbps p \<or> samplerate cur \<noteq> samplerate p \<or> channels cur \<noteq> channels p)"

text \<open>Lost synchronisation skips to the next confirmed frame, which is never where the header failed.\<close>

lemma sync_moves: "cq_mp3_parse buf = None \<Longrightarrow> cq_mp3_sync buf = Some (k, f) \<Longrightarrow> 0 < k"
  using sync_Some [of buf k f] by (cases "k = 0") (auto simp: confirmed_def)

definition scan_frame :: "cq_mp3_frame \<Rightarrow> scan \<Rightarrow> scan" where
  "scan_frame cur s =
     (let flip = flips (s_prev s) cur in
      s\<lparr>s_flips := s_flips s + (if flip then 1 else 0),
        s_lines := s_lines s @ (if flip then [Flip (s_off s) (the (s_prev s)) cur] else []),
        s_prev := Some cur, s_cur := Some cur, s_frames := s_frames s + 1,
        s_off := s_off s + nat (frame_bytes cur)\<rparr>)"

definition scan_gap :: "nat \<Rightarrow> cq_mp3_frame \<Rightarrow> scan \<Rightarrow> scan" where
  "scan_gap k f s = s\<lparr>s_gaps := s_gaps s + 1, s_gap_bytes := s_gap_bytes s + k,
     s_lines := s_lines s @ [Gap (s_off s) k], s_cur := Some f, s_off := s_off s + k\<rparr>"

function scan_loop :: "bytes \<Rightarrow> scan \<Rightarrow> scan" where
  "scan_loop buf s =
     (if s_off s + 4 \<le> length buf then
        (case cq_mp3_parse (drop (s_off s) buf) of
           None \<Rightarrow>
             (case cq_mp3_sync (drop (s_off s) buf) of
                None \<Rightarrow> s
              | Some (k, f) \<Rightarrow> scan_loop buf (scan_gap k f s))
         | Some cur \<Rightarrow>
             if s_off s + nat (frame_bytes cur) > length buf then s\<lparr>s_cur := Some cur\<rparr>
             else scan_loop buf (scan_frame cur s))
      else s)"
  by pat_completeness auto
termination
proof (relation "measure (\<lambda>(buf, s). length buf - s_off s)")
  fix buf and s :: scan and p k f
  assume "s_off s + 4 \<le> length buf" "cq_mp3_parse (drop (s_off s) buf) = None"
    "cq_mp3_sync (drop (s_off s) buf) = Some p" "(k, f) = p"
  then show "((buf, scan_gap k f s), buf, s) \<in> measure (\<lambda>(buf, s). length buf - s_off s)"
    using sync_moves [of "drop (s_off s) buf" k f] by (auto simp: scan_gap_def)
next
  fix buf and s :: scan and cur
  assume "s_off s + 4 \<le> length buf" "cq_mp3_parse (drop (s_off s) buf) = Some cur"
  then show "((buf, scan_frame cur s), buf, s) \<in> measure (\<lambda>(buf, s). length buf - s_off s)"
    using parse_bounds [of "drop (s_off s) buf" cur] by (auto simp: scan_frame_def Let_def)
qed simp

declare scan_loop.simps [simp del]

definition mp3scan :: "bytes \<Rightarrow> scan" where
  "mp3scan buf = scan_loop buf scan_start"

text \<open>The changes of format along a list of frames.\<close>

fun changes :: "cq_mp3_frame option \<Rightarrow> cq_mp3_frame list \<Rightarrow> nat" where
  "changes prev [] = 0"
| "changes prev (f # fs) = (if flips prev f then 1 else 0) + changes (Some f) fs"

lemma scan_chain:
  assumes "chain (drop (s_off s) buf) fs" "s_off s \<le> length buf"
  shows "\<exists>t. scan_loop buf s = scan_loop buf t \<and> s_off t = s_off s + span fs \<and> s_frames t = s_frames s + length fs \<and>
    s_gaps t = s_gaps s \<and> s_gap_bytes t = s_gap_bytes s \<and> s_flips t = s_flips s + changes (s_prev s) fs \<and>
    s_off t \<le> length buf"
  using assms
proof (induction fs arbitrary: s)
  case Nil
  then show ?case by (intro exI [of _ s]) simp
next
  case (Cons f fs)
  let ?b = "drop (s_off s) buf"
  have p: "cq_mp3_parse ?b = Some f" "nat (frame_bytes f) \<le> length ?b" "chain (drop (nat (frame_bytes f)) ?b) fs"
    using Cons.prems(1) by simp_all
  have room: "s_off s + 4 \<le> length buf" using parse_length [OF p(1)] by simp
  have fit: "s_off s + nat (frame_bytes f) \<le> length buf" using p(2) Cons.prems(2) by simp
  have step: "scan_loop buf s = scan_loop buf (scan_frame f s)"
    using room fit p(1) by (subst scan_loop.simps) simp
  have k: "s_off (scan_frame f s) = s_off s + nat (frame_bytes f)" "s_frames (scan_frame f s) = s_frames s + 1"
    "s_gaps (scan_frame f s) = s_gaps s" "s_gap_bytes (scan_frame f s) = s_gap_bytes s" "s_prev (scan_frame f s) = Some f"
    "s_flips (scan_frame f s) = s_flips s + (if flips (s_prev s) f then 1 else 0)"
    by (simp_all add: scan_frame_def Let_def)
  from Cons.IH [of "scan_frame f s"] p(3) fit obtain t where
    "scan_loop buf (scan_frame f s) = scan_loop buf t \<and> s_off t = s_off s + nat (frame_bytes f) + span fs \<and>
     s_frames t = s_frames s + 1 + length fs \<and> s_gaps t = s_gaps s \<and> s_gap_bytes t = s_gap_bytes s \<and>
     s_flips t = s_flips s + (if flips (s_prev s) f then 1 else 0) + changes (Some f) fs \<and> s_off t \<le> length buf"
    by (auto simp: k add.commute)
  then show ?case using step by (intro exI [of _ t]) simp
qed

text \<open>A capture as whole frames and stretches of junk, laid end to end.\<close>

datatype piece = Frame cq_mp3_frame | Junk nat

fun size_of :: "piece \<Rightarrow> nat" where
  "size_of (Frame f) = nat (frame_bytes f)"
| "size_of (Junk k) = k"

fun laid :: "bytes \<Rightarrow> piece list \<Rightarrow> bool" where
  "laid buf [] = True"
| "laid buf (Frame f # ps) = (cq_mp3_parse buf = Some f \<and> nat (frame_bytes f) \<le> length buf \<and>
     laid (drop (nat (frame_bytes f)) buf) ps)"
| "laid buf (Junk k # ps) = (cq_mp3_parse buf = None \<and> 0 < k \<and> k \<le> length buf \<and>
     (\<exists>f. confirmed buf k f) \<and> (\<forall>j < k. refuted buf j) \<and> laid (drop k buf) ps)"

fun frames_of :: "piece list \<Rightarrow> cq_mp3_frame list" where
  "frames_of [] = []"
| "frames_of (Frame f # ps) = f # frames_of ps"
| "frames_of (Junk k # ps) = frames_of ps"

fun junk_of :: "piece list \<Rightarrow> nat list" where
  "junk_of [] = []"
| "junk_of (Frame f # ps) = junk_of ps"
| "junk_of (Junk k # ps) = k # junk_of ps"

text \<open>Nothing that can be counted is left at the end: too few bytes, a frame that is cut off, or no frame that confirms.\<close>

definition scan_over :: "bytes \<Rightarrow> bool" where
  "scan_over rest \<longleftrightarrow> length rest < 4 \<or> (case cq_mp3_parse rest of
     Some f \<Rightarrow> length rest < nat (frame_bytes f) | None \<Rightarrow> cq_mp3_sync rest = None)"

lemma scan_partition:
  assumes "s_off s \<le> length buf" "t = scan_loop buf s"
  shows "\<exists>ps. laid (drop (s_off s) buf) ps \<and> s_off t = s_off s + sum_list (map size_of ps) \<and> s_off t \<le> length buf \<and>
    s_frames t = s_frames s + length (frames_of ps) \<and> s_flips t = s_flips s + changes (s_prev s) (frames_of ps) \<and>
    s_gaps t = s_gaps s + length (junk_of ps) \<and> s_gap_bytes t = s_gap_bytes s + sum_list (junk_of ps) \<and>
    scan_over (drop (s_off t) buf)"
  using assms
proof (induction buf s arbitrary: t rule: scan_loop.induct)
  case (1 buf s)
  let ?b = "drop (s_off s) buf"
  note e = 1(4) [unfolded scan_loop.simps [of buf s]]
  show ?case
  proof (cases "s_off s + 4 \<le> length buf")
    case False
    then show ?thesis using e 1(3) by (intro exI [of _ "[]"]) (auto simp: scan_over_def)
  next
    case room: True
    show ?thesis
    proof (cases "cq_mp3_parse ?b")
      case None
      show ?thesis
      proof (cases "cq_mp3_sync ?b")
        case n: None
        then have "t = s" using e room None by simp
        then show ?thesis using n None 1(3) by (intro exI [of _ "[]"]) (simp add: scan_over_def)
      next
        case (Some p)
        obtain k f where kf: "cq_mp3_sync ?b = Some (k, f)" using Some by (cases p) simp
        note c = sync_Some [OF kf]
        have k: "0 < k" "k \<le> length ?b" using sync_moves [OF None kf] c(1) by (simp_all add: confirmed_def)
        have t: "t = scan_loop buf (scan_gap k f s)" using e room None kf by simp
        have off: "s_off (scan_gap k f s) = s_off s + k" by (simp add: scan_gap_def)
        have bound: "s_off (scan_gap k f s) \<le> length buf" using k(2) room by (simp add: off)
        from 1(1) [OF room None kf refl bound t] obtain ps where ps: "laid (drop (s_off s + k) buf) ps"
          "s_off t = s_off s + k + sum_list (map size_of ps)" "s_off t \<le> length buf" "s_frames t = s_frames s + length (frames_of ps)"
          "s_flips t = s_flips s + changes (s_prev s) (frames_of ps)" "s_gaps t = s_gaps s + 1 + length (junk_of ps)"
          "s_gap_bytes t = s_gap_bytes s + k + sum_list (junk_of ps)" "scan_over (drop (s_off t) buf)"
          unfolding off by (auto simp: scan_gap_def)
        have "laid ?b (Junk k # ps)" using ps(1) k None c by (auto simp: add.commute)
        then show ?thesis using ps(2-8) by (intro exI [of _ "Junk k # ps"]) simp
      qed
    next
      case (Some f)
      show ?thesis
      proof (cases "length buf < s_off s + nat (frame_bytes f)")
        case True
        then have "t = s\<lparr>s_cur := Some f\<rparr>" using e room Some by simp
        then show ?thesis using True Some 1(3) by (intro exI [of _ "[]"]) (auto simp: scan_over_def)
      next
        case False
        have t: "t = scan_loop buf (scan_frame f s)" using e room Some False by simp
        have off: "s_off (scan_frame f s) = s_off s + nat (frame_bytes f)" by (simp add: scan_frame_def Let_def)
        have bound: "s_off (scan_frame f s) \<le> length buf" using False by (simp add: off)
        from 1(2) [OF room Some False bound t] obtain ps where ps: "laid (drop (s_off s + nat (frame_bytes f)) buf) ps"
          "s_off t = s_off s + nat (frame_bytes f) + sum_list (map size_of ps)" "s_off t \<le> length buf"
          "s_frames t = s_frames s + 1 + length (frames_of ps)"
          "s_flips t = s_flips s + (if flips (s_prev s) f then 1 else 0) + changes (Some f) (frames_of ps)"
          "s_gaps t = s_gaps s + length (junk_of ps)" "s_gap_bytes t = s_gap_bytes s + sum_list (junk_of ps)"
          "scan_over (drop (s_off t) buf)"
          unfolding off by (auto simp: scan_frame_def Let_def)
        have "laid ?b (Frame f # ps)" using ps(1) Some False by (simp add: add.commute)
        then show ?thesis using ps(2-8) by (intro exI [of _ "Frame f # ps"]) simp
      qed
    qed
  qed
qed

text \<open>C27. The scanner ends on every capture and accounts for every byte it passes: the capture, up to where
it stops, is whole frames and stretches of junk laid end to end, each stretch ending at the first
header that the next one confirms; the counts of frames, gaps, junk bytes and format changes are
those of this layout, and nothing countable is left.\<close>

theorem mp3scan_accounts:
  "\<exists>ps. laid buf ps \<and> s_off (mp3scan buf) = sum_list (map size_of ps) \<and> s_off (mp3scan buf) \<le> length buf \<and>
     s_frames (mp3scan buf) = length (frames_of ps) \<and> s_flips (mp3scan buf) = changes None (frames_of ps) \<and>
     s_gaps (mp3scan buf) = length (junk_of ps) \<and> s_gap_bytes (mp3scan buf) = sum_list (junk_of ps) \<and>
     scan_over (drop (s_off (mp3scan buf)) buf)"
  using scan_partition [of scan_start buf "mp3scan buf"] by (simp add: mp3scan_def scan_start_def)

text \<open>A healthy mount, frames end to end, has no gap.\<close>

lemma clean_capture:
  assumes "chain buf fs" "span fs = length buf"
  shows "s_frames (mp3scan buf) = length fs" "s_gaps (mp3scan buf) = 0" "s_flips (mp3scan buf) = changes None fs"
proof -
  obtain t where t: "scan_loop buf scan_start = scan_loop buf t" "s_off t = length buf" "s_frames t = length fs"
    "s_gaps t = 0" "s_flips t = changes None fs"
    using scan_chain [of scan_start buf fs] assms by (auto simp: scan_start_def)
  have "scan_loop buf t = t" using t(2) by (subst scan_loop.simps) simp
  then show "s_frames (mp3scan buf) = length fs" "s_gaps (mp3scan buf) = 0" "s_flips (mp3scan buf) = changes None fs"
    using t by (simp_all add: mp3scan_def)
qed

subsection \<open>The probe\<close>

text \<open>Host, port and selector from the arguments, or their defaults.\<close>

definition probe_args :: "cstr list \<Rightarrow> cstr \<times> int \<times> cstr" where
  "probe_args argv =
     (if length argv > 1 then argv ! 1 else ''192.0.2.10'',
      if length argv > 2 then atoi (argv ! 2) else 70,
      if length argv > 3 then argv ! 3 else ''/spot/api/1/now'')"

text \<open>At most as many polls as the loop's bound; the pause between two is left out.\<close>

fun probe_polls ::
  "nat \<Rightarrow> nat \<Rightarrow> ('w \<Rightarrow> px_call \<Rightarrow> 'w \<times> px_answer) \<Rightarrow> px_tx \<Rightarrow> 'w \<Rightarrow> ('w \<times> px_tx) option" where
  "probe_polls 0 k sys t w = Some (w, t)"
| "probe_polls (Suc i) k sys t w =
     (case cq_tx_poll k sys t w of
        None \<Rightarrow> None
      | Some (w, t) \<Rightarrow> if status t \<noteq> CQ_TX_RUNNING then Some (w, t) else probe_polls i k sys t w)"

datatype probe_out = Probe_failed cq_tx_error cstr | Probe_read nat cq_now

definition probe ::
  "nat \<Rightarrow> ('w \<Rightarrow> px_call \<Rightarrow> 'w \<times> px_answer) \<Rightarrow> cstr list \<Rightarrow> 'w \<Rightarrow> ('w \<times> probe_out \<times> int) option" where
  "probe k sys argv w =
     (case probe_args argv of (h, p, sel) \<Rightarrow>
      case probe_polls 10000 k sys (cq_tx_start (cq_tx_new (Some h) p (Some sel))) w of
        None \<Rightarrow> None
      | Some (w, t) \<Rightarrow>
          if status t \<noteq> CQ_TX_DONE then Some (cq_tx_free sys t w, Probe_failed (error t) (message t), 1)
          else Some (cq_tx_free sys t w, Probe_read (length (data t)) (cq_now_from_response (data t)), 0))"

lemma probe_polls_once:
  assumes "sys_ok sys rx tx" "status t = CQ_TX_RUNNING" "started t" "\<not> streaming t" "\<not> cancelled t" "data t = []"
  shows "probe_polls (Suc i) k sys t w = cq_tx_poll k sys t w"
proof (cases "cq_tx_poll k sys t w")
  case (Some r)
  then obtain w1 t1 where r: "cq_tx_poll k sys t w = Some (w1, t1)" by (cases r) simp
  then have "status t1 \<noteq> CQ_TX_RUNNING" using run_once [OF assms, of k w] by auto
  then show ?thesis using r by simp
qed simp

lemma free_quiet:
  assumes "sys_ok sys rx tx" shows "rx (cq_tx_free sys t w) = rx w \<and> tx (cq_tx_free sys t w) = tx w"
  using quiet_close [OF assms] by (simp add: cq_tx_free_def split: option.split)


text \<open>A server that answers with the state of a paused player.\<close>

lemma demo_poll:
  "map_option (\<lambda>(w, t). (status t, data t)) (cq_tx_poll 3 demo_sys (cq_tx_start (cq_tx_new (Some ''h'') 70 (Some ''/now'')))
     (''state'' @ [TAB] @ ''paused'' @ [LF], [], [])) = Some (CQ_TX_DONE, ''state'' @ [TAB] @ ''paused'' @ [LF])"
  by (simp add: cq_tx_poll_def cq_tx_start_def cq_tx_new_def run_tx_def connect_and_send_def connect_deadline_def demo_sys_def
      send_all.simps numeral_3_eq_3 request_def append_rx_def)
lemma demo_read: "now_state (cq_now_from_response (''state'' @ [TAB] @ ''paused'' @ [LF])) = CQ_STATE_PAUSED" by code_simp

end
