(* ===== verification/Log.thy ===== *)
theory Log
  imports AppState AppText "HOL-Library.Sublist"
begin

text \<open>
  The opt-in debug log (\<open>DbgLog\<close> in \<open>os9/casquinha.c\<close>) and its three speakers: the probes of
  the event loop and of the transport, which report a slow call, and \<open>NetEdge\<close>, which reports
  that the server went away or came back. The File Manager and the datagram mirror are a parameter;
  a message is the text its format expands to.
\<close>

abbreviation CQ_LOG_HOST :: cstr where "CQ_LOG_HOST \<equiv> ''192.0.2.20''"
abbreviation CQ_LOG_PORT :: int where "CQ_LOG_PORT \<equiv> 5514"
abbreviation CQ_BUILD_TAG :: cstr where "CQ_BUILD_TAG \<equiv> ''b63''"
abbreviation CQ_LOOP_PROBE_WARN_TICKS :: u32 where "CQ_LOOP_PROBE_WARN_TICKS \<equiv> 24"
abbreviation CQ_TX_PROBE_WARN_TICKS :: u32 where "CQ_TX_PROBE_WARN_TICKS \<equiv> 6"

datatype log_call = FSMakeFSSpec cstr | FSpOpenRead | FSRead nat | FSCloseMarker | FSpCreate cstr |
  FSpOpenWrite cstr | SetFPosEnd | FSWrite bytes | FlushVol | Datagram cstr int bytes

datatype log_answer = noErr | fnfErr | otherErr | Delivered bytes

record log_st =
  gLogRef :: bool
  gLogMode :: int
  gLogHost :: cstr
  gLogPort :: int

definition log_boot :: log_st where
  "log_boot = \<lparr>gLogRef = False, gLogMode = 0, gLogHost = CQ_LOG_HOST, gLogPort = CQ_LOG_PORT\<rparr>"

text \<open>The target the marker's first line names, \<open>host:port\<close>, over the defaults.\<close>

definition marker_target :: "bytes \<Rightarrow> cstr \<times> int \<Rightarrow> cstr \<times> int" where
  "marker_target bs hp =
     (if bs = [] then hp
      else
        (let l = takeWhile (\<lambda>c. c \<noteq> NUL \<and> c \<noteq> CR \<and> c \<noteq> LF) bs;
             (h, p) = (case strchr l (CHR '':'') of
                 Some k \<Rightarrow> (let v = atoi (drop (k + 1) l) in (take k l, if valid_port v then v else snd hp))
               | None \<Rightarrow> (l, snd hp))
         in (if h \<noteq> [] then fits 64 h else fst hp, p)))"

text \<open>The first line asks for the marker: without it the log stays off.\<close>

definition log_marker :: "('w \<Rightarrow> log_call \<Rightarrow> 'w \<times> log_answer) \<Rightarrow> 'w \<Rightarrow> log_st \<Rightarrow> 'w \<times> log_st" where
  "log_marker fs w s =
     (case fs w (FSMakeFSSpec ''Casquinha Debug'') of
        (w, noErr) \<Rightarrow>
          (case fs w FSpOpenRead of
             (w, noErr) \<Rightarrow>
               (case fs w (FSRead 63) of (w, a) \<Rightarrow>
                  (let w = fst (fs w FSCloseMarker);
                       mb = (case a of Delivered bs \<Rightarrow> bs | _ \<Rightarrow> []);
                       (h, p) = marker_target mb (gLogHost s, gLogPort s)
                   in (w, s\<lparr>gLogHost := h, gLogPort := p, gLogMode := 1\<rparr>)))
           | (w, _) \<Rightarrow> (w, s\<lparr>gLogMode := 1\<rparr>))
      | (w, _) \<Rightarrow> (w, s\<lparr>gLogMode := -1\<rparr>))"

definition log_name :: cstr where
  "log_name = fits 63 (''Casquinha '' @ CQ_BUILD_TAG @ ''.log'')"

definition log_open :: "('w \<Rightarrow> log_call \<Rightarrow> 'w \<times> log_answer) \<Rightarrow> 'w \<Rightarrow> log_st \<Rightarrow> 'w \<times> log_st \<times> bool" where
  "log_open fs w s =
     (case fs w (FSMakeFSSpec log_name) of (w, e) \<Rightarrow>
        if e \<noteq> noErr \<and> e \<noteq> fnfErr then (w, s, False)
        else
          (let w = fst (fs w (FSpCreate log_name))
           in case fs w (FSpOpenWrite log_name) of
                (w, noErr) \<Rightarrow> (fst (fs w SetFPosEnd), s\<lparr>gLogRef := True\<rparr>, True)
              | (w, _) \<Rightarrow> (w, s\<lparr>gLogRef := False\<rparr>, False)))"

text \<open>The time of a line, in seconds and hundredths, from 60 ticks a second.\<close>

definition log_stamp :: "u32 \<Rightarrow> cstr" where
  "log_stamp t = (let h = unat (t mod 60 * 100 div 60) in
     CHR ''['' # nat_str (unat (t div 60)) @ CHR ''.'' # digit_char (h div 10) # digit_char (h mod 10) # ''s] '')"

text \<open>
  The bytes of a line in the buffer of 300: \<open>snprintf\<close> leaves room for two and reports the
  length it wanted, which is cut to 298; the byte at 297 is then the terminating NUL.
\<close>

definition log_line :: "u32 \<Rightarrow> cstr \<Rightarrow> bytes" where
  "log_line t body =
     (let text = log_stamp t @ body; n = (if length text > 298 then 298 else length text)
      in take n (fits 298 text @ [NUL]) @ [CR])"

definition log_write :: "('w \<Rightarrow> log_call \<Rightarrow> 'w \<times> log_answer) \<Rightarrow> u32 \<Rightarrow> cstr \<Rightarrow> 'w \<Rightarrow> log_st \<Rightarrow> 'w" where
  "log_write fs t body w s =
     (let buf = log_line t body;
          w = fst (fs w (FSWrite buf));
          w = fst (fs w FlushVol)
      in fst (fs w (Datagram (gLogHost s) (gLogPort s) (butlast buf @ [LF]))))"

definition DbgLog :: "('w \<Rightarrow> log_call \<Rightarrow> 'w \<times> log_answer) \<Rightarrow> u32 \<Rightarrow> cstr \<Rightarrow> 'w \<times> log_st \<Rightarrow> 'w \<times> log_st" where
  "DbgLog fs t body ws =
     (case ws of (w, s) \<Rightarrow>
      if gLogMode s < 0 then (w, s)
      else case (if gLogMode s = 0 then log_marker fs w s else (w, s)) of (w, s) \<Rightarrow>
        if gLogMode s < 0 then (w, s)
        else case (if gLogRef s then (w, s, True) else log_open fs w s) of (w, s, ok) \<Rightarrow>
          if ok then (log_write fs t body w s, s) else (w, s))"

subsection \<open>What is said\<close>

text \<open>A slow limb of the event loop, between two readings of the clock.\<close>

definition loop_probe :: "cstr \<Rightarrow> u32 \<Rightarrow> u32 \<Rightarrow> cstr option" where
  "loop_probe name t0 t1 =
     (let d = t1 - t0 in
      if d \<ge> CQ_LOOP_PROBE_WARN_TICKS
      then Some (''loop-probe: '' @ name @ '' +'' @ nat_str (unat d) @ ''t ('' @ nat_str (unat (d * 1000 div 60)) @ ''ms)'')
      else None)"

text \<open>A slow call of the network provider, handed to the log as a text of at most 95 characters.\<close>

definition probe_emit :: "cstr \<Rightarrow> u32 \<Rightarrow> cstr option" where
  "probe_emit name elapsed =
     (if elapsed \<ge> CQ_TX_PROBE_WARN_TICKS
      then Some (fits 96 (''ot-probe: '' @ name @ '' +'' @ nat_str (unat elapsed) @ ''t ('' @
             nat_str (unat (elapsed * 1000 div 60)) @ ''ms)''))
      else None)"

definition OT_PROBE :: "cstr \<Rightarrow> u32 \<Rightarrow> u32 \<Rightarrow> cstr option" where
  "OT_PROBE name t0 t1 = probe_emit name (t1 - t0)"

datatype net_line = Net_online | Net_offline cstr

definition net_text :: "net_line \<Rightarrow> cstr" where
  "net_text l = (case l of Net_online \<Rightarrow> ''net: online'' | Net_offline m \<Rightarrow> ''net: offline ('' @ m @ '')'')"

text \<open>\<open>prev\<close> is what the last call saw.\<close>

definition NetEdge :: "bool \<Rightarrow> ('w, 'g) app \<Rightarrow> bool \<times> net_line option" where
  "NetEdge prev s =
     (if gOnline s = prev then (prev, None)
      else (gOnline s, Some (if gOnline s then Net_online
        else Net_offline (if gLastMsg s \<noteq> [] then gLastMsg s else ''no reply''))))"

subsection \<open>Lines\<close>

lemma log_stamp_length: "length (log_stamp t) \<le> 15"
proof -
  have "unat t < 2 ^ 32" using unsigned_less [of t] by simp
  then have "unat (t div 60) < 10 ^ 8" by (simp add: unat_div)
  then show ?thesis using length_nat_str_le [of "unat (t div 60)" 8] by (simp add: log_stamp_def Let_def)
qed

lemma log_line_whole: "length (log_stamp t @ body) < 298 \<Longrightarrow> log_line t body = log_stamp t @ body @ [CR]"
  by (simp add: log_line_def Let_def fits_def)

text \<open>A line stays inside its buffer; one that is too long carries the NUL before its end.\<close>

lemma log_line_cut:
  "length (log_line t body) \<le> 299" "log_line t body \<noteq> []" "last (log_line t body) = CR"
  "298 \<le> length (log_stamp t @ body) \<Longrightarrow> log_line t body = take 297 (log_stamp t @ body) @ [NUL, CR]"
  by (auto simp: log_line_def Let_def fits_def)

text \<open>What the edges say fits, and so do the transport's probes in their buffer.\<close>

lemma net_line_whole:
  assumes "length (gLastMsg s) < 128" "NetEdge prev s = (p, Some l)"
  shows "log_line t (net_text l) = log_stamp t @ net_text l @ [CR]"
proof -
  have "length (net_text l) \<le> 143" using assms by (auto simp: NetEdge_def net_text_def split: if_splits)
  then show ?thesis using log_stamp_length [of t] by (intro log_line_whole) simp
qed

lemma length_nat_str_word: "length (nat_str (unat (x :: u32))) \<le> 10"
proof -
  have "unat x < 2 ^ 32" using unsigned_less [of x] by simp
  then show ?thesis by (intro length_nat_str_u32) simp
qed

lemma probe_whole:
  assumes "length name \<le> 17" "6 \<le> e"
  shows "probe_emit name e = Some (''ot-probe: '' @ name @ '' +'' @ nat_str (unat e) @ ''t ('' @ nat_str (unat (e * 1000 div 60)) @ ''ms)'')"
  using assms length_nat_str_word [of e] length_nat_str_word [of "e * 1000 div 60"]
  by (simp add: probe_emit_def fits_def)

subsection \<open>The contract of the log\<close>

text \<open>\<open>obs\<close> observes the calls a world has seen.\<close>

definition calls_seen :: "('w \<Rightarrow> log_call \<Rightarrow> 'w \<times> log_answer) \<Rightarrow> ('w \<Rightarrow> log_call list) \<Rightarrow> bool" where
  "calls_seen fs obs \<longleftrightarrow> (\<forall>w c. obs (fst (fs w c)) = obs w @ [c])"

lemma calls_seenD:
  assumes "calls_seen fs obs"
  shows "obs (fst (fs w c)) = obs w @ [c]" "fs w c = (w', a) \<Longrightarrow> obs w' = obs w @ [c]"
  using assms unfolding calls_seen_def by (blast, metis fst_conv)

fun written :: "log_call list \<Rightarrow> bytes list" where
  "written [] = []"
| "written (FSWrite b # cs) = b # written cs"
| "written (_ # cs) = written cs"

fun mirrored :: "log_call list \<Rightarrow> (cstr \<times> int \<times> bytes) list" where
  "mirrored [] = []"
| "mirrored (Datagram h p b # cs) = (h, p, b) # mirrored cs"
| "mirrored (_ # cs) = mirrored cs"

lemma written_append [simp]: "written (a @ b) = written a @ written b"
  by (induction a rule: written.induct) simp_all

lemma mirrored_append [simp]: "mirrored (a @ b) = mirrored a @ mirrored b"
  by (induction a rule: mirrored.induct) simp_all

text \<open>The marker is looked for once; nothing is written or sent for it.\<close>

lemma log_marker_spec:
  assumes "calls_seen fs obs" "log_marker fs w s = (w', s')"
  shows "\<exists>new. obs w' = obs w @ FSMakeFSSpec ''Casquinha Debug'' # new \<and> written new = [] \<and> mirrored new = [] \<and>
    (if snd (fs w (FSMakeFSSpec ''Casquinha Debug'')) = noErr then gLogMode s' = 1 else gLogMode s' = -1 \<and> new = [])"
  using assms(2) calls_seenD [OF assms(1)]
  by (auto simp: log_marker_def Let_def split: prod.splits log_answer.splits)

lemma log_open_spec:
  assumes "calls_seen fs obs" "log_open fs w s = (w', s', ok)"
  shows "\<exists>new. obs w' = obs w @ new \<and> written new = [] \<and> mirrored new = []" "gLogMode s' = gLogMode s"
    "gLogHost s' = gLogHost s" "gLogPort s' = gLogPort s"
  using assms(2) calls_seenD [OF assms(1)]
  by (auto simp: log_open_def Let_def split: prod.splits log_answer.splits if_splits)

lemma log_write_spec:
  assumes "calls_seen fs obs"
  shows "obs (log_write fs t b w s) = obs w @ [FSWrite (log_line t b), FlushVol,
    Datagram (gLogHost s) (gLogPort s) (butlast (log_line t b) @ [LF])]"
  using calls_seenD(1) [OF assms] by (simp add: log_write_def Let_def)

lemma DbgLog_spec:
  assumes "calls_seen fs obs" "DbgLog fs t b (w, s) = (w', s')"
  shows "\<exists>new. obs w' = obs w @ new \<and>
      (written new = [] \<and> mirrored new = [] \<or> written new = [log_line t b] \<and>
       mirrored new = [(gLogHost s', gLogPort s', butlast (log_line t b) @ [LF])])"
    "gLogMode s' \<noteq> 0" "gLogMode s \<noteq> 0 \<Longrightarrow> gLogMode s' = gLogMode s \<and> gLogHost s' = gLogHost s \<and> gLogPort s' = gLogPort s"
proof -
  obtain w1 s1 where m: "(if gLogMode s = 0 then log_marker fs w s else (w, s)) = (w1, s1)" by (metis surj_pair)
  have k1: "\<exists>new. obs w1 = obs w @ new \<and> written new = [] \<and> mirrored new = []" "gLogMode s1 \<noteq> 0"
    "gLogMode s \<noteq> 0 \<Longrightarrow> s1 = s"
    using m log_marker_spec [OF assms(1), of w s w1 s1] by (fastforce split: if_splits)+
  obtain w2 s2 ok where o: "(if gLogRef s1 then (w1, s1, True) else log_open fs w1 s1) = (w2, s2, ok)" by (metis surj_pair)
  have k2: "\<exists>new. obs w2 = obs w1 @ new \<and> written new = [] \<and> mirrored new = []" "gLogMode s2 = gLogMode s1"
    "gLogHost s2 = gLogHost s1" "gLogPort s2 = gLogPort s1"
    using o log_open_spec [OF assms(1), of w1 s1 w2 s2 ok] by (auto split: if_splits)
  consider (off) "gLogMode s < 0" "(w', s') = (w, s)" | (absent) "\<not> gLogMode s < 0" "gLogMode s1 < 0" "(w', s') = (w1, s1)"
    | (on) "\<not> gLogMode s < 0" "\<not> gLogMode s1 < 0" "ok" "(w', s') = (log_write fs t b w2 s2, s2)"
    | (shut) "\<not> gLogMode s < 0" "\<not> gLogMode s1 < 0" "\<not> ok" "(w', s') = (w2, s2)"
    using assms(2) unfolding DbgLog_def by (auto simp: m o split: if_splits)
  note c = this
  show "\<exists>new. obs w' = obs w @ new \<and>
      (written new = [] \<and> mirrored new = [] \<or> written new = [log_line t b] \<and>
       mirrored new = [(gLogHost s', gLogPort s', butlast (log_line t b) @ [LF])])"
    using c
  proof cases
    case on
    then show ?thesis using k1(1) k2(1) log_write_spec [OF assms(1), of t b w2 s2] by auto
  qed (use k1(1) k2(1) in auto)
  show "gLogMode s' \<noteq> 0" using c k1(2) k2(2) by cases auto
  show "gLogMode s \<noteq> 0 \<Longrightarrow> gLogMode s' = gLogMode s \<and> gLogHost s' = gLogHost s \<and> gLogPort s' = gLogPort s"
    using c k1(3) k2 by cases auto
qed

definition log_run :: "('w \<Rightarrow> log_call \<Rightarrow> 'w \<times> log_answer) \<Rightarrow> (u32 \<times> cstr) list \<Rightarrow> 'w \<times> log_st \<Rightarrow> 'w \<times> log_st" where
  "log_run fs ms ws = fold (\<lambda>(t, b). DbgLog fs t b) ms ws"

lemma run_on:
  assumes "calls_seen fs obs" "gLogMode s \<noteq> 0" "log_run fs ms (w, s) = (w', s')"
  shows "\<exists>new. obs w' = obs w @ new \<and> subseq (written new) (map (\<lambda>(t, b). log_line t b) ms) \<and>
    mirrored new = map (\<lambda>l. (gLogHost s, gLogPort s, butlast l @ [LF])) (written new)"
  using assms(2,3)
proof (induction ms arbitrary: w s)
  case Nil
  then show ?case by (simp add: log_run_def)
next
  case (Cons m ms)
  obtain t b where m: "m = (t, b)" by (cases m)
  obtain w1 s1 where d: "DbgLog fs t b (w, s) = (w1, s1)" by (cases "DbgLog fs t b (w, s)")
  note k = DbgLog_spec [OF assms(1) d]
  have "log_run fs ms (w1, s1) = (w', s')" using Cons.prems(2) by (simp add: log_run_def m d)
  from Cons.IH [OF k(2) this] obtain new2 where n2: "obs w' = obs w1 @ new2"
    "subseq (written new2) (map (\<lambda>(t, b). log_line t b) ms)"
    "mirrored new2 = map (\<lambda>l. (gLogHost s, gLogPort s, butlast l @ [LF])) (written new2)"
    using k(3) [OF Cons.prems(1)] by auto
  from k(1) obtain new1 where n1: "obs w1 = obs w @ new1" "written new1 = [] \<and> mirrored new1 = [] \<or>
      written new1 = [log_line t b] \<and> mirrored new1 = [(gLogHost s, gLogPort s, butlast (log_line t b) @ [LF])]"
    using k(3) [OF Cons.prems(1)] by auto
  show ?case using n1 n2 by (intro exI [of _ "new1 @ new2"]) (auto simp: m)
qed

lemma run_off: "gLogMode s < 0 \<Longrightarrow> log_run fs ms (w, s) = (w, s)"
  by (induction ms) (auto simp: log_run_def DbgLog_def)

text \<open>C26. The log is opt-in and faithful: without the marker file a whole run makes one call, the
question for the marker, and writes and sends nothing; with it, the lines of the file are lines of
the messages, in their order, and the mirror gets exactly the same lines, each with a line feed for
its end, at one target.\<close>

theorem log_contract:
  assumes "calls_seen fs obs" "log_run fs ((t, b) # ms) (w, log_boot) = (w', s')"
  shows "\<exists>new. obs w' = obs w @ new \<and>
    (snd (fs w (FSMakeFSSpec ''Casquinha Debug'')) \<noteq> noErr \<longrightarrow> new = [FSMakeFSSpec ''Casquinha Debug'']) \<and>
    subseq (written new) (map (\<lambda>(t, b). log_line t b) ((t, b) # ms)) \<and>
    mirrored new = map (\<lambda>l. (gLogHost s', gLogPort s', butlast l @ [LF])) (written new)"
proof (cases "snd (fs w (FSMakeFSSpec ''Casquinha Debug'')) = noErr")
  case False
  obtain w1 s1 where m: "log_marker fs w log_boot = (w1, s1)" by (cases "log_marker fs w log_boot")
  from log_marker_spec [OF assms(1) m] False have k: "obs w1 = obs w @ [FSMakeFSSpec ''Casquinha Debug'']" "gLogMode s1 = -1"
    by auto
  have "DbgLog fs t b (w, log_boot) = (w1, s1)" using m k(2) by (simp add: DbgLog_def log_boot_def)
  then have "(w', s') = (w1, s1)" using assms(2) run_off [of s1 fs ms w1] k(2) by (simp add: log_run_def)
  then show ?thesis using k(1) by (intro exI [of _ "[FSMakeFSSpec ''Casquinha Debug'']"]) simp
next
  case True
  obtain w1 s1 where d: "DbgLog fs t b (w, log_boot) = (w1, s1)" by (cases "DbgLog fs t b (w, log_boot)")
  note k = DbgLog_spec [OF assms(1) d]
  have r: "log_run fs ms (w1, s1) = (w', s')" using assms(2) by (simp add: log_run_def d)
  have same: "gLogHost s' = gLogHost s1 \<and> gLogPort s' = gLogPort s1" using r k(2)
  proof (induction ms arbitrary: w1 s1)
    case (Cons m ms)
    obtain t b where m: "m = (t, b)" by (cases m)
    obtain w2 s2 where d: "DbgLog fs t b (w1, s1) = (w2, s2)" by (cases "DbgLog fs t b (w1, s1)")
    have "log_run fs ms (w2, s2) = (w', s')" using Cons.prems(1) by (simp add: log_run_def m d)
    then show ?case using Cons.IH DbgLog_spec(2,3) [OF assms(1) d] Cons.prems(2) by simp
  qed (simp add: log_run_def)
  from run_on [OF assms(1) k(2) r] obtain new2 where n2: "obs w' = obs w1 @ new2"
    "subseq (written new2) (map (\<lambda>(t, b). log_line t b) ms)"
    "mirrored new2 = map (\<lambda>l. (gLogHost s1, gLogPort s1, butlast l @ [LF])) (written new2)" by blast
  from k(1) obtain new1 where n1: "obs w1 = obs w @ new1" "written new1 = [] \<and> mirrored new1 = [] \<or>
      written new1 = [log_line t b] \<and> mirrored new1 = [(gLogHost s1, gLogPort s1, butlast (log_line t b) @ [LF])]" by blast
  show ?thesis using n1 n2 True same by (intro exI [of _ "new1 @ new2"]) auto
qed

text \<open>A file system that keeps the calls, with the marker naming a target.\<close>

definition demo_fs :: "bytes \<Rightarrow> log_call list \<Rightarrow> log_call \<Rightarrow> log_call list \<times> log_answer" where
  "demo_fs marker w c = (w @ [c], case c of FSRead n \<Rightarrow> Delivered (take n marker) | _ \<Rightarrow> noErr)"

theorem log_contract_witness:
  "\<exists>w' s'. log_run (demo_fs ''10.0.0.5:9999'') [(600, ''boot''), (660, ''net: online'')] ([], log_boot) = (w', s') \<and>
     mirrored w' = map (\<lambda>l. (''10.0.0.5'', 9999, butlast l @ [LF])) (written w') \<and> length (written w') = 2"
proof -
  have "(case log_run (demo_fs ''10.0.0.5:9999'') [(600, ''boot''), (660, ''net: online'')] ([], log_boot) of
      (w, s) \<Rightarrow> (gLogHost s, gLogPort s, length (written w))) = (''10.0.0.5'', 9999, 2)" by code_simp
  then obtain w' s' where r: "log_run (demo_fs ''10.0.0.5:9999'') [(600, ''boot''), (660, ''net: online'')] ([], log_boot) = (w', s')"
    "gLogHost s' = ''10.0.0.5''" "gLogPort s' = 9999" "length (written w') = 2"
    by (auto split: prod.splits)
  have "calls_seen (demo_fs ''10.0.0.5:9999'') id" by (simp add: calls_seen_def demo_fs_def)
  from log_contract [OF this r(1)] r show ?thesis by auto
qed

subsection \<open>The edges\<close>

fun net_lines :: "bool \<Rightarrow> ('w, 'g) app list \<Rightarrow> net_line list" where
  "net_lines prev [] = []"
| "net_lines prev (s # ss) = (case NetEdge prev s of
     (p, None) \<Rightarrow> net_lines p ss | (p, Some l) \<Rightarrow> l # net_lines p ss)"

lemma net_lines_from: "prev # map (\<lambda>l. l = Net_online) (net_lines prev ss) = remdups_adj (prev # map gOnline ss)"
proof (induction ss arbitrary: prev)
  case (Cons s ss)
  then show ?case using Cons [of "gOnline s"] by (cases "gOnline s = prev") (auto simp: NetEdge_def)
qed simp

text \<open>C30. The edges are logged, and only the edges: over any sequence of passes the lines, read as the
state they announce and preceded by the offline start, are the states of the passes with every
repetition removed.\<close>

theorem net_edges:
  "False # map (\<lambda>l. l = Net_online) (net_lines False ss) = remdups_adj (False # map gOnline ss)"
  by (rule net_lines_from)

text \<open>The marker's line names its target.\<close>

lemma marker_named:
  assumes "h \<noteq> []" "length h < 64" "set h \<inter> {NUL, CR, LF, CHR '':''} = {}" "valid_port p" "rest = [] \<or> hd rest = CR"
  shows "marker_target (h @ CHR '':'' # int_str p @ rest) hp = (h, p)"
proof -
  let ?l = "h @ CHR '':'' # int_str p"
  have d: "\<forall>c \<in> set ?l. c \<noteq> NUL \<and> c \<noteq> CR \<and> c \<noteq> LF"
    using assms(3) int_str_plain_line [OF assms(4)] by auto
  have "takeWhile (\<lambda>c. c \<noteq> NUL \<and> c \<noteq> CR \<and> c \<noteq> LF) (?l @ rest) = ?l"
    using d assms(5) by (cases rest) (simp_all add: takeWhile_append)
  moreover have "strchr ?l (CHR '':'') = Some (length h)" using strchr_append [of "CHR '':''" h] assms(3) by simp
  moreover have "nat p < 2 ^ 31" using assms(4) by (auto simp: valid_port_def)
  then have "atoi (int_str p) = p"
    using atoi_nat_str [of "[]" "nat p"] assms(4) by (simp add: int_str_def valid_port_def)
  ultimately show ?thesis using assms(1,2,4) by (simp add: marker_target_def Let_def fits_id)
qed

end
