(* ===== verification/Screen.thy ===== *)
theory Screen
  imports AppUI
begin

text \<open>
  What the window shows (\<open>DrawWindowContents\<close>, \<open>DrawShelf\<close> and \<open>MakeControls\<close> in
  \<open>os9/casquinha.c\<close>): the QuickDraw and Appearance calls of a repaint as a list, in the code's
  order, and the rectangles of the controls and lists. \<open>ink\<close> says whether the device has colour,
  \<open>wd\<close> is the window's width; a text is measured by the Toolbox in the font in force.
\<close>

type_synonym rect = "int \<times> int \<times> int \<times> int"

datatype 'g draw = EraseRect rect | DrawControls | TextFont int | TextFace bool | TextSize int | ThemeText bool |
  RGBGreen | RGBRestore | PaintRect rect | DrawThemeSeparator rect | DrawText int int cstr | DrawTextEnding int int cstr |
  DrawThemeTrack rect int int int | CopyBits 'g rect | FrameRect rect

abbreviation CQ_SHELF_TOP :: int where "CQ_SHELF_TOP \<equiv> 232"
abbreviation CQ_LABEL_Y :: int where "CQ_LABEL_Y \<equiv> 276"

subsection \<open>Text\<close>

definition DrawCStr :: "converter \<Rightarrow> int \<Rightarrow> int \<Rightarrow> cstr \<Rightarrow> 'g draw" where
  "DrawCStr conv x y s = DrawText x y (ToMacRoman conv s 256)"

definition DrawCStrRight :: "converter \<Rightarrow> int \<Rightarrow> int \<Rightarrow> cstr \<Rightarrow> 'g draw" where
  "DrawCStrRight conv right y s = DrawTextEnding right y (ToMacRoman conv s 256)"

subsection \<open>The player area\<close>

definition draw_header :: "converter \<Rightarrow> bool \<Rightarrow> int \<Rightarrow> 'g draw list" where
  "draw_header conv ink wd =
     [EraseRect (0, 0, wd, CQ_SHELF_TOP), DrawControls, TextFont 0, TextFace True, TextSize 11, ThemeText True,
      DrawCStr conv 16 22 ''Casquinha'', TextFace False] @
     (if ink then [RGBGreen, PaintRect (16, 28, wd - 16, 30), RGBRestore]
      else [DrawThemeSeparator (16, 28, wd - 16, 29)])"

definition draw_title :: "converter \<Rightarrow> bool \<Rightarrow> cq_view \<Rightarrow> cq_now \<Rightarrow> 'g draw list" where
  "draw_title conv ink v n =
     (let title = DrawCStr conv 16 58 (case now_track n of Some t \<Rightarrow> t | None \<Rightarrow> ''(no track)'') in
      [TextFont 0, TextFace True, TextSize 14] @
      (if v_title_green v \<and> ink then [RGBGreen, title, RGBRestore] else [ThemeText True, title]) @
      [TextFace False, TextFont 1, TextSize 10, ThemeText False,
       DrawCStr conv 16 78 (case now_artist n of Some t \<Rightarrow> t | None \<Rightarrow> ''''),
       DrawCStr conv 16 94 (case now_album n of Some t \<Rightarrow> t | None \<Rightarrow> '''')])"

definition draw_progress :: "converter \<Rightarrow> int \<Rightarrow> cq_view \<Rightarrow> 'g draw list" where
  "draw_progress conv wd v =
     (let posMs = wrap32 (v_position_ms v); durMs = wrap32 (v_duration_ms v) in
      (if v_show_progress v then [DrawThemeTrack (16, 108, wd - 16, 124) 0 durMs posMs] else []) @
      [TextFont 1, TextSize 9, ThemeText False,
       DrawCStr conv 16 140 (FmtTime posMs), DrawCStrRight conv (wd - 16) 140 (FmtTime durMs)])"

text \<open>The build's tag stands at the end of the row.\<close>

definition state_line :: "cq_view \<Rightarrow> cq_now \<Rightarrow> cstr" where
  "state_line v n = fits 128 (v_state_word v @ ''      '' @
     (case now_device n of CQ_DEV_ACTIVE \<Rightarrow> ''on gopher-spot'' | CQ_DEV_IDLE \<Rightarrow> ''playing elsewhere'' | _ \<Rightarrow> '''') @
     ''      [b63]'')"

definition draw_state :: "converter \<Rightarrow> int \<Rightarrow> cq_view \<Rightarrow> cq_now \<Rightarrow> 'g draw list" where
  "draw_state conv wd v n =
     [TextFont 1, TextSize 9, ThemeText False, DrawCStr conv 276 173 ''Vol'',
      TextFont 1, TextSize 10, ThemeText True, DrawCStr conv 16 202 (state_line v n)] @
     (if v_status v \<noteq> [] then [DrawCStrRight conv (wd - 16) 202 (v_status v)] else [])"

definition draw_cover :: "int \<Rightarrow> cq_view \<Rightarrow> 'g cq_cache \<Rightarrow> 'g draw list" where
  "draw_cover wd v c =
     (if v_cover_key v \<noteq> [] then
        (case cq_cache_get c (Some (v_cover_key v)) of
           Some gw \<Rightarrow> [CopyBits gw (wd - 16 - CQ_COVER_PX, 44, wd - 16, 44 + CQ_COVER_PX)]
         | None \<Rightarrow> [])
      else [])"

definition draw_message :: "converter \<Rightarrow> cstr \<Rightarrow> 'g draw list" where
  "draw_message conv msg =
     (if msg \<noteq> [] then [TextFont 1, TextSize 9, ThemeText False, DrawCStr conv 16 220 msg] else [])"

definition DrawWindowContents :: "converter \<Rightarrow> bool \<Rightarrow> int \<Rightarrow> ('w, 'g) app \<Rightarrow> 'g draw list" where
  "DrawWindowContents conv ink wd s =
     draw_header conv ink wd @
     (if \<not> gHaveSnap s then
        [TextFont 1, TextSize 10, ThemeText True,
         DrawCStr conv 16 64 (if gLastMsg s \<noteq> [] then gLastMsg s else ''Connecting...'')]
      else
        draw_title conv ink (gView s) (gSnap s) @ draw_progress conv wd (gView s) @
        draw_state conv wd (gView s) (gSnap s) @ draw_cover wd (gView s) (gCovers s) @
        draw_message conv (gLastMsg s))"

subsection \<open>The shelf and the controls\<close>

text \<open>The lists' frames: the view, widened over the scroll bar, grown by one pixel.\<close>

definition search_area :: "int \<Rightarrow> rect" where
  "search_area wd = (16, CQ_LIST_TOP, tdiv wd 2 - 6, CQ_LIST_BOTTOM)"

definition queue_area :: "int \<Rightarrow> rect" where
  "queue_area wd = (tdiv wd 2 + 4, CQ_LIST_TOP, wd - 16, CQ_LIST_BOTTOM)"

text \<open>A list's view leaves room for the scroll bar on its right.\<close>

definition MakeList :: "rect \<Rightarrow> rect" where
  "MakeList area = (case area of (l, t, r, b) \<Rightarrow> (l, t, r - 15, b))"

definition list_frame :: "rect \<Rightarrow> rect" where
  "list_frame view = (case view of (l, t, r, b) \<Rightarrow> (l - 1, t - 1, r + 15 + 1, b + 1))"

definition DrawShelf :: "converter \<Rightarrow> int \<Rightarrow> int \<Rightarrow> 'g draw list" where
  "DrawShelf conv wd bottom =
     [EraseRect (0, CQ_SHELF_TOP, wd, bottom), DrawThemeSeparator (16, CQ_SHELF_TOP, wd - 16, CQ_SHELF_TOP + 2),
      TextFont 1, TextSize 9, ThemeText False,
      DrawCStr conv 16 CQ_LABEL_Y ''Results'', DrawCStr conv (tdiv wd 2 + 4) CQ_LABEL_Y ''Up Next'',
      FrameRect (list_frame (MakeList (search_area wd))), FrameRect (list_frame (MakeList (queue_area wd)))]"

text \<open>The controls in the order they are made: which one a click finds, where it is, and what it says.\<close>

datatype control_id = Prev_btn | Play_btn | Next_btn | Vol_slider | Search_edit | Search_btn | Queue_add_btn

definition MakeControls :: "int \<Rightarrow> (control_id \<times> rect \<times> cstr) list" where
  "MakeControls wd =
     [(Prev_btn, (16, 156, 92, 176), ''Prev''), (Play_btn, (100, 156, 196, 176), ''Play''),
      (Next_btn, (204, 156, 264, 176), ''Next''), (Vol_slider, (300, 160, wd - 16, 176), ''''),
      (Search_edit, (16, 240, wd - 206, 262), ''''), (Search_btn, (wd - 198, 238, wd - 134, 260), ''Search''),
      (Queue_add_btn, (wd - 126, 238, wd - 16, 260), ''Add to Queue'')]"

definition progress_bar :: "int \<Rightarrow> rect" where
  "progress_bar wd = (16, 108, wd - 16, 124)"

subsection \<open>Bars and covers\<close>

lemma cover_ops: "draw_cover wd v c = (if v_cover_key v = [] then [] else
    map (\<lambda>gw. CopyBits gw (wd - 16 - CQ_COVER_PX, 44, wd - 16, 44 + CQ_COVER_PX))
      (case cq_cache_get c (Some (v_cover_key v)) of Some gw \<Rightarrow> [gw] | None \<Rightarrow> []))"
  by (cases "cq_cache_get c (Some (v_cover_key v))") (simp_all add: draw_cover_def)

lemma no_track_elsewhere:
  "DrawThemeTrack r mn mx p \<notin> set (draw_header conv ink wd)" "DrawThemeTrack r mn mx p \<notin> set (draw_title conv ink v n)"
  "DrawThemeTrack r mn mx p \<notin> set (draw_state conv wd v n)" "DrawThemeTrack r mn mx p \<notin> set (draw_cover wd v c)"
  "DrawThemeTrack r mn mx p \<notin> set (draw_message conv m)"
  by (cases "v_cover_key v = []"; auto simp: draw_header_def draw_title_def draw_state_def draw_message_def cover_ops
      DrawCStr_def DrawCStrRight_def Let_def)+

lemma no_cover_elsewhere:
  "CopyBits gw r \<notin> set (draw_header conv ink wd)" "CopyBits gw r \<notin> set (draw_title conv ink v n)"
  "CopyBits gw r \<notin> set (draw_state conv wd v n)" "CopyBits gw r \<notin> set (draw_progress conv wd v)"
  "CopyBits gw r \<notin> set (draw_message conv m)"
  by (simp_all add: draw_header_def draw_title_def draw_state_def draw_message_def draw_progress_def DrawCStr_def DrawCStrRight_def Let_def)

lemma shown_cover:
  assumes "CopyBits gw r \<in> set (DrawWindowContents conv ink wd s)"
  shows "gHaveSnap s \<and> v_cover_key (gView s) \<noteq> [] \<and> cq_cache_get (gCovers s) (Some (v_cover_key (gView s))) = Some gw"
proof -
  have "gHaveSnap s \<and> CopyBits gw r \<in> set (draw_cover wd (gView s) (gCovers s))"
    using assms by (cases "gHaveSnap s") (auto simp: DrawWindowContents_def no_cover_elsewhere DrawCStr_def)
  then show ?thesis
    by (cases "v_cover_key (gView s) = []"; cases "cq_cache_get (gCovers s) (Some (v_cover_key (gView s)))")
      (simp_all add: draw_cover_def)
qed
lemma shown_track:
  "DrawThemeTrack r mn mx p \<in> set (DrawWindowContents conv ink wd s) \<longleftrightarrow> gHaveSnap s \<and> v_show_progress (gView s) \<and>
     r = progress_bar wd \<and> mn = 0 \<and> mx = wrap32 (v_duration_ms (gView s)) \<and> p = wrap32 (v_position_ms (gView s))"
  by (simp add: DrawWindowContents_def no_track_elsewhere)
    (auto simp: draw_progress_def progress_bar_def DrawCStr_def DrawCStrRight_def Let_def)

subsection \<open>Geometry\<close>

definition pt_in :: "rect \<Rightarrow> int \<Rightarrow> int \<Rightarrow> bool" where
  "pt_in r h v = (case r of (l, t, rt, b) \<Rightarrow> PtInRect h v l t rt b)"

definition apart :: "rect \<Rightarrow> rect \<Rightarrow> bool" where
  "apart r q \<longleftrightarrow> (\<forall>h v. \<not> (pt_in r h v \<and> pt_in q h v))"

text \<open>What a repaint of the player area draws lies above the shelf.\<close>

fun above_shelf :: "'g draw \<Rightarrow> bool" where
  "above_shelf (EraseRect (l, t, r, b)) = (b \<le> CQ_SHELF_TOP)"
| "above_shelf (PaintRect (l, t, r, b)) = (b \<le> CQ_SHELF_TOP)"
| "above_shelf (DrawThemeSeparator (l, t, r, b)) = (b \<le> CQ_SHELF_TOP)"
| "above_shelf (DrawThemeTrack (l, t, r, b) mn mx v) = (b \<le> CQ_SHELF_TOP)"
| "above_shelf (CopyBits g (l, t, r, b)) = (b \<le> CQ_SHELF_TOP)"
| "above_shelf (FrameRect (l, t, r, b)) = (b \<le> CQ_SHELF_TOP)"
| "above_shelf (DrawText x y s) = (y < CQ_SHELF_TOP)"
| "above_shelf (DrawTextEnding x y s) = (y < CQ_SHELF_TOP)"
| "above_shelf op = True"

lemmas draw_defs = draw_header_def draw_title_def draw_progress_def draw_state_def draw_cover_def draw_message_def
  DrawCStr_def DrawCStrRight_def

lemma parts_above:
  "list_all above_shelf (draw_header conv ink wd)" "list_all above_shelf (draw_title conv ink v n)"
  "list_all above_shelf (draw_progress conv wd v)" "list_all above_shelf (draw_state conv wd v n)"
  "list_all above_shelf (draw_cover wd v c)" "list_all above_shelf (draw_message conv m)"
  by (simp_all add: draw_defs Let_def split: option.split)

lemma half: "0 \<le> wd \<Longrightarrow> tdiv wd 2 = wd div 2"
  by (simp add: tdiv_pos)

lemma boxes_apart:
  assumes "317 \<le> wd"
  shows "sorted_wrt apart (map (\<lambda>(c, r, s). r) (MakeControls wd) @ [progress_bar wd, search_area wd, queue_area wd])"
  using assms by (simp add: MakeControls_def progress_bar_def search_area_def queue_area_def apart_def pt_in_def PtInRect_def half)

text \<open>The window's geometry is sound at every width from 317 pixels: no two of the controls, the
progress bar and the lists overlap, so a click has one meaning; the areas a click is tested against are
the ones drawn; and a repaint of the player area stays above the shelf, so the animation cannot wipe
the lists.\<close>

lemma window_geometry:
  assumes "317 \<le> wd"
  shows "sorted_wrt apart (map (\<lambda>(c, r, s). r) (MakeControls wd) @ [progress_bar wd, search_area wd, queue_area wd]) \<and>
    (\<forall>h v. pt_in (MakeList (search_area wd)) h v = in_list h v 16 (tdiv wd 2 - 6)) \<and>
    (\<forall>h v. pt_in (MakeList (queue_area wd)) h v = in_list h v (tdiv wd 2 + 4) (wd - 16)) \<and>
    list_all above_shelf (DrawWindowContents conv ink wd s)"
proof (intro conjI)
  show "list_all above_shelf (DrawWindowContents conv ink wd s)"
    by (simp add: DrawWindowContents_def parts_above) (simp add: DrawCStr_def)
qed (use boxes_apart [OF assms] in \<open>simp_all add: search_area_def queue_area_def MakeList_def pt_in_def in_list_def\<close>)

end
