(* ===== verification/Toolbox.thy ===== *)
theory Toolbox
  imports AppText
begin

text \<open>
  The two places of \<open>os9/casquinha.c\<close> that hold system resources across calls that can fail: the
  decoding of a cover (\<open>DecodeCover\<close>) and the request to the Finder to open the preferences
  (\<open>OpenDocInFinder\<close>). The Toolbox is a parameter that answers whether a call succeeded.
\<close>

datatype handle = Jpeg | Data_ref

datatype desc = Target | Event | Docs | Reply

datatype tb_call = NewHandle nat | PtrToHand | GetGraphicsImporter | NewGWorld | DrawCover bytes | CloseComponent |
  DisposeHandle handle | AECreateDesc | AECreateAppleEvent | AECreateList | AEPutPtr | AEPutParamDesc | AESend |
  AEDisposeDesc desc

type_synonym 'w toolbox = "'w \<Rightarrow> tb_call \<Rightarrow> 'w \<times> bool"

text \<open>The picture is drawn into the new world, whatever the importer answers.\<close>

definition draw_cover_world :: "'w toolbox \<Rightarrow> bytes \<Rightarrow> 'w \<Rightarrow> 'w \<times> bool" where
  "draw_cover_world tb d w =
     (case tb w NewGWorld of (w, True) \<Rightarrow> (fst (tb w (DrawCover d)), True) | (w, False) \<Rightarrow> (w, False))"

text \<open>Whether a picture is returned.\<close>

definition DecodeCover :: "'w toolbox \<Rightarrow> bytes \<Rightarrow> 'w \<Rightarrow> 'w \<times> bool" where
  "DecodeCover tb d w =
     (case tb w (NewHandle (length d)) of
        (w, False) \<Rightarrow> (w, False)
      | (w, True) \<Rightarrow>
          (case tb w PtrToHand of
             (w, False) \<Rightarrow> (fst (tb w (DisposeHandle Jpeg)), False)
           | (w, True) \<Rightarrow>
               (case tb w GetGraphicsImporter of
                  (w, False) \<Rightarrow> (fst (tb (fst (tb w (DisposeHandle Data_ref))) (DisposeHandle Jpeg)), False)
                | (w, True) \<Rightarrow>
                    (case draw_cover_world tb d w of (w, gw) \<Rightarrow>
                       (let w = fst (tb w CloseComponent);
                            w = fst (tb w (DisposeHandle Data_ref));
                            w = fst (tb w (DisposeHandle Jpeg))
                        in (w, gw))))))"

definition put_document :: "'w toolbox \<Rightarrow> 'w \<Rightarrow> 'w" where
  "put_document tb w =
     (case tb w AECreateList of
        (w, True) \<Rightarrow>
          (let w = fst (tb w AEPutPtr); w = fst (tb w AEPutParamDesc) in fst (tb w (AEDisposeDesc Docs)))
      | (w, False) \<Rightarrow> w)"

definition OpenDocInFinder :: "'w toolbox \<Rightarrow> 'w \<Rightarrow> 'w" where
  "OpenDocInFinder tb w =
     (case tb w AECreateDesc of
        (w, False) \<Rightarrow> w
      | (w, True) \<Rightarrow>
          (let w = (case tb w AECreateAppleEvent of
                 (w, True) \<Rightarrow>
                   (let w = put_document tb w;
                        w = fst (tb w AESend);
                        w = fst (tb w (AEDisposeDesc Reply))
                    in fst (tb w (AEDisposeDesc Event)))
               | (w, False) \<Rightarrow> w)
           in fst (tb w (AEDisposeDesc Target))))"

subsection \<open>Resources\<close>

datatype thing = Handle handle | Importer | World | Desc desc

text \<open>
  What a sequence of answered calls holds; None when something is released that is not held. Sending
  an event without a reply leaves the reply descriptor null, and releasing it is harmless.
\<close>

definition give :: "thing \<Rightarrow> thing list \<Rightarrow> thing list option" where
  "give x h = (if x \<in> set h then Some (remove1 x h) else None)"

fun held1 :: "tb_call \<times> bool \<Rightarrow> thing list \<Rightarrow> thing list option" where
  "held1 (NewHandle n, ok) h = Some (if ok then Handle Jpeg # h else h)"
| "held1 (PtrToHand, ok) h = Some (if ok then Handle Data_ref # h else h)"
| "held1 (GetGraphicsImporter, ok) h = Some (if ok then Importer # h else h)"
| "held1 (NewGWorld, ok) h = Some (if ok then World # h else h)"
| "held1 (CloseComponent, ok) h = give Importer h"
| "held1 (DisposeHandle x, ok) h = give (Handle x) h"
| "held1 (AECreateDesc, ok) h = Some (if ok then Desc Target # h else h)"
| "held1 (AECreateAppleEvent, ok) h = Some (if ok then Desc Event # h else h)"
| "held1 (AECreateList, ok) h = Some (if ok then Desc Docs # h else h)"
| "held1 (AEDisposeDesc Reply, ok) h = Some h"
| "held1 (AEDisposeDesc x, ok) h = give (Desc x) h"
| "held1 (_, ok) h = Some h"

fun held :: "(tb_call \<times> bool) list \<Rightarrow> thing list \<Rightarrow> thing list option" where
  "held [] h = Some h"
| "held (c # cs) h = Option.bind (held1 c h) (held cs)"

text \<open>\<open>obs\<close> observes the calls a world has answered, each with its answer.\<close>

definition tb_seen :: "'w toolbox \<Rightarrow> ('w \<Rightarrow> (tb_call \<times> bool) list) \<Rightarrow> bool" where
  "tb_seen tb obs \<longleftrightarrow> (\<forall>w c. obs (fst (tb w c)) = obs w @ [(c, snd (tb w c))])"

lemma tb_seenD:
  assumes "tb_seen tb obs"
  shows "obs (fst (tb w c)) = obs w @ [(c, snd (tb w c))]" "tb w c = (w', ok) \<Longrightarrow> obs w' = obs w @ [(c, ok)]"
  using assms unfolding tb_seen_def by (blast, metis fst_conv snd_conv)

lemma draw_world_calls:
  assumes "tb_seen tb obs" "draw_cover_world tb d w = (w', gw)"
  shows "\<exists>new. obs w' = obs w @ new \<and> (\<forall>h. held new h = Some (if gw then World # h else h))"
proof (cases "tb w NewGWorld")
  case (Pair w1 ok)
  note s = tb_seenD [OF assms(1)]
  show ?thesis using assms(2) Pair s(2) [OF Pair] by (cases ok) (auto simp: draw_cover_world_def s(1))
qed

lemma put_document_calls:
  assumes "tb_seen tb obs" shows "\<exists>new. obs (put_document tb w) = obs w @ new \<and> (\<forall>h. held new h = Some h)"
proof (cases "tb w AECreateList")
  case (Pair w1 ok)
  note s = tb_seenD [OF assms]
  show ?thesis using Pair s(2) [OF Pair] by (cases ok) (auto simp: put_document_def Let_def give_def s(1))
qed

lemma held_append: "held (a @ b) h = Option.bind (held a h) (held b)"
  by (induction a arbitrary: h) (auto split: Option.bind_splits)

text \<open>C28. No path leaks or releases twice: whatever fails, the decoding of a cover ends with every handle and the
importer released and holds the picture exactly when it returns one, and the request to the Finder ends
with every descriptor released.\<close>

theorem toolbox_balanced:
  assumes "tb_seen tb obs"
  shows "(\<exists>new. obs (fst (DecodeCover tb d w)) = obs w @ new \<and>
      held new [] = Some (if snd (DecodeCover tb d w) then [World] else [])) \<and>
    (\<exists>new. obs (OpenDocInFinder tb w) = obs w @ new \<and> held new [] = Some [])"
proof
  note s = tb_seenD [OF assms]
  show "\<exists>new. obs (fst (DecodeCover tb d w)) = obs w @ new \<and>
      held new [] = Some (if snd (DecodeCover tb d w) then [World] else [])"
  proof (cases "tb w (NewHandle (length d))")
    case a: (Pair w1 ok1)
    show ?thesis
    proof (cases "tb w1 PtrToHand")
      case b: (Pair w2 ok2)
      show ?thesis
      proof (cases "tb w2 GetGraphicsImporter")
        case c: (Pair w3 ok3)
        obtain w4 gw where d: "draw_cover_world tb d w3 = (w4, gw)" by (cases "draw_cover_world tb d w3")
        obtain new where n: "obs w4 = obs w3 @ new" "\<forall>h. held new h = Some (if gw then World # h else h)"
          using draw_world_calls [OF assms d] by blast
        show ?thesis using s(2) [OF a] s(2) [OF b] s(2) [OF c] n
          by (cases ok1; cases ok2; cases ok3) (auto simp: DecodeCover_def a b c d Let_def s(1) held_append give_def)
      qed
    qed
  qed
  show "\<exists>new. obs (OpenDocInFinder tb w) = obs w @ new \<and> held new [] = Some []"
  proof (cases "tb w AECreateDesc")
    case a: (Pair w1 ok1)
    show ?thesis
    proof (cases "tb w1 AECreateAppleEvent")
      case b: (Pair w2 ok2)
      obtain new where n: "obs (put_document tb w2) = obs w2 @ new" "\<forall>h. held new h = Some h"
        using put_document_calls [OF assms] by blast
      show ?thesis using s(2) [OF a] s(2) [OF b] n
        by (cases ok1; cases ok2) (auto simp: OpenDocInFinder_def a b Let_def s(1) held_append give_def)
    qed
  qed
qed

text \<open>A Toolbox that keeps the calls and has no memory for the picture's world.\<close>

definition demo_tb :: "(tb_call \<times> bool) list toolbox" where
  "demo_tb w c = (w @ [(c, c \<noteq> NewGWorld)], c \<noteq> NewGWorld)"

theorem toolbox_balanced_witness:
  "held (fst (DecodeCover demo_tb ''jpeg'' [])) [] = Some [] \<and> \<not> snd (DecodeCover demo_tb ''jpeg'' [])"
proof -
  have "tb_seen demo_tb id" by (simp add: tb_seen_def demo_tb_def)
  moreover have "\<not> snd (DecodeCover demo_tb ''jpeg'' [])"
    by (simp add: DecodeCover_def draw_cover_world_def demo_tb_def Let_def)
  ultimately show ?thesis using toolbox_balanced [of demo_tb id "''jpeg''" "[]"] by auto
qed

end
