(* ===== verification/Picture.thy ===== *)
theory Picture
  imports AppProps Screen
begin

text \<open>
  The picture over runs of the event loop: the view on screen is always a rendering of the adopted
  snapshot, so that a repaint, also one the system asks for between two renderings, never mixes two
  snapshots.
\<close>

definition pic :: "('w, 'g) app \<Rightarrow> bool \<times> cq_now \<times> cq_view" where
  "pic s = (gHaveSnap s, gSnap s, gView s)"

lemma frame_pic: "audio_frame s s' \<Longrightarrow> pic s' = pic s"
  by (cases s; cases s') (simp add: audio_frame_def pic_def)

interpretation picture: aside pic
  by unfold_locales (simp_all add: pic_def frame_pic [unfolded pic_def])

text \<open>These do not belong to what every view leaves alone, but the picture does not read them.\<close>

lemma pic_upd [simp]:
  "pic (s\<lparr>gTx := x1\<rparr>) = pic s" "pic (s\<lparr>gCover := x2\<rparr>) = pic s" "pic (s\<lparr>gQueueTx := x3\<rparr>) = pic s"
  "pic (s\<lparr>gFactTx := x4\<rparr>) = pic s" "pic (s\<lparr>gGuard := x5\<rparr>) = pic s" "pic (s\<lparr>gSuspended := x6\<rparr>) = pic s"
  "pic (s\<lparr>lastDraw := x7\<rparr>) = pic s" "pic (s\<lparr>play_title := x8\<rparr>) = pic s" "pic (s\<lparr>gSnapTick := x9\<rparr>) = pic s"
  by (simp_all add: pic_def)

subsection \<open>The types of what is shown\<close>

text \<open>Numbers within their C types and texts that are C strings.\<close>

definition snap_typed :: "cq_now \<Rightarrow> bool" where
  "snap_typed n \<longleftrightarrow> now_ranges n \<and>
     (\<forall>t. Some t \<in> {now_track n, now_artist n, now_album n, now_album_id n, now_track_id n} \<longrightarrow> NUL \<notin> set t)"

lemma get_cstr: "fields_ok f \<Longrightarrow> cq_fields_get f k = Some v \<Longrightarrow> NUL \<notin> set v"
proof -
  have "find_value es k = Some v \<Longrightarrow> \<exists>e \<in> set es. v = fvalue e" for es
    by (induction es) (auto split: if_splits)
  then show "fields_ok f \<Longrightarrow> cq_fields_get f k = Some v \<Longrightarrow> NUL \<notin> set v"
    by (auto simp: cq_fields_get_def fields_ok_def)
qed

lemma read_typed: "snap_typed (cq_now_from_fields (cq_fields_parse cq_fields_init d))"
proof -
  let ?f = "cq_fields_parse cq_fields_init d"
  have ok: "fields_ok ?f" using fields_ok_parse [OF fields_ok_init] .
  have r: "now_ranges (cq_now_from_fields ?f)"
    using parse_ll_range wrap32_range by (auto simp: now_ranges_def cq_now_from_fields_def split: option.split)
  have "NUL \<notin> set t" if "Some t \<in> {cq_fields_get ?f ''track'', cq_fields_get ?f ''artist'', cq_fields_get ?f ''album'',
      cq_fields_get ?f ''album_id'', cq_fields_get ?f ''track_id''}" for t
    using that get_cstr [OF ok] by (metis insertE singletonD)
  then show ?thesis using r by (simp add: snap_typed_def cq_now_from_fields_def)
qed

lemma held_typed: "snap_typed n \<Longrightarrow> snap_typed m \<Longrightarrow> v \<in> {now_volume n, now_volume m} \<Longrightarrow> snap_typed (n\<lparr>now_volume := v\<rparr>)"
  by (auto simp: snap_typed_def now_ranges_def)

lemma AdoptReply_typed:
  assumes "AdoptReply env d isCmd s = Some s'" "snap_typed (gSnap s)" shows "snap_typed (gSnap s')"
proof (cases "reply_snap d")
  case None
  then show ?thesis using AdoptReply_bg [OF assms(1)] assms(2) by (simp add: bg_def)
next
  case (Some n)
  then have n: "snap_typed n" using read_typed [of d] by (auto simp: reply_snap_def Let_def split: if_splits)
  obtain ok g where a: "cq_guard_accept_ts (gGuard s) (now_ts n) = (ok, g)" by (cases "cq_guard_accept_ts (gGuard s) (now_ts n)")
  obtain v where "v \<in> {now_volume n, now_volume (gSnap s)}"
    "bg s' = bg (if ok then s\<lparr>gGuard := g, gSnap := n\<lparr>now_volume := v\<rparr>\<rparr> else s\<lparr>gGuard := g\<rparr>)"
    using AdoptReply_bg [OF assms(1)] Some a by auto
  then show ?thesis using held_typed [OF n assms(2), of v] assms(2) by (simp add: bg_def split: if_splits)
qed

subsection \<open>The picture's invariant\<close>

text \<open>The snapshot is well typed and the view renders it.\<close>

definition drawn_ok :: "('w, 'g) app \<Rightarrow> bool" where
  "drawn_ok s \<longleftrightarrow> snap_typed (gSnap s) \<and> (gHaveSnap s \<longrightarrow> (\<exists>i. in_snap i = Some (gSnap s) \<and> gView s = cq_view_render i))"

lemma pic_drawn: "pic s' = pic s \<Longrightarrow> drawn_ok s \<Longrightarrow> drawn_ok s'"
  by (simp add: pic_def drawn_ok_def)

lemma settle_pic [simp]: "pic (settle_intent v s) = pic s"
  by (simp add: settle_intent_def)

lemma Redraw_drawn: "snap_typed (gSnap s) \<Longrightarrow> drawn_ok (Redraw env s)"
proof -
  have "in_snap (BuildViewIn env s) = (if gHaveSnap s then Some (gSnap s) else None)"
    by (simp add: BuildViewIn_def Let_def)
  moreover have "pic (Redraw env s) = (gHaveSnap s, gSnap s, cq_view_render (BuildViewIn env s))"
    by (simp add: Redraw_def RenderView_def Let_def) (simp add: pic_def)
  ultimately show "snap_typed (gSnap s) \<Longrightarrow> drawn_ok (Redraw env s)" unfolding drawn_ok_def pic_def by (metis prod.inject)
qed

lemma drawn_typed: "drawn_ok s \<Longrightarrow> snap_typed (gSnap s)"
  by (simp add: drawn_ok_def)

lemma Redraw_again: "pic v = pic s \<Longrightarrow> drawn_ok s \<Longrightarrow> drawn_ok (Redraw env v)"
  by (rule Redraw_drawn) (simp add: pic_def drawn_ok_def)

lemma TickView_drawn: "drawn_ok s \<Longrightarrow> drawn_ok (TickView env s)"
  using pic_drawn [OF settle_pic] Redraw_again [of "(settle_intent v s)\<lparr>lastDraw := t\<rparr>" s for v t]
  by (auto simp: TickView_def Let_def)

lemma AdoptReply_drawn:
  assumes "AdoptReply env d isCmd s = Some s'" "drawn_ok s" shows "drawn_ok s'"
proof -
  obtain v where v: "s' = Redraw env v"
    using assms(1) by (auto simp: AdoptReply_def Let_def map_option_case split: option.splits)
  have "snap_typed (gSnap v)" using AdoptReply_typed [OF assms(1) drawn_typed [OF assms(2)]]
    by (simp add: v Redraw_def RenderView_def settle_intent_def Let_def split: if_splits)
  then show ?thesis using v Redraw_drawn by simp
qed

text \<open>Outside a repaint every step keeps the picture.\<close>

lemma put_pic [simp]: "pic (put_tx isPoll t s) = pic s"
  by (simp add: put_tx_def)

lemma start_pic [simp]: "pic (start_cover env s) = pic s" "pic (start_poll env s) = pic s" "pic (start_queue env s) = pic s"
    "pic (start_fact env s) = pic s"
  by (simp_all add: start_cover_def start_poll_def start_queue_def start_fact_def Let_def split: option.split)

lemma PumpTx_drawn:
  assumes "PumpTx env isPoll t s = Some s'" "drawn_ok s" shows "drawn_ok s'"
proof -
  obtain s1 t1 where p: "poll_tx env s t = Some (s1, t1)" using assms(1) by (auto simp: PumpTx_def bind_eq_Some_conv)
  define s2 where "s2 = (let s = put_tx isPoll (Some t1) s1 in if isPoll then s\<lparr>gLastStat := status_code (status t1)\<rparr> else s)"
  note e = assms(1) [unfolded PumpTx_def p bind.bind_lunit prod.case Let_def, folded s2_def [unfolded Let_def]]
  have k2: "drawn_ok s2" by (rule pic_drawn [OF _ assms(2)]) (simp add: s2_def Let_def picture.poll_tx_keep [OF p])
  show ?thesis
  proof (cases "status t1")
    case CQ_TX_RUNNING
    then show ?thesis using e k2 by simp
  next
    case CQ_TX_DONE
    then obtain s3 where a: "AdoptReply env (data t1) (\<not> isPoll) s2 = Some s3"
      and s': "s' = put_tx isPoll None (free_tx env (if isPoll then s3 else s3\<lparr>gLastPoll := TickCount env s3\<rparr>) t1)"
      using e by (auto simp: bind_eq_Some_conv)
    show ?thesis by (rule pic_drawn [OF _ AdoptReply_drawn [OF a k2]]) (simp add: s')
  next
    case CQ_TX_FAILED
    then show ?thesis using e by (auto intro!: Redraw_again [OF _ k2])
  qed
qed

lemma pump_cover_drawn:
  assumes "pump_cover env u s = Some s'" "drawn_ok s" shows "drawn_ok s'"
proof (cases "gCover s")
  case (Some t)
  obtain s1 t1 where p: "poll_tx env s t = Some (s1, t1)" using assms(1) Some by (auto simp: pump_cover_def bind_eq_Some_conv)
  have k: "drawn_ok (s1\<lparr>gCover := Some t1\<rparr>)" by (rule pic_drawn [OF _ assms(2)]) (simp add: picture.poll_tx_keep [OF p])
  have fin: "drawn_ok v \<Longrightarrow> drawn_ok ((free_tx env v t1)\<lparr>gCover := None\<rparr>)" for v :: "('a, 'b) app"
    by (rule pic_drawn) simp
  have put: "drawn_ok (s1\<lparr>gCover := Some t1, gCovers := c\<rparr>)" for c by (rule pic_drawn [OF _ k]) simp
  have new: "drawn_ok (Redraw env (s1\<lparr>gCover := Some t1, gCovers := c\<rparr>))" for c by (rule Redraw_again [OF _ k]) simp
  show ?thesis using assms(1) Some p k
    by (auto simp: pump_cover_def Let_def intro!: fin put new split: if_splits)
qed (use assms in \<open>simp add: pump_cover_def\<close>)

lemma PollNetwork_drawn:
  assumes "PollNetwork env u s = Some s'" "drawn_ok s" shows "drawn_ok s'"
proof -
  obtain s1 s2 where a: "(case gCmd s of Some t \<Rightarrow> PumpTx env False t s | None \<Rightarrow> Some s) = Some s1"
    and b: "pump_cover env u s1 = Some s2"
    and c: "(case gTx (flush_command env (start_cover env s2)) of
        Some t \<Rightarrow> PumpTx env True t (flush_command env (start_cover env s2))
      | None \<Rightarrow> Some (start_poll env (flush_command env (start_cover env s2)))) = Some s'"
    using assms(1) by (auto simp: PollNetwork_def bind_eq_Some_conv Let_def)
  have k1: "drawn_ok s1" using a assms(2) PumpTx_drawn by (auto split: option.splits)
  have k3: "drawn_ok (flush_command env (start_cover env s2))"
    by (rule pic_drawn [OF _ pump_cover_drawn [OF b k1]]) (simp add: picture.flush_keep)
  show ?thesis
  proof (cases "gTx (flush_command env (start_cover env s2))")
    case None
    then have "s' = start_poll env (flush_command env (start_cover env s2))" using c by simp
    then show ?thesis using pic_drawn [OF start_pic(2) k3] by simp
  qed (use c PumpTx_drawn [OF _ k3] in auto)
qed

lemma pump_queue_pic: "pump_queue env u s = Some s' \<Longrightarrow> pic s' = pic s"
proof (cases "gQueueTx s")
  case (Some t)
  assume p: "pump_queue env u s = Some s'"
  then obtain s1 t1 where q: "poll_tx env s t = Some (s1, t1)" using Some by (auto simp: pump_queue_def bind_eq_Some_conv)
  show ?thesis using p Some q picture.poll_tx_keep [OF q]
    by (cases "status t1") (auto simp: pump_queue_def Let_def bind_eq_Some_conv dest!: picture.adopt_queue_keep)
qed (auto simp: pump_queue_def)

lemma pump_fact_pic: "pump_fact env s = Some s' \<Longrightarrow> pic s' = pic s"
proof (cases "gFactTx s")
  case (Some t)
  assume p: "pump_fact env s = Some s'"
  then obtain s1 t1 where q: "poll_tx env s t = Some (s1, t1)" using Some by (auto simp: pump_fact_def bind_eq_Some_conv)
  show ?thesis using p Some q picture.poll_tx_keep [OF q] by (cases "status t1") (auto simp: pump_fact_def Let_def)
qed (auto simp: pump_fact_def)

lemma PumpAux_pic:
  assumes "env_ok env rx tx" "PumpAux env u s = Some s'" shows "pic s' = pic s"
proof -
  obtain s1 s2 s3 s4 s5 s6 where st: "pump_fire env s = Some s1" "ServiceAudio env s1 = Some s2" "pump_pls env s2 = Some s3"
      "pump_search env u s3 = Some s4" "pump_artist env u s4 = Some s5" "pump_queue env u s5 = Some s6" "pump_fact env s6 = Some s'"
    using assms(2) by (auto simp: PumpAux_def bind_eq_Some_conv)
  show ?thesis using pump_fact_pic [OF st(7)] pump_queue_pic [OF st(6)] picture.aux_front_keep [OF assms(1) st(1-5)] by simp
qed

lemma server_change_pic [simp]: "pic (ApplyServerChange env s) = pic s"
proof -
  obtain m where e: "ApplyServerChange env s = s\<lparr>gTx := None, gCmd := None, gCover := None, gFire := None,
     gSearchTx := None, gArtistTx := None, gQueueTx := None, gFactTx := None, mach := m, gPls := None,
     gGuard := cq_guard_reset (gGuard s), gBackoff := cq_backoff_init CQ_POLL_TICKS CQ_POLL_CAP,
     gQBackoff := cq_backoff_init CQ_QUEUE_POLL_TICKS CQ_POLL_CAP,
     gFBackoff := cq_backoff_init CQ_STREAM_POLL_TICKS CQ_POLL_CAP,
     gLastPoll := 0, gQueueLast := 0, gQueueKick := 0, gStreamProbe := 0, gHaveFact := False, gFactLast := 0,
     gCovers := clear_covers (gCovers s)\<rparr>" using server_change_eq by blast
  show ?thesis unfolding e by (simp add: pic_def)
qed

lemma HandleEvent_pic:
  assumes "env_ok env rx tx" "HandleEvent env u e s = Some s'" shows "pic s' = pic s"
proof (cases e)
  case (OsEvt msg)
  have r: "pic (ReloadConfig env v) = pic v" for v :: "('a, 'b) app" using picture.reload_keep [of env v] by auto
  then show ?thesis using assms(2) OsEvt by (auto simp: HandleEvent_def os_event_def Let_def split: if_splits)
next
  case (AEScript d)
  then show ?thesis using assms(2) picture.script_keep [OF assms(1), of u "cview d" s s']
    by (auto simp: HandleEvent_def AEDoScriptHandler_def split: if_splits)
qed (use assms(2) picture.mouse_keep picture.cmd_key_keep [OF assms(1)] in \<open>auto simp: HandleEvent_def\<close>)

lemma limb_drawn:
  assumes "env_ok env rx tx" "limb_step env u l s = Some s'" "drawn_ok s" shows "drawn_ok s'"
proof (cases l)
  case LTask
  have "pic (run_pump env s) = pic s" by (rule frame_pic) (rule small_frames(4))
  then show ?thesis using LTask assms(2,3) by (auto simp: limb_step_def intro: pic_drawn split: if_splits)
next
  case LRefill
  obtain v out nf where r: "AudioDoubleBack s = (v, out, nf)" by (cases "AudioDoubleBack s") auto
  have "pic v = pic s" using frame_pic [OF double_back_frame' [OF r]] .
  then show ?thesis using LRefill assms(2,3) by (auto simp: limb_step_def r intro: pic_drawn split: if_splits)
qed (use assms(2,3) pic_drawn [OF HandleEvent_pic [OF assms(1)]] PollNetwork_drawn pic_drawn [OF PumpAux_pic [OF assms(1)]]
    TickView_drawn in \<open>auto simp: limb_step_def\<close>)

lemma run_drawn: "env_ok env rx tx \<Longrightarrow> app_run env u ls s = Some s' \<Longrightarrow> drawn_ok s \<Longrightarrow> drawn_ok s'"
  by (induction ls arbitrary: s) (auto simp: bind_eq_Some_conv dest: limb_drawn)

lemma boot_pic:
  assumes "env_ok env rx tx" "app_boot env opt s = Some s'" shows "gHaveSnap s' = gHaveSnap s" "gSnap s' = cq_now_zero"
proof -
  obtain h p where l: "LoadPrefs (prefs_file s) (gHost s, gPort s) = (h, p)" by (cases "LoadPrefs (prefs_file s) (gHost s, gPort s)")
  define s1 where "s1 = s\<lparr>gGuard := cq_guard_init (gGuard s), gBackoff := cq_backoff_init CQ_POLL_TICKS CQ_POLL_CAP,
            gQBackoff := cq_backoff_init CQ_QUEUE_POLL_TICKS CQ_POLL_CAP,
            gFBackoff := cq_backoff_init CQ_STREAM_POLL_TICKS CQ_POLL_CAP,
            gCovers := cq_cache_init, gDeb := cq_debounce_init (gDeb s), gHost := h, gPort := p,
            gAutoStart := gAutoStart s \<and> \<not> opt, gSnap := cq_now_zero\<rparr>"
  have e: "app_boot env opt s = (if gAutoStart s1 \<and> gAuSt s1 = AU_IDLE then ToggleListen env s1 else Some s1)"
    unfolding app_boot_def Let_def s1_def by (simp add: l)
  have "pic s' = pic s1" using assms(2) e picture.ToggleListen_keep [OF assms(1)] by (auto split: if_splits)
  then show "gHaveSnap s' = gHaveSnap s" "gSnap s' = cq_now_zero" by (simp_all add: pic_def s1_def)
qed

lemma boot_drawn:
  assumes "env_ok env rx tx" "\<not> gHaveSnap s" "app_boot env opt s = Some s'" shows "drawn_ok s'"
  using boot_pic [OF assms(1,3)] assms(2) by (simp add: drawn_ok_def snap_typed_def now_ranges_def cq_now_zero_def)


lemma demo_run:
  "\<exists>s1 s. app_boot still_env False demo_app = Some s1 \<and>
     app_run still_env demo_ui [LView, LHandle (CmdKey CHR ''k'' 0)] s1 = Some s"
proof -
  have "\<exists>s1. app_boot still_env False demo_app = Some s1"
    by (simp add: app_boot_def Let_def LoadPrefs_def ToggleListen_def)
  then obtain s1 where b: "app_boot still_env False demo_app = Some s1" by blast
  have "\<exists>s. app_run still_env demo_ui [LView, LHandle (CmdKey CHR ''k'' 0)] s1 = Some s"
    by (simp add: limb_step_def HandleEvent_def cmd_key_def)
  then show ?thesis using b by blast
qed


subsection \<open>What a repaint shows\<close>

text \<open>The texts of a repaint in their order, each with whether it is drawn in green.\<close>

fun texts :: "bool \<Rightarrow> 'g draw list \<Rightarrow> (bool \<times> int \<times> int \<times> cstr) list" where
  "texts g [] = []"
| "texts g (RGBGreen # ops) = texts True ops"
| "texts g (RGBRestore # ops) = texts False ops"
| "texts g (DrawText x y s # ops) = (g, x, y, s) # texts g ops"
| "texts g (_ # ops) = texts g ops"

definition state_name :: "cq_play_state \<Rightarrow> cstr" where
  "state_name p = (case p of CQ_STATE_PLAYING \<Rightarrow> ''Playing'' | CQ_STATE_PAUSED \<Rightarrow> ''Paused'' | CQ_STATE_STOPPED \<Rightarrow> ''Stopped'')"

lemma word_of_snap:
  assumes "in_snap i = Some n"
  shows "v_state_word (cq_view_render i) \<in> {''Skipping...'', ''Starting...'', ''Pausing...'', state_name (now_state n)}"
  using assms by (simp add: view_fields view_word_def render_word_def cq_view_zero_def state_name_def split: cq_play_state.split)

lemma texts_parts:
  "texts False (draw_header conv ink wd @ ops) = (False, 16, 22, ToMacRoman conv ''Casquinha'' 256) # texts False ops"
  "texts False (draw_title conv ink v n @ ops) =
     (v_title_green v \<and> ink, 16, 58, ToMacRoman conv (case now_track n of Some t \<Rightarrow> t | None \<Rightarrow> ''(no track)'') 256) #
     (False, 16, 78, ToMacRoman conv (case now_artist n of Some t \<Rightarrow> t | None \<Rightarrow> '''') 256) #
     (False, 16, 94, ToMacRoman conv (case now_album n of Some t \<Rightarrow> t | None \<Rightarrow> '''') 256) # texts False ops"
  "texts False (draw_progress conv wd v @ ops) =
     (False, 16, 140, ToMacRoman conv (FmtTime (wrap32 (v_position_ms v))) 256) # texts False ops"
  "texts False (draw_state conv wd v n @ ops) = (False, 276, 173, ToMacRoman conv ''Vol'' 256) #
     (False, 16, 202, ToMacRoman conv (state_line v n) 256) # texts False ops"
  "texts False (draw_cover wd v c @ ops) = texts False ops"
  "texts False (draw_message conv m) = (if m = [] then [] else [(False, 16, 220, ToMacRoman conv m 256)])"
       apply (cases ink; simp add: draw_header_def DrawCStr_def)
      apply (cases "v_title_green v \<and> ink"; simp add: draw_title_def DrawCStr_def Let_def)
     apply (simp add: draw_progress_def DrawCStr_def DrawCStrRight_def Let_def)
    apply (simp add: draw_state_def DrawCStr_def DrawCStrRight_def)
   apply (simp add: draw_cover_def split: option.split)
  apply (simp add: draw_message_def DrawCStr_def)
  done

lemma shown_texts:
  assumes "gHaveSnap s" "(g, 16, y, t) \<in> set (texts False (DrawWindowContents conv ink wd s))"
  shows "y = 58 \<Longrightarrow> g = (v_title_green (gView s) \<and> ink) \<and>
      t = ToMacRoman conv (case now_track (gSnap s) of Some n \<Rightarrow> n | None \<Rightarrow> ''(no track)'') 256"
    "y = 202 \<Longrightarrow> t = ToMacRoman conv (state_line (gView s) (gSnap s)) 256"
  using assms by (simp_all add: DrawWindowContents_def texts_parts split: if_splits)

text \<open>C14. A repaint shows one snapshot. After any run of events, network passes, audio service, interrupts
and decode passes: without a snapshot there is neither a progress bar nor a cover; with one, the title
is that snapshot's and is green exactly when it plays on a colour screen, the state row says its state
or acknowledges a command, the bar is there only with a known length and, where that fits 32 bits, runs
from zero to it with the position in between, and a cover is the one kept for that snapshot's album.\<close>

theorem picture_one_snapshot:
  assumes "env_ok env rx tx" "\<not> gHaveSnap s0" "app_boot env opt s0 = Some s1" "app_run env u ls s1 = Some s"
  shows "let ops = DrawWindowContents conv ink wd s; n = gSnap s in
    (\<forall>g t. gHaveSnap s \<and> (g, 16, 58, t) \<in> set (texts False ops) \<longrightarrow>
      g = (now_state n = CQ_STATE_PLAYING \<and> ink) \<and>
      t = ToMacRoman conv (case now_track n of Some n \<Rightarrow> n | None \<Rightarrow> ''(no track)'') 256) \<and>
    (\<forall>g t. gHaveSnap s \<and> (g, 16, 202, t) \<in> set (texts False ops) \<longrightarrow>
      (\<exists>v. v_state_word v \<in> {''Skipping...'', ''Starting...'', ''Pausing...'', state_name (now_state n)} \<and>
        t = ToMacRoman conv (state_line v n) 256)) \<and>
    (\<forall>r mn mx p. DrawThemeTrack r mn mx p \<in> set ops \<longrightarrow> gHaveSnap s \<and> 0 < now_duration_ms n \<and>
      (now_duration_ms n < 2 ^ 31 \<longrightarrow> mn = 0 \<and> mx = now_duration_ms n \<and> 0 \<le> p \<and> p \<le> mx)) \<and>
    (\<forall>gw r. CopyBits gw r \<in> set ops \<longrightarrow> gHaveSnap s \<and>
      (\<exists>a. now_album_id n = Some a \<and> cq_cache_get (gCovers s) (Some (fits 64 a)) = Some gw))"
proof -
  have ok: "drawn_ok s" by (rule run_drawn [OF assms(1,4) boot_drawn [OF assms(1-3)]])
  show ?thesis
  proof (cases "gHaveSnap s")
    case False
    then show ?thesis using shown_cover [of _ _ conv ink wd s] by (auto simp: shown_track Let_def)
  next
    case True
    then obtain i where i: "in_snap i = Some (gSnap s)" "gView s = cq_view_render i" using ok by (auto simp: drawn_ok_def)
    note v = view_fields [of i, unfolded i(1) option.case, folded i(2)]
    have w: "v_state_word (gView s) \<in> {''Skipping...'', ''Starting...'', ''Pausing...'', state_name (now_state (gSnap s))}"
      using word_of_snap [OF i(1)] by (simp only: i(2))
    have bar: "wrap32 (v_duration_ms (gView s)) = now_duration_ms (gSnap s)" "0 \<le> wrap32 (v_position_ms (gView s))"
      "wrap32 (v_position_ms (gView s)) \<le> now_duration_ms (gSnap s)"
      if "0 < now_duration_ms (gSnap s)" "now_duration_ms (gSnap s) < 2 ^ 31"
      using position_clamped [where i = i and s = "gSnap s"] that wrap32_id by (simp_all add: v)
    have cover: "\<exists>a. now_album_id (gSnap s) = Some a \<and> cq_cache_get (gCovers s) (Some (fits 64 a)) = Some gw"
      if "CopyBits gw r \<in> set (DrawWindowContents conv ink wd s)" for gw r
      using shown_cover [OF that] by (auto simp: v split: option.splits)
    show ?thesis unfolding Let_def
    proof (intro conjI allI impI)
      fix g t assume "gHaveSnap s \<and> (g, 16, 202, t) \<in> set (texts False (DrawWindowContents conv ink wd s))"
      then show "\<exists>v. v_state_word v \<in> {''Skipping...'', ''Starting...'', ''Pausing...'', state_name (now_state (gSnap s))} \<and>
          t = ToMacRoman conv (state_line v (gSnap s)) 256"
        using shown_texts(2) [OF True] w by blast
    qed (use True cover bar shown_texts(1) [OF True] in \<open>auto simp: shown_track v\<close>)
  qed
qed

theorem picture_one_snapshot_witness:
  "\<exists>s1 s. app_boot still_env False demo_app = Some s1 \<and>
     app_run still_env demo_ui [LView, LHandle (CmdKey CHR ''k'' 0)] s1 = Some s \<and>
     (\<forall>gw r. CopyBits gw r \<in> set (DrawWindowContents None True 460 s) \<longrightarrow> gHaveSnap s)"
proof -
  obtain s1 s where b: "app_boot still_env False demo_app = Some s1"
    and r: "app_run still_env demo_ui [LView, LHandle (CmdKey CHR ''k'' 0)] s1 = Some s" using demo_run by blast
  have "\<not> gHaveSnap demo_app" by simp
  from picture_one_snapshot [OF still_env_ok this b r, of None True 460] b r show ?thesis by (auto simp: Let_def)
qed

end
